(* ===== verification/Prelude.thy ===== *)
theory Prelude
  imports Main "HOL-Library.Word" "HOL-Library.AList" "HOL-Library.Multiset"
begin

text \<open>
  What every component of the model shares.

  \<^item> The machine types of the Go code: \<open>byte\<close>, \<open>u32\<close>, \<open>u64\<close>, and \<open>gostring\<close>: a Go
    string is an immutable byte sequence, valid UTF-8 or not.
  \<^item> \<open>outcome\<close>: how a call ends. A returned value, a returned \<open>error\<close>, a panic, or no
    return at all are four different values, so that no theorem can confuse them.
    \<open>obind\<close> sequences two calls the way \<open>if err != nil { return err }\<close> does, and
    \<open>owrap\<close> is \<open>fmt.Errorf("...: %w", err)\<close>.
  \<^item> Go maps as association lists with distinct keys. The order of the list is the order in
    which \<open>range\<close> visits the map, which Go leaves open; what does not depend on it is proved
    for every order. \<open>go_map\<close> is their interface.
  \<^item> Lemmas on words that say when unsigned arithmetic does not wrap.
\<close>

unbundle bit_operations_syntax

type_synonym byte = "8 word"
type_synonym u32 = "32 word"
type_synonym u64 = "64 word"
type_synonym gostring = "byte list"

named_theorems outcome_simps \<open>case analysis of sequenced outcomes\<close>
named_theorems codec_simps \<open>reading back what a writer wrote\<close>

section \<open>How a call ends\<close>

datatype gerror =
    EOF
  | UnexpectedEOF
  | ErrMsg string "nat list"
  | ErrWrap string "nat list" gerror

datatype gopanic = MakeSliceLen | SliceBounds | IndexRange | TypeAssertion | StackOverflow | PanicMsg string

datatype 'a outcome = Ret 'a | Err gerror | Panic gopanic | Diverge

fun obind :: "'a outcome \<Rightarrow> ('a \<Rightarrow> 'b outcome) \<Rightarrow> 'b outcome" where
  "obind (Ret x) f = f x"
| "obind (Err e) f = Err e"
| "obind (Panic p) f = Panic p"
| "obind Diverge f = Diverge"

fun owrap :: "string \<Rightarrow> nat list \<Rightarrow> 'a outcome \<Rightarrow> 'a outcome" where
  "owrap c ix (Err e) = Err (ErrWrap c ix e)"
| "owrap c ix (Ret x) = Ret x"
| "owrap c ix (Panic p) = Panic p"
| "owrap c ix Diverge = Diverge"

definition returns :: "'a outcome \<Rightarrow> bool" where
  "returns m \<longleftrightarrow> (\<exists>x. m = Ret x)"

text \<open>\<open>xs[i]\<close>, which panics out of range.\<close>

definition index_at :: "'a list \<Rightarrow> nat \<Rightarrow> 'a outcome" where
  "index_at xs i = (if i < length xs then Ret (xs ! i) else Panic IndexRange)"

text \<open>\<open>of_loop\<close> turns the result of a loop that may not end into an outcome.\<close>

fun of_loop :: "'a outcome option \<Rightarrow> 'a outcome" where
  "of_loop None = Diverge"
| "of_loop (Some m) = m"

lemma obind_cong [fundef_cong]:
  "m = m' \<Longrightarrow> (\<And>x. m' = Ret x \<Longrightarrow> f x = g x) \<Longrightarrow> obind m f = obind m' g"
  by (cases m') auto

lemma obind_eq_Ret [outcome_simps]: "obind m f = Ret y \<longleftrightarrow> (\<exists>x. m = Ret x \<and> f x = Ret y)"
  by (cases m) auto

lemma owrap_eq_Ret [simp]: "owrap c ix m = Ret x \<longleftrightarrow> m = Ret x"
  by (cases m) auto

lemma Ret_eq_owrap [simp]: "Ret x = owrap c ix m \<longleftrightarrow> m = Ret x"
  by (cases m) auto

lemma owrap_eq_Panic [simp]: "owrap c ix m = Panic p \<longleftrightarrow> m = Panic p"
  by (cases m) auto

lemma owrap_eq_Diverge [simp]: "owrap c ix m = Diverge \<longleftrightarrow> m = Diverge"
  by (cases m) auto

lemma obind_eq_Panic [outcome_simps]:
  "obind m f = Panic p \<longleftrightarrow> m = Panic p \<or> (\<exists>x. m = Ret x \<and> f x = Panic p)"
  by (cases m) auto

lemma obind_eq_Diverge [outcome_simps]:
  "obind m f = Diverge \<longleftrightarrow> m = Diverge \<or> (\<exists>x. m = Ret x \<and> f x = Diverge)"
  by (cases m) auto

lemma index_at_eq [simp]: "index_at xs i = Ret x \<longleftrightarrow> i < length xs \<and> x = xs ! i"
  "index_at xs i \<noteq> Diverge" "index_at xs i \<noteq> Err e" "index_at xs i = Panic p \<longleftrightarrow> p = IndexRange \<and> length xs \<le> i"
  by (auto simp: index_at_def)

lemma index_at_Cons [simp]: "index_at (x # xs) 0 = Ret x" "index_at (x # xs) (Suc i) = index_at xs i"
  by (simp_all add: index_at_def)

lemma obind_assoc: "obind (obind m f) g = obind m (\<lambda>x. obind (f x) g)"
  by (cases m) auto

lemma obind_Ret_right [simp]: "obind m Ret = m"
  by (cases m) auto

section \<open>Go maps\<close>

text \<open>
  The interface a client of a Go map relies on: what \<open>m[k]\<close> finds after \<open>m[k'] = v\<close> and
  after \<open>delete(m, k')\<close>, on maps that satisfy the representation invariant.
\<close>

locale go_map =
  fixes empty :: "'m"
    and get :: "'m \<Rightarrow> 'k \<Rightarrow> 'v option"
    and put :: "'k \<Rightarrow> 'v \<Rightarrow> 'm \<Rightarrow> 'm"
    and del :: "'k \<Rightarrow> 'm \<Rightarrow> 'm"
    and inv :: "'m \<Rightarrow> bool"
  assumes inv_empty: "inv empty"
    and inv_put: "inv m \<Longrightarrow> inv (put k v m)"
    and inv_del: "inv m \<Longrightarrow> inv (del k m)"
    and get_empty: "get empty = (\<lambda>_. None)"
    and get_put: "inv m \<Longrightarrow> get (put k v m) = (get m)(k \<mapsto> v)"
    and get_del: "inv m \<Longrightarrow> get (del k m) = (get m)(k := None)"
begin

lemma inv_fold_put: "inv m \<Longrightarrow> inv (fold (\<lambda>(k, v). put k v) kvs m)"
  by (induction kvs arbitrary: m) (auto simp: inv_put)

text \<open>A loop that stores a list of pairs leaves the last value stored for each key.\<close>

lemma get_fold_put:
  "inv m \<Longrightarrow> get (fold (\<lambda>(k, v). put k v) kvs m) = get m ++ map_of (rev kvs)"
proof (induction kvs arbitrary: m)
  case Nil
  then show ?case by simp
next
  case (Cons kv kvs)
  obtain k v where kv: "kv = (k, v)" by fastforce
  have "get (fold (\<lambda>(k, v). put k v) kvs (put k v m)) = get (put k v m) ++ map_of (rev kvs)"
    using Cons.prems by (intro Cons.IH inv_put)
  then show ?case
    using Cons.prems by (simp add: kv get_put map_add_assoc [symmetric] map_of_append)
qed

lemma get_fold_put_distinct:
  "inv m \<Longrightarrow> distinct (map fst kvs) \<Longrightarrow>
   get (fold (\<lambda>(k, v). put k v) kvs m) = get m ++ map_of kvs"
  using map_of_inject_set [of "rev kvs" kvs] by (simp add: get_fold_put rev_map [symmetric])

end

type_synonym ('k, 'v) gomap = "('k \<times> 'v) list"

abbreviation gm_get :: "('k, 'v) gomap \<Rightarrow> 'k \<Rightarrow> 'v option" where
  "gm_get \<equiv> map_of"

abbreviation gm_set :: "'k \<Rightarrow> 'v \<Rightarrow> ('k, 'v) gomap \<Rightarrow> ('k, 'v) gomap" where
  "gm_set \<equiv> AList.update"

abbreviation gm_del :: "'k \<Rightarrow> ('k, 'v) gomap \<Rightarrow> ('k, 'v) gomap" where
  "gm_del \<equiv> AList.delete"

definition gm_ok :: "('k, 'v) gomap \<Rightarrow> bool" where
  "gm_ok m \<longleftrightarrow> distinct (map fst m)"

lemma gm_ok_Nil [simp]: "gm_ok []"
  by (simp add: gm_ok_def)

lemma gm_set_fresh: "k \<notin> fst ` set m \<Longrightarrow> gm_set k v m = m @ [(k, v)]"
  by (induction m) auto

lemma gm_ok_Cons [simp]: "gm_ok ((k, v) # m) \<longleftrightarrow> k \<notin> fst ` set m \<and> gm_ok m"
  by (simp add: gm_ok_def)

interpretation gm: go_map "[] :: ('k, 'v) gomap" gm_get gm_set gm_del gm_ok
  by unfold_locales
    (auto simp: gm_ok_def distinct_update AList.distinct_delete update_conv delete_conv fun_eq_iff)

text \<open>Filling a Go map with pairs of distinct keys keeps them all, in order.\<close>

lemma gm_fill_distinct:
  "gm_ok (m @ kvs) \<Longrightarrow> fold (\<lambda>(k, v). gm_set k v) kvs m = m @ kvs"
proof (induction kvs arbitrary: m)
  case Nil
  then show ?case by simp
next
  case (Cons kv kvs)
  obtain k v where kv: "kv = (k, v)" by fastforce
  from Cons.prems have "k \<notin> fst ` set m" by (auto simp: gm_ok_def kv)
  then have "gm_set k v m = m @ [(k, v)]" by (rule gm_set_fresh)
  moreover have "fold (\<lambda>(k, v). gm_set k v) kvs (m @ [(k, v)]) = (m @ [(k, v)]) @ kvs"
    using Cons.prems by (intro Cons.IH) (auto simp: kv gm_ok_def)
  ultimately show ?case by (simp add: kv)
qed

text \<open>
  Two association lists represent the same Go map when they are permutations of one
  another: a \<open>range\<close> may visit either.
\<close>

definition gm_same :: "('k, 'v) gomap \<Rightarrow> ('k, 'v) gomap \<Rightarrow> bool" where
  "gm_same m m' \<longleftrightarrow> gm_ok m \<and> gm_ok m' \<and> set m = set m'"

lemma gm_same_lookup: "gm_same m m' \<Longrightarrow> gm_get m = gm_get m'"
  by (simp add: gm_same_def gm_ok_def map_of_inject_set)

text \<open>
  \<open>sort.Slice\<close> by descending key. The keys of a Go map are distinct, so the result does
  not depend on the order in which the map was visited.
\<close>

definition sort_desc :: "(u64 \<times> 'v) list \<Rightarrow> (u64 \<times> 'v) list" where
  "sort_desc m = rev (sort_key fst m)"

lemma set_sort_desc [simp]: "set (sort_desc m) = set m"
  by (simp add: sort_desc_def)

lemma length_sort_desc [simp]: "length (sort_desc m) = length m"
  by (simp add: sort_desc_def)

lemma distinct_sort_key_fst: "distinct (map fst (sort_key fst m)) \<longleftrightarrow> distinct (map fst m)"
  by (metis mset_map mset_eq_imp_distinct_iff mset_sort)

lemma gm_ok_sort_desc [simp]: "gm_ok (sort_desc m) \<longleftrightarrow> gm_ok m"
  by (simp add: gm_ok_def sort_desc_def rev_map [symmetric] distinct_sort_key_fst)

lemma sort_desc_same:
  assumes "gm_same m m'" shows "sort_desc m = sort_desc m'"
proof -
  have ok: "distinct (map fst m)" "distinct (map fst m')" and eq: "set m = set m'"
    using assms by (auto simp: gm_same_def gm_ok_def)
  have "inj_on fst (set m)" using ok(1) by (simp add: distinct_map)
  then have "sort_key fst m = sort_key fst m'"
    using ok eq
    by (intro map_sorted_distinct_set_unique [where f = fst]) (auto simp: distinct_sort_key_fst)
  then show ?thesis by (simp add: sort_desc_def)
qed

section \<open>Unsigned arithmetic that does not wrap\<close>

lemma unat_plus_ok:
  fixes a b :: "'a::len word"
  assumes "unat a + unat b < 2 ^ LENGTH('a)"
  shows "unat (a + b) = unat a + unat b"
  using assms by (simp add: unat_word_ariths)

lemma unat_minus_ok:
  fixes a b :: "'a::len word"
  assumes "b \<le> a"
  shows "unat (a - b) = unat a - unat b"
  using assms by (rule unat_sub)

lemma unat_of_nat_ok:
  assumes "n < 2 ^ LENGTH('a)"
  shows "unat (of_nat n :: 'a::len word) = n"
  using assms by (simp add: unat_of_nat take_bit_nat_eq_self)

end
