(* ===== verification/Utf8.thy ===== *)
theory Utf8
  imports Prelude
begin

text \<open>
  Go's conversions between strings and code points, as the language defines them:
  \<open>[]rune(s)\<close> and \<open>for _, r := range s\<close> decode UTF-8, taking one byte and giving U+FFFD
  wherever the bytes are not valid UTF-8, and \<open>string(runes)\<close> encodes. The shared types
  count and split text in runes (\<open>text.go\<close>, \<open>delete.go\<close>), while the update decoder counts
  UTF-16 code units (\<open>utf16Len\<close> in \<open>protocol/update.go\<close>); both counts are defined here
  and related.
\<close>

type_synonym rune = nat

definition rune_error :: rune where
  "rune_error = 0xFFFD"

definition valid_rune :: "rune \<Rightarrow> bool" where
  "valid_rune r \<longleftrightarrow> r \<le> 0x10FFFF \<and> \<not> (0xD800 \<le> r \<and> r \<le> 0xDFFF)"

definition byte_in :: "nat \<Rightarrow> nat \<Rightarrow> byte \<Rightarrow> bool" where
  "byte_in lo hi b \<longleftrightarrow> lo \<le> unat b \<and> unat b \<le> hi"

text \<open>\<open>byte(n)\<close>.\<close>

definition byte_of_nat :: "nat \<Rightarrow> byte" where
  "byte_of_nat n = of_nat n"

section \<open>Decoding and encoding one rune\<close>

text \<open>
  The code point at the front of a byte sequence and the number of bytes it takes. The
  second byte's range depends on the first one (no overlong forms, no surrogates, nothing
  above U+10FFFF); an invalid or cut-off sequence is one byte of U+FFFD.
\<close>

fun decode_rune :: "byte list \<Rightarrow> rune \<times> nat" where
  "decode_rune [] = (rune_error, 0)"
| "decode_rune (b0 # bs) =
    (let c = unat b0 in
     if c < 0x80 then (c, 1)
     else if c < 0xC2 \<or> 0xF4 < c then (rune_error, 1)
     else if c < 0xE0 then
       (case bs of
          b1 # _ \<Rightarrow>
            if byte_in 0x80 0xBF b1 then ((c - 0xC0) * 64 + (unat b1 - 0x80), 2)
            else (rune_error, 1)
        | _ \<Rightarrow> (rune_error, 1))
     else if c < 0xF0 then
       (case bs of
          b1 # b2 # _ \<Rightarrow>
            if byte_in (if c = 0xE0 then 0xA0 else 0x80) (if c = 0xED then 0x9F else 0xBF) b1
              \<and> byte_in 0x80 0xBF b2
            then ((c - 0xE0) * 4096 + (unat b1 - 0x80) * 64 + (unat b2 - 0x80), 3)
            else (rune_error, 1)
        | _ \<Rightarrow> (rune_error, 1))
     else
       (case bs of
          b1 # b2 # b3 # _ \<Rightarrow>
            if byte_in (if c = 0xF0 then 0x90 else 0x80) (if c = 0xF4 then 0x8F else 0xBF) b1
              \<and> byte_in 0x80 0xBF b2 \<and> byte_in 0x80 0xBF b3
            then ((c - 0xF0) * 262144 + (unat b1 - 0x80) * 4096 + (unat b2 - 0x80) * 64
                  + (unat b3 - 0x80), 4)
            else (rune_error, 1)
        | _ \<Rightarrow> (rune_error, 1)))"

fun encode_rune :: "rune \<Rightarrow> byte list" where
  "encode_rune r =
    (if r \<le> 0x7F then [byte_of_nat r]
     else if r \<le> 0x7FF then [byte_of_nat (0xC0 + r div 64), byte_of_nat (0x80 + r mod 64)]
     else if \<not> valid_rune r then [0xEF, 0xBF, 0xBD]
     else if r \<le> 0xFFFF then
       [byte_of_nat (0xE0 + r div 4096), byte_of_nat (0x80 + r div 64 mod 64), byte_of_nat (0x80 + r mod 64)]
     else
       [byte_of_nat (0xF0 + r div 262144), byte_of_nat (0x80 + r div 4096 mod 64),
        byte_of_nat (0x80 + r div 64 mod 64), byte_of_nat (0x80 + r mod 64)])"

declare decode_rune.simps [simp del] encode_rune.simps [simp del]

section \<open>Strings as rune sequences\<close>

text \<open>\<open>[]rune(s)\<close>: decode a rune, skip its bytes, go on.\<close>

function runes_of :: "gostring \<Rightarrow> rune list" where
  "runes_of [] = []"
| "runes_of (b # bs) =
    (let (r, w) = decode_rune (b # bs) in r # runes_of (drop (w - 1) bs))"
  by pat_completeness auto
termination
  by (relation "measure length") auto

text \<open>\<open>string(runes)\<close>.\<close>

definition string_of_runes :: "rune list \<Rightarrow> gostring" where
  "string_of_runes rs = concat (map encode_rune rs)"

text \<open>\<open>utf16Len\<close> of \<open>protocol/update.go\<close>: the loop over the runes of the string.\<close>

fun utf16_count :: "nat \<Rightarrow> rune list \<Rightarrow> nat" where
  "utf16_count n [] = n"
| "utf16_count n (r # rs) = utf16_count (if 0x10000 \<le> r then n + 1 + 1 else n + 1) rs"

definition utf16Len :: "gostring \<Rightarrow> nat" where
  "utf16Len s = utf16_count 0 (runes_of s)"

definition rune_count :: "gostring \<Rightarrow> nat" where
  "rune_count s = length (runes_of s)"

section \<open>Round trip\<close>

lemma unat_byte_of_nat [simp]: "n < 256 \<Longrightarrow> unat (byte_of_nat n) = n"
  unfolding byte_of_nat_def by (rule unat_of_nat_ok) simp

lemma byte_in_of_nat [simp]: "n < 256 \<Longrightarrow> byte_in lo hi (byte_of_nat n) \<longleftrightarrow> lo \<le> n \<and> n \<le> hi"
  by (simp add: byte_in_def)

lemma unat_byte_less [simp]: "unat (b :: byte) < 256"
  using unsigned_less [of b, where 'a = nat] by simp

lemma split_2: "r = 64 * (r div 64) + r mod 64" for r :: nat
  by simp

lemma split_3: "r = 4096 * (r div 4096) + 64 * (r div 64 mod 64) + r mod 64" for r :: nat
proof -
  have "r div 64 div 64 = r div 4096" by (simp add: div_mult2_eq [symmetric])
  then show ?thesis
    using mult_div_mod_eq [of 64 r] mult_div_mod_eq [of 64 "r div 64"] by linarith
qed

lemma split_4:
  "r = 262144 * (r div 262144) + 4096 * (r div 4096 mod 64) + 64 * (r div 64 mod 64) + r mod 64"
  for r :: nat
proof -
  have "r div 4096 div 64 = r div 262144" by (simp add: div_mult2_eq [symmetric])
  then show ?thesis
    using split_3 [of r] mult_div_mod_eq [of 64 "r div 4096"] by linarith
qed

lemma decode_1: "a < 0x80 \<Longrightarrow> decode_rune (byte_of_nat a # rest) = (a, 1)"
  by (simp add: decode_rune.simps)

lemma decode_2:
  "2 \<le> a \<Longrightarrow> a < 32 \<Longrightarrow> b < 64 \<Longrightarrow>
   decode_rune (byte_of_nat (0xC0 + a) # byte_of_nat (0x80 + b) # rest) = (a * 64 + b, 2)"
  by (simp add: decode_rune.simps)

lemma decode_3:
  "a < 16 \<Longrightarrow> b < 64 \<Longrightarrow> c < 64 \<Longrightarrow> (a = 0 \<Longrightarrow> 32 \<le> b) \<Longrightarrow> (a = 13 \<Longrightarrow> b < 32) \<Longrightarrow>
   decode_rune (byte_of_nat (0xE0 + a) # byte_of_nat (0x80 + b) # byte_of_nat (0x80 + c) # rest)
     = (a * 4096 + b * 64 + c, 3)"
  by (cases "a = 0"; cases "a = 13") (simp_all add: decode_rune.simps)

lemma decode_4:
  "a < 5 \<Longrightarrow> b < 64 \<Longrightarrow> c < 64 \<Longrightarrow> d < 64 \<Longrightarrow> (a = 0 \<Longrightarrow> 16 \<le> b) \<Longrightarrow> (a = 4 \<Longrightarrow> b < 16) \<Longrightarrow>
   decode_rune (byte_of_nat (0xF0 + a) # byte_of_nat (0x80 + b) # byte_of_nat (0x80 + c)
     # byte_of_nat (0x80 + d) # rest) = (a * 262144 + b * 4096 + c * 64 + d, 4)"
  by (cases "a = 0"; cases "a = 4") (simp_all add: decode_rune.simps)

text \<open>Decoding what was encoded gives the rune back and consumes exactly its bytes.\<close>

lemma decode_encode_rune:
  assumes v: "valid_rune r"
  shows "decode_rune (encode_rune r @ rest) = (r, length (encode_rune r))"
proof -
  have lt: "r mod 64 < 64" "r div 64 mod 64 < 64" "r div 4096 mod 64 < 64" by simp_all
  consider "r \<le> 0x7F" | "0x7F < r" "r \<le> 0x7FF" | "0x7FF < r" "r \<le> 0xFFFF" | "0xFFFF < r"
    by linarith
  then show ?thesis
  proof cases
    case 1
    then show ?thesis by (simp add: encode_rune.simps decode_1)
  next
    case 2
    then have "2 \<le> r div 64" "r div 64 < 32" by auto
    from decode_2 [OF this lt(1), of rest] 2 show ?thesis
      by (simp add: encode_rune.simps)
  next
    case 3
    note s = split_3 [of r]
    have "r div 4096 < 16" using 3 by auto
    moreover have "r div 4096 = 0 \<Longrightarrow> 32 \<le> r div 64 mod 64" using 3 s lt by linarith
    moreover have "r div 4096 = 13 \<Longrightarrow> r div 64 mod 64 < 32"
      using 3 v s lt unfolding valid_rune_def by linarith
    ultimately show ?thesis
      using decode_3 [OF _ lt(2,1), of "r div 4096" rest] s 3 v
      by (simp add: encode_rune.simps mult.commute)
  next
    case 4
    note s = split_4 [of r]
    have "r div 262144 < 5" using v by (auto simp: valid_rune_def)
    moreover have "r div 262144 = 0 \<Longrightarrow> 16 \<le> r div 4096 mod 64" using 4 s lt by linarith
    moreover have "r div 262144 = 4 \<Longrightarrow> r div 4096 mod 64 < 16"
      using 4 v s lt unfolding valid_rune_def by linarith
    ultimately show ?thesis
      using decode_4 [OF _ lt(3,2,1), of "r div 262144" rest] s 4 v
      by (simp add: encode_rune.simps mult.commute)
  qed
qed

text \<open>
  What a decoded rune can be: a Unicode scalar value, of at least one byte, of four bytes
  when it is beyond the Basic Multilingual Plane.
\<close>

lemma valid_rune_error [simp]: "valid_rune rune_error"
  by (simp add: valid_rune_def rune_error_def)

lemma small_valid [simp]: "r < 0xD800 \<Longrightarrow> valid_rune r"
  by (simp add: valid_rune_def)

lemma decode_rune_props:
  assumes "decode_rune (b0 # bs) = (r, w)"
  shows "valid_rune r \<and> 1 \<le> w \<and> w \<le> length (b0 # bs) \<and> (0x10000 \<le> r \<longrightarrow> w = 4)"
proof -
  let ?c = "unat b0"
  have lt: "?c < 256" by simp
  consider "?c < 0xC2 \<or> 0xF4 < ?c" | "0xC2 \<le> ?c" "?c < 0xE0" | "0xE0 \<le> ?c" "?c < 0xF0"
    | "0xF0 \<le> ?c" "?c \<le> 0xF4" by linarith
  then show ?thesis
  proof cases
    case 1
    then show ?thesis
      using assms by (auto simp: decode_rune.simps Let_def rune_error_def valid_rune_def split: if_splits)
  next
    case 2
    then show ?thesis using assms
      by (auto simp: decode_rune.simps Let_def byte_in_def rune_error_def valid_rune_def split: if_splits list.splits)
  next
    case 3
    then show ?thesis using assms
      by (auto simp: decode_rune.simps Let_def byte_in_def rune_error_def valid_rune_def
          split: if_splits list.splits)
  next
    case 4
    then show ?thesis using assms
      by (auto simp: decode_rune.simps Let_def byte_in_def rune_error_def valid_rune_def
          split: if_splits list.splits)
  qed
qed

lemma encode_rune_nonempty: "encode_rune r \<noteq> []"
  by (simp add: encode_rune.simps)

text \<open>One unfolding of \<open>runes_of\<close> at the front of a longer string.\<close>

lemma runes_of_encode: "valid_rune r \<Longrightarrow> runes_of (encode_rune r @ s) = r # runes_of s"
proof -
  assume v: "valid_rune r"
  obtain b bs where e: "encode_rune r = b # bs"
    using encode_rune_nonempty [of r] by (cases "encode_rune r") auto
  have "decode_rune (b # bs @ s) = (r, Suc (length bs))"
    using decode_encode_rune [OF v, of s] by (simp add: e)
  then show ?thesis by (simp add: e)
qed

lemma runes_of_string_of_runes_append:
  "list_all valid_rune rs \<Longrightarrow> runes_of (string_of_runes rs @ s) = rs @ runes_of s"
  by (induction rs) (simp_all add: string_of_runes_def runes_of_encode)

lemma runes_of_string_of_runes:
  "list_all valid_rune rs \<Longrightarrow> runes_of (string_of_runes rs) = rs"
  using runes_of_string_of_runes_append [of rs "[]"] by simp

lemma runes_of_valid: "list_all valid_rune (runes_of s)"
proof (induction s rule: runes_of.induct)
  case (2 b bs)
  obtain r w where d: "decode_rune (b # bs) = (r, w)" by fastforce
  then show ?case using "2" [OF d [symmetric] refl] decode_rune_props [OF d] by simp
qed simp

text \<open>Cutting a string at a rune offset cuts its rune sequence there.\<close>

lemma runes_of_prefix [simp]:
  "runes_of (string_of_runes (take n (runes_of s))) = take n (runes_of s)"
  using runes_of_valid [of s] by (intro runes_of_string_of_runes) (auto simp: list_all_iff dest: in_set_takeD)

lemma runes_of_suffix [simp]:
  "runes_of (string_of_runes (drop n (runes_of s))) = drop n (runes_of s)"
  using runes_of_valid [of s] by (intro runes_of_string_of_runes) (auto simp: list_all_iff dest: in_set_dropD)

section \<open>The two ways of counting\<close>

lemma utf16_count_acc: "utf16_count n rs = n + utf16_count 0 rs"
proof (induction rs arbitrary: n)
  case (Cons r rs)
  show ?case
    using Cons.IH [of "if 0x10000 \<le> r then n + 1 + 1 else n + 1"]
      Cons.IH [of "if 0x10000 \<le> r then 0 + 1 + 1 else 0 + 1"]
    by (simp split: if_splits)
qed simp

lemma utf16_count_Cons:
  "utf16_count 0 (r # rs) = (if 0x10000 \<le> r then 2 else 1) + utf16_count 0 rs"
  by (simp add: utf16_count_acc [of 2] utf16_count_acc [of "Suc 0"] del: One_nat_def)
     (simp add: utf16_count_acc [of "Suc 0"])

lemma utf16_count_excess:
  "utf16_count 0 rs = length rs + length (filter (\<lambda>r. 0x10000 \<le> r) rs)"
  by (induction rs) (auto simp: utf16_count_Cons simp del: utf16_count.simps(2))

lemma utf16Len_eq:
  "utf16Len s = rune_count s + length (filter (\<lambda>r. 0x10000 \<le> r) (runes_of s))"
  by (simp add: utf16Len_def rune_count_def utf16_count_excess)

text \<open>The two counts agree on strings without supplementary characters, and only on those.\<close>

definition bmp_only :: "gostring \<Rightarrow> bool" where
  "bmp_only s \<longleftrightarrow> list_all (\<lambda>r. r < 0x10000) (runes_of s)"

lemma bmp_only_iff: "bmp_only s \<longleftrightarrow> utf16Len s = rune_count s"
proof -
  have "filter (\<lambda>r. 0x10000 \<le> r) rs = [] \<longleftrightarrow> list_all (\<lambda>r. r < 0x10000) rs" for rs :: "rune list"
    by (induction rs) (auto simp: not_le)
  then show ?thesis by (simp add: utf16Len_eq bmp_only_def)
qed

lemma utf16Len_Cons:
  "decode_rune (b # bs) = (r, w) \<Longrightarrow>
   utf16Len (b # bs) = (if 0x10000 \<le> r then 2 else 1) + utf16Len (drop (w - 1) bs)"
  by (simp add: utf16Len_def utf16_count_Cons del: utf16_count.simps(2))

lemma utf16Len_le_bytes: "utf16Len s \<le> length s"
proof (induction s rule: runes_of.induct)
  case 1
  then show ?case by (simp add: utf16Len_def)
next
  case (2 b bs)
  obtain r w where d: "decode_rune (b # bs) = (r, w)" by fastforce
  have "utf16Len (drop (w - 1) bs) \<le> length (drop (w - 1) bs)"
    using "2" [OF d [symmetric] refl] .
  then show ?case using decode_rune_props [OF d] by (auto simp: utf16Len_Cons [OF d])
qed

lemma runes_of_ascii: "unat b < 0x80 \<Longrightarrow> runes_of (b # bs) = unat b # runes_of bs"
  by (simp add: decode_rune.simps)

declare runes_of.simps(2) [simp del]

end
