(* ===== verification/Varint.thy ===== *)
theory Varint
  imports Utf8
begin

text \<open>
  \<open>protocol/varint.go\<close>: LEB128 varints, length-prefixed byte slices and strings.

  An \<open>io.Reader\<close> over a byte slice (\<open>bytes.Reader\<close>, and \<open>byteReader\<close> of
  \<open>transport/ws.go\<close>) is the list of the bytes not read yet; a read function returns its value
  and the bytes left. The only writer is \<open>bytes.Buffer\<close>, whose writes do not fail, so a
  write function is the list of bytes it appends.

  \<open>make\<close> of a slice panics when the size in bytes is above the runtime's address space
  limit (2 to the 48 on 64-bit targets); smaller sizes are taken to be allocated.
\<close>

section \<open>The interfaces of readers and codecs\<close>

text \<open>
  A reader consumes a non-empty prefix of the input or fails, and it always comes back. A
  codec is a reader together with a writer whose output it reads back, up to the
  normalisation that the wire format makes, on the values that fit the format.
\<close>

locale reader =
  fixes dec :: "byte list \<Rightarrow> ('a \<times> byte list) outcome"
  assumes dec_consumes: "dec bs = Ret (v, rest) \<Longrightarrow> \<exists>c. c \<noteq> [] \<and> bs = c @ rest"
    and dec_stops: "dec bs \<noteq> Diverge"
begin

lemma dec_shorter: "dec bs = Ret (v, rest) \<Longrightarrow> length rest < length bs"
  by (drule dec_consumes) auto

end

locale codec = reader dec for dec :: "byte list \<Rightarrow> ('a \<times> byte list) outcome" +
  fixes enc :: "'a \<Rightarrow> byte list" and norm :: "'a \<Rightarrow> 'a" and ok :: "'a \<Rightarrow> bool"
  assumes dec_enc: "ok v \<Longrightarrow> dec (enc v @ rest) = Ret (norm v, rest)"
begin

lemma dec_enc_all: "ok v \<Longrightarrow> dec (enc v) = Ret (norm v, [])"
  using dec_enc [of v "[]"] by simp

lemma enc_nonempty: "ok v \<Longrightarrow> enc v \<noteq> []"
  using dec_enc [of v "[]"] by (auto dest: dec_shorter)

text \<open>No encoding is a prefix of another one, and equal encodings have equal values.\<close>

lemma enc_prefix_free:
  assumes "ok v" "ok w" "enc v @ r = enc w @ r'"
  shows "norm v = norm w \<and> r = r'"
  using dec_enc [OF assms(1), of r] dec_enc [OF assms(2), of r'] assms(3) by simp

end

text \<open>
  The counted loops of the decoder: \<open>for i := 0; i < n; i++\<close> around a reader that knows its
  index (for its error message), collecting what it reads.
\<close>

fun read_seq ::
  "(nat \<Rightarrow> byte list \<Rightarrow> ('a \<times> byte list) outcome) \<Rightarrow> nat \<Rightarrow> nat \<Rightarrow> byte list
    \<Rightarrow> ('a list \<times> byte list) outcome" where
  "read_seq rd i 0 bs = Ret ([], bs)"
| "read_seq rd i (Suc n) bs =
    obind (rd i bs) (\<lambda>(v, bs1).
    obind (read_seq rd (Suc i) n bs1) (\<lambda>(vs, bs2).
    Ret (v # vs, bs2)))"

lemma read_seq_enc:
  assumes "\<And>i v rest. v \<in> set vs \<Longrightarrow> rd i (enc v @ rest) = Ret (norm v, rest)"
  shows "read_seq rd i (length vs) (concat (map enc vs) @ rest) = Ret (map norm vs, rest)"
  using assms by (induction vs arbitrary: i) auto

lemma read_seq_stops: "(\<And>i bs. rd i bs \<noteq> Diverge) \<Longrightarrow> read_seq rd i n bs \<noteq> Diverge"
  by (induction n arbitrary: i bs) (auto simp: outcome_simps)

lemma read_seq_length: "read_seq rd i n bs = Ret (vs, rest) \<Longrightarrow> length vs = n"
  by (induction n arbitrary: i bs vs) (auto simp: outcome_simps)

lemma read_seq_suffix:
  assumes "\<And>i bs v rest. rd i bs = Ret (v, rest) \<Longrightarrow> \<exists>c. bs = c @ rest"
    and "read_seq rd i n bs = Ret (vs, rest)"
  shows "\<exists>c. bs = c @ rest"
  using assms(2)
proof (induction n arbitrary: i bs vs)
  case (Suc n)
  then obtain v bs1 vs' where 1: "rd i bs = Ret (v, bs1)"
    and 2: "read_seq rd (Suc i) n bs1 = Ret (vs', rest)"
    by (auto simp: outcome_simps split: prod.splits)
  obtain c where "bs = c @ bs1" using assms(1) [OF 1] by blast
  moreover obtain c' where "bs1 = c' @ rest" using Suc.IH [OF 2] by blast
  ultimately have "bs = (c @ c') @ rest" by simp
  then show ?case by blast
qed simp

section \<open>Varints\<close>

text \<open>\<open>WriteVarUint\<close>: seven bits per byte, low bits first, the top bit while more follow.\<close>

function WriteVarUint :: "u64 \<Rightarrow> byte list" where
  "WriteVarUint v =
    (let b = (ucast (v AND 0x7f) :: byte); v' = drop_bit 7 v in
     if v' \<noteq> 0 then (b OR 0x80) # WriteVarUint v' else [b])"
  by pat_completeness auto
termination
proof (relation "measure unat", simp, goal_cases)
  case (1 v b v')
  have eq: "unat v' = unat v div 128" 
    by (simp only: 1 unat_drop_bit_eq) (simp add: drop_bit_eq_div)
  moreover have "unat v' \<noteq> 0" using 1(3) by (simp add: unat_eq_zero)
  ultimately show ?case by simp
qed

declare WriteVarUint.simps [simp del]

text \<open>
  \<open>ReadVarUint\<close>: the loop carries the result and the shift. A set continuation bit at
  shift 63 is the overflow error.
\<close>

fun read_varuint_loop :: "u64 \<Rightarrow> nat \<Rightarrow> byte list \<Rightarrow> (u64 \<times> byte list) outcome" where
  "read_varuint_loop result shift [] = Err (ErrMsg ''yjs/protocol: truncated varint'' [])"
| "read_varuint_loop result shift (b # bs) =
    (let result' = result OR push_bit shift (ucast (b AND 0x7f)) in
     if b AND 0x80 = 0 then Ret (result', bs)
     else if 64 \<le> shift + 7 then Err (ErrMsg ''yjs/protocol: varint overflow'' [])
     else read_varuint_loop result' (shift + 7) bs)"

definition ReadVarUint :: "byte list \<Rightarrow> (u64 \<times> byte list) outcome" where
  "ReadVarUint bs = read_varuint_loop 0 0 bs"

subsection \<open>Round trip\<close>

lemma and_7f: "v AND 0x7f = take_bit 7 v" for v :: "'a::len word"
proof -
  have "(0x7f :: 'a word) = mask 7" by (simp add: mask_eq_exp_minus_1)
  then show ?thesis by (simp add: take_bit_eq_mask)
qed

lemma cont_bit: "(b OR 0x80) AND 0x80 \<noteq> 0" for b :: byte
proof -
  have "bit ((b OR 0x80) AND 0x80) 7" by (simp add: bit_simps)
  then show ?thesis by (metis bit_0_eq bot_apply bot_bool_def)
qed

lemma bit_0x80: "bit (0x80 :: byte) n \<longleftrightarrow> n = 7"
proof -
  have eq: "(0x80 :: byte) = 2 ^ 7" by simp
  show ?thesis unfolding eq bit_exp_iff by (auto simp: possible_bit_word)
qed

lemma last_bit: "(ucast (v AND 0x7f :: u64) :: byte) AND 0x80 = 0"
proof (rule bit_eqI)
  fix n
  show "bit ((ucast (v AND 0x7f) :: byte) AND 0x80) n = bit (0 :: byte) n"
    unfolding bit_and_iff bit_0x80 and_7f by (auto simp: bit_simps)
qed

lemma payload_last: "ucast (ucast (v AND 0x7f) AND 0x7f :: byte) = take_bit 7 (v :: u64)"
  by (rule bit_eqI) (auto simp: and_7f bit_simps)

lemma payload_more: "ucast ((ucast (v AND 0x7f) OR 0x80 :: byte) AND 0x7f) = take_bit 7 (v :: u64)"
  by (rule bit_eqI) (auto simp: and_7f bit_simps bit_0x80)

lemma push_take_drop:
  "push_bit s (take_bit 7 v) OR push_bit (s + 7) (drop_bit 7 v) = push_bit s (v :: u64)"
proof (rule bit_eqI)
  fix n
  show "bit (push_bit s (take_bit 7 v) OR push_bit (s + 7) (drop_bit 7 v)) n = bit (push_bit s v) n"
  proof (cases "n < s + 7")
    case False
    then have "7 + (n - (s + 7)) = n - s" by simp
    with False show ?thesis by (auto simp: bit_simps)
  qed (auto simp: bit_simps)
qed

lemma drop_0_take: "drop_bit 7 v = 0 \<Longrightarrow> take_bit 7 v = (v :: u64)"
  using bits_ident [of 7 v] by simp

text \<open>Reading back a varint at any shift at which it still fits.\<close>

lemma read_varuint_loop_write:
  "s < 64 \<Longrightarrow> unat v < 2 ^ (64 - s) \<Longrightarrow>
   read_varuint_loop res s (WriteVarUint v @ rest) = Ret (res OR push_bit s v, rest)"
proof (induction v arbitrary: res s rule: WriteVarUint.induct)
  case (1 v)
  let ?v' = "drop_bit 7 v"
  show ?case
  proof (cases "?v' = 0")
    case True
    then show ?thesis
      by (simp add: WriteVarUint.simps [of v] last_bit payload_last drop_0_take)
  next
    case False
    have eq: "unat ?v' = unat v div 128" by (simp only: unat_drop_bit_eq) (simp add: drop_bit_eq_div)
    have "128 \<le> unat v"
      using False eq by (metis div_less linorder_not_le unat_eq_zero)
    then have "(2::nat) ^ 7 < 2 ^ (64 - s)" using "1.prems" by simp
    then have s7: "s + 7 < 64" by (subst (asm) power_strict_increasing_iff) auto
    then have "64 - s = (64 - (s + 7)) + 7" by simp
    then have "(2::nat) ^ (64 - s) = 2 ^ (64 - (s + 7)) * 2 ^ 7" by (metis power_add)
    then have "unat ?v' < 2 ^ (64 - (s + 7))"
      using "1.prems" eq by (simp add: less_mult_imp_div_less)
    from "1.IH" [OF refl refl False s7 this, of "res OR push_bit s (take_bit 7 v)"] False s7
    show ?thesis
      by (simp add: WriteVarUint.simps [of v] Let_def cont_bit payload_more or.assoc push_take_drop)
  qed
qed

lemma ReadVarUint_write [codec_simps]: "ReadVarUint (WriteVarUint v @ rest) = Ret (v, rest)"
  using read_varuint_loop_write [of 0 v 0 rest] unsigned_less [of v, where 'a = nat]
  by (simp add: ReadVarUint_def)

subsection \<open>What the reader accepts\<close>

text \<open>The reader takes between one byte and as many as its shift has room for, never more.\<close>

lemma read_varuint_loop_bound:
  "read_varuint_loop res s bs = Ret (v, rest) \<Longrightarrow> s \<le> 63 \<Longrightarrow>
   \<exists>c. c \<noteq> [] \<and> bs = c @ rest \<and> 7 * length c \<le> 70 - s"
proof (induction res s bs rule: read_varuint_loop.induct)
  case (2 res s b bs)
  show ?case
  proof (cases "b AND 0x80 = 0")
    case True
    with "2.prems" show ?thesis by (intro exI [of _ "[b]"]) auto
  next
    case False
    with "2.prems" have s: "s + 7 < 64"
      and r: "read_varuint_loop (res OR push_bit s (ucast (b AND 0x7f))) (s + 7) bs = Ret (v, rest)"
      by (auto simp: Let_def split: if_splits)
    obtain c where "c \<noteq> []" "bs = c @ rest" "7 * length c \<le> 70 - (s + 7)"
      using "2.IH" [OF refl False _ r] s by auto
    then show ?thesis using s by (intro exI [of _ "b # c"]) auto
  qed
qed simp

lemma ReadVarUint_bound:
  "ReadVarUint bs = Ret (v, rest) \<Longrightarrow> \<exists>c. c \<noteq> [] \<and> bs = c @ rest \<and> length c \<le> 10"
  unfolding ReadVarUint_def by (drule read_varuint_loop_bound) auto

lemma read_varuint_loop_stops:
  "read_varuint_loop res s bs \<noteq> Diverge" "read_varuint_loop res s bs \<noteq> Panic p"
  by (induction res s bs rule: read_varuint_loop.induct) (auto simp: Let_def)

lemma ReadVarUint_stops [simp]: "ReadVarUint bs \<noteq> Diverge" "ReadVarUint bs \<noteq> Panic p"
  by (simp_all add: ReadVarUint_def read_varuint_loop_stops)

text \<open>The writer fills at most the \<open>MaxVarintLen64 = 10\<close> bytes of its buffer.\<close>

lemma length_WriteVarUint_le: "0 < n \<Longrightarrow> unat v < 128 ^ n \<Longrightarrow> length (WriteVarUint v) \<le> n"
proof (induction v arbitrary: n rule: WriteVarUint.induct)
  case (1 v)
  let ?v' = "drop_bit 7 v"
  show ?case
  proof (cases "?v' = 0")
    case True
    with 1 show ?thesis by (simp add: WriteVarUint.simps [of v])
  next
    case False
    have eq: "unat ?v' = unat v div 128" by (simp only: unat_drop_bit_eq) (simp add: drop_bit_eq_div)
    have "128 \<le> unat v" using False eq by (metis div_less linorder_not_le unat_eq_zero)
    with "1.prems" obtain m where n: "n = Suc m" "0 < m" by (cases n; cases "n - 1") auto
    then have "unat ?v' < 128 ^ m" using "1.prems" eq by (simp add: less_mult_imp_div_less mult.commute)
    with "1.IH" [OF refl refl False \<open>0 < m\<close>] show ?thesis
      using False n by (simp add: WriteVarUint.simps [of v] Let_def)
  qed
qed

lemma length_WriteVarUint: "length (WriteVarUint v) \<le> 10"
  using unsigned_less [of v, where 'a = nat] by (intro length_WriteVarUint_le) auto

interpretation varuint: codec ReadVarUint WriteVarUint id "\<lambda>_. True"
  by unfold_locales (auto dest: ReadVarUint_bound simp: ReadVarUint_write)

section \<open>Byte slices and strings\<close>

text \<open>\<open>io.ReadFull\<close> into a buffer of \<open>n\<close> bytes.\<close>

definition read_full :: "nat \<Rightarrow> byte list \<Rightarrow> (byte list \<times> byte list) outcome" where
  "read_full n bs =
    (if n \<le> length bs then Ret (take n bs, drop n bs)
     else if bs = [] then Err EOF else Err UnexpectedEOF)"

text \<open>\<open>make\<close> of a slice with \<open>n\<close> elements of the given size in bytes.\<close>

definition max_alloc :: nat where
  "max_alloc = 2 ^ 48"

definition make_slice :: "nat \<Rightarrow> nat \<Rightarrow> unit outcome" where
  "make_slice elem n = (if elem * n \<le> max_alloc then Ret () else Panic MakeSliceLen)"

definition WriteVarBytes :: "byte list \<Rightarrow> byte list" where
  "WriteVarBytes b =
    WriteVarUint (of_nat (length b)) @ (if length b = 0 then [] else b)"

definition ReadVarBytes :: "byte list \<Rightarrow> (byte list \<times> byte list) outcome" where
  "ReadVarBytes bs =
    obind (ReadVarUint bs) (\<lambda>(n, bs1).
    if n = 0 then Ret ([], bs1)
    else obind (make_slice 1 (unat n)) (\<lambda>_.
      owrap ''yjs/protocol: truncated bytes'' [unat n] (read_full (unat n) bs1)))"

definition WriteVarString :: "gostring \<Rightarrow> byte list" where
  "WriteVarString s = WriteVarBytes s"

definition ReadVarString :: "byte list \<Rightarrow> (gostring \<times> byte list) outcome" where
  "ReadVarString bs = obind (ReadVarBytes bs) (\<lambda>(b, bs1). Ret (b, bs1))"

definition bytes_fit :: "byte list \<Rightarrow> bool" where
  "bytes_fit b \<longleftrightarrow> length b \<le> max_alloc"

lemma read_full_append [simp]: "read_full (length b) (b @ rest) = Ret (b, rest)"
  by (simp add: read_full_def)

lemma read_full_Ret: "read_full n bs = Ret (b, rest) \<longleftrightarrow> bs = b @ rest \<and> length b = n"
  by (auto simp: read_full_def split: if_splits)

lemma read_full_stops [simp]: "read_full n bs \<noteq> Diverge" "read_full n bs \<noteq> Panic p"
  by (simp_all add: read_full_def)

lemma make_slice_Ret [simp]: "make_slice e n = Ret u \<longleftrightarrow> e * n \<le> max_alloc"
  by (simp add: make_slice_def)

lemma make_slice_stops [simp]: "make_slice e n \<noteq> Diverge"
  by (simp add: make_slice_def)

lemma unat_of_length [simp]: "n \<le> max_alloc \<Longrightarrow> unat (of_nat n :: u64) = n"
  by (rule unat_of_nat_ok) (simp add: max_alloc_def)

lemma ReadVarBytes_write [codec_simps]:
  assumes "bytes_fit b" shows "ReadVarBytes (WriteVarBytes b @ rest) = Ret (b, rest)"
proof (cases "b = []")
  case True
  then show ?thesis by (simp add: ReadVarBytes_def WriteVarBytes_def ReadVarUint_write)
next
  case False
  have u: "unat (of_nat (length b) :: u64) = length b" using assms by (simp add: bytes_fit_def)
  then have "(of_nat (length b) :: u64) \<noteq> 0"
    using False by (metis length_0_conv unsigned_0)
  with False assms u show ?thesis
    by (simp add: ReadVarBytes_def WriteVarBytes_def ReadVarUint_write make_slice_def bytes_fit_def)
qed

lemma ReadVarBytes_consumes:
  assumes "ReadVarBytes bs = Ret (b, rest)"
  shows "\<exists>c. c \<noteq> [] \<and> bs = c @ b @ rest"
proof -
  from assms obtain n bs1 where 1: "ReadVarUint bs = Ret (n, bs1)" and "bs1 = b @ rest"
    by (auto simp: ReadVarBytes_def outcome_simps read_full_Ret split: prod.splits if_splits)
  then show ?thesis using varuint.dec_consumes [OF 1] by auto
qed

lemma ReadVarBytes_stops [simp]: "ReadVarBytes bs \<noteq> Diverge"
  by (auto simp: ReadVarBytes_def outcome_simps split: prod.splits)

lemma ReadVarString_eq: "ReadVarString bs = ReadVarBytes bs"
  by (cases "ReadVarBytes bs") (auto simp: ReadVarString_def)

interpretation varbytes: codec ReadVarBytes WriteVarBytes id bytes_fit
proof unfold_locales
  fix bs b rest
  show "ReadVarBytes bs = Ret (b, rest) \<Longrightarrow> \<exists>c. c \<noteq> [] \<and> bs = c @ rest"
    by (drule ReadVarBytes_consumes) (metis append_assoc append_is_Nil_conv)
qed (simp_all add: ReadVarBytes_write)

interpretation varstring: codec ReadVarString WriteVarString id bytes_fit
  unfolding ReadVarString_eq [abs_def] WriteVarString_def [abs_def]
  by (rule varbytes.codec_axioms)

lemma ReadVarString_write [codec_simps]:
  "bytes_fit s \<Longrightarrow> ReadVarString (WriteVarString s @ rest) = Ret (s, rest)"
  using varstring.dec_enc by simp

end
