(* ===== verification/AnyVal.thy ===== *)
theory AnyVal
  imports Varint
begin

text \<open>
  The lib0 "any" values of \<open>protocol/update.go\<close>: \<open>WriteAny\<close> and \<open>ReadAny\<close>.

  \<open>goany\<close> is the part of Go's \<open>interface{}\<close> the code tells apart in its type switches. A
  \<open>map[string]interface{}\<close> is a Go map (in the order \<open>range\<close> visits it), an \<open>int64\<close>, an
  \<open>int\<close> and a float are their 64 (32) bits, and \<open>GOther\<close> stands for every other dynamic type.
\<close>

datatype goany =
    GNil
  | GBool bool
  | GString gostring
  | GInt u64
  | GInt64 u64
  | GUint64 u64
  | GFloat32 u32
  | GFloat64 u64
  | GObj "(gostring \<times> goany) list"
  | GArr "goany list"
  | GBytes "byte list"
  | GOther nat

section \<open>Big-endian words\<close>

definition PutUint32 :: "u32 \<Rightarrow> byte list" where
  "PutUint32 v = [ucast (drop_bit 24 v), ucast (drop_bit 16 v), ucast (drop_bit 8 v), ucast v]"

definition PutUint64 :: "u64 \<Rightarrow> byte list" where
  "PutUint64 v = map (\<lambda>s. ucast (drop_bit s v)) [56, 48, 40, 32, 24, 16, 8, 0]"

text \<open>The readers of \<open>encoding/binary\<close> panic on a slice that is too short.\<close>

definition BEUint32 :: "byte list \<Rightarrow> u32 outcome" where
  "BEUint32 b = obind (index_at b 3) (\<lambda>_. Ret (foldl (\<lambda>acc x. push_bit 8 acc OR ucast x) 0 (take 4 b)))"

definition BEUint64 :: "byte list \<Rightarrow> u64 outcome" where
  "BEUint64 b = obind (index_at b 7) (\<lambda>_. Ret (foldl (\<lambda>acc x. push_bit 8 acc OR ucast x) 0 (take 8 b)))"

lemma BEUint_stops [simp]: "BEUint32 b \<noteq> Diverge" "BEUint64 b \<noteq> Diverge"
  "BEUint32 b = Panic p \<longleftrightarrow> p = IndexRange \<and> length b \<le> 3" "BEUint64 b = Panic p \<longleftrightarrow> p = IndexRange \<and> length b \<le> 7"
  by (auto simp: BEUint32_def BEUint64_def outcome_simps)

section \<open>Writing\<close>

fun WriteAny :: "goany \<Rightarrow> byte list" where
  "WriteAny GNil = [127]"
| "WriteAny (GBool val) = (if val then [120] else [121])"
| "WriteAny (GString val) = [119] @ WriteVarString val"
| "WriteAny (GInt val) = [125] @ WriteVarUint val"
| "WriteAny (GInt64 val) = [125] @ WriteVarUint val"
| "WriteAny (GUint64 val) = [122] @ WriteVarUint val"
| "WriteAny (GFloat32 val) = [124] @ PutUint32 val"
| "WriteAny (GFloat64 val) = [123] @ PutUint64 val"
| "WriteAny (GObj val) =
    [118] @ WriteVarUint (of_nat (length val)) @
    concat (map (\<lambda>(k, v2). WriteVarString k @ WriteAny v2) val)"
| "WriteAny (GArr val) =
    [117] @ WriteVarUint (of_nat (length val)) @ concat (map WriteAny val)"
| "WriteAny (GBytes val) = [116] @ WriteVarBytes val"
| "WriteAny (GOther _) = [127]"

section \<open>Reading\<close>

text \<open>
  \<open>ReadAny\<close> and its two loops: over the entries of an object, which are stored in a map as
  they are read, and over the elements of an array.
\<close>

function ReadAny :: "byte list \<Rightarrow> (goany \<times> byte list) outcome"
  and read_any_obj :: "nat \<Rightarrow> (gostring, goany) gomap \<Rightarrow> byte list \<Rightarrow> (goany \<times> byte list) outcome"
  and read_any_arr :: "nat \<Rightarrow> byte list \<Rightarrow> (goany list \<times> byte list) outcome" where
  "ReadAny [] = owrap ''any tag'' [] (Err EOF)"
| "ReadAny (tag # bs) =
    (if tag = 127 then Ret (GNil, bs)
     else if tag = 126 then Ret (GNil, bs)
     else if tag = 125 then obind (ReadVarUint bs) (\<lambda>(n, bs1). Ret (GInt64 n, bs1))
     else if tag = 124 then obind (read_full 4 bs) (\<lambda>(b, bs1). obind (BEUint32 b) (\<lambda>n. Ret (GFloat32 n, bs1)))
     else if tag = 123 then obind (read_full 8 bs) (\<lambda>(b, bs1). obind (BEUint64 b) (\<lambda>n. Ret (GFloat64 n, bs1)))
     else if tag = 122 then obind (ReadVarUint bs) (\<lambda>(n, bs1). Ret (GUint64 n, bs1))
     else if tag = 121 then Ret (GBool False, bs)
     else if tag = 120 then Ret (GBool True, bs)
     else if tag = 119 then obind (ReadVarString bs) (\<lambda>(s, bs1). Ret (GString s, bs1))
     else if tag = 118 then
       obind (ReadVarUint bs) (\<lambda>(n, bs1). read_any_obj (unat n) [] bs1)
     else if tag = 117 then
       obind (ReadVarUint bs) (\<lambda>(n, bs1).
       obind (make_slice 16 (unat n)) (\<lambda>_.
       obind (read_any_arr (unat n) bs1) (\<lambda>(arr, bs2). Ret (GArr arr, bs2))))
     else if tag = 116 then obind (ReadVarBytes bs) (\<lambda>(b, bs1). Ret (GBytes b, bs1))
     else Err (ErrMsg ''unknown any tag'' [unat tag]))"
| "read_any_obj 0 obj bs = Ret (GObj obj, bs)"
| "read_any_obj (Suc n) obj bs =
    obind (ReadVarString bs) (\<lambda>(k, bs1).
    obind (ReadAny bs1) (\<lambda>(v, bs2).
    read_any_obj n (gm_set k v obj) bs2))"
| "read_any_arr 0 bs = Ret ([], bs)"
| "read_any_arr (Suc n) bs =
    obind (ReadAny bs) (\<lambda>(v, bs1).
    obind (read_any_arr n bs1) (\<lambda>(vs, bs2).
    Ret (v # vs, bs2)))"
  by pat_completeness auto

text \<open>
  Every call consumes input before it calls itself. This partial fact gives the termination
  of the three functions, since the nested calls run on what an inner call left.
\<close>

lemma ReadAny_partial:
  "ReadAny_read_any_obj_read_any_arr_dom (Inl bs0) \<Longrightarrow>
    (\<And>v rest. ReadAny bs0 = Ret (v, rest) \<Longrightarrow> length rest < length bs0)"
  "ReadAny_read_any_obj_read_any_arr_dom (Inr (Inl (n, obj, bs1))) \<Longrightarrow>
    (\<And>v rest. read_any_obj n obj bs1 = Ret (v, rest) \<Longrightarrow> length rest \<le> length bs1)"
  "ReadAny_read_any_obj_read_any_arr_dom (Inr (Inr (n, bs2))) \<Longrightarrow>
    (\<And>vs rest. read_any_arr n bs2 = Ret (vs, rest) \<Longrightarrow> length rest \<le> length bs2)"
proof (induction bs0 and n obj bs1 and n bs2 rule: ReadAny_read_any_obj_read_any_arr.pinduct)
  case (2 tag bs)
  note reads = varuint.dec_shorter varstring.dec_shorter varbytes.dec_shorter
  note IH = 2 and R = 2(4) [unfolded ReadAny.psimps(2) [OF 2(1)]]
  consider "tag = 118" | "tag = 117" | "tag \<noteq> 118" "tag \<noteq> 117" by blast
  then show ?case
  proof cases
    case 1
    with R obtain m bs1 where "ReadVarUint bs = Ret (m, bs1)"
      and "read_any_obj (unat m) [] bs1 = Ret (v, rest)"
      by (auto simp: outcome_simps)
    with 1 IH(2) [of "(m, bs1)" m bs1 v rest] show ?thesis by (auto dest: reads)
  next
    case 2
    with R obtain m bs1 vs
      where "ReadVarUint bs = Ret (m, bs1)" "make_slice 16 (unat m) = Ret ()"
      and "read_any_arr (unat m) bs1 = Ret (vs, rest)"
      by (auto simp: outcome_simps)
    with 2 IH(3) [of "(m, bs1)" m bs1 "()" vs rest] show ?thesis
      by (auto dest: reads)
  next
    case 3
    with R show ?thesis
      by (auto simp: outcome_simps read_full_Ret split: if_splits prod.splits dest: reads)
  qed
next
  case (4 n obj bs)
  then obtain k bs1 v' bs2 where 1: "ReadVarString bs = Ret (k, bs1)" and 2: "ReadAny bs1 = Ret (v', bs2)"
    and 3: "read_any_obj n (gm_set k v' obj) bs2 = Ret (v, rest)"
    by (auto simp: read_any_obj.psimps outcome_simps split: prod.splits)
  from 4(2) [OF 1 refl 2] 4(3) [OF 1 refl 2 refl 3] varstring.dec_shorter [OF 1]
  show ?case by simp
next
  case (6 n bs)
  then obtain v bs1 vs' where 1: "ReadAny bs = Ret (v, bs1)" and 2: "read_any_arr n bs1 = Ret (vs', rest)"
    by (auto simp: read_any_arr.psimps outcome_simps split: prod.splits)
  from 6(2) [OF 1] 6(3) [OF 1 refl 2] show ?case by simp
qed (simp_all add: ReadAny.psimps read_any_obj.psimps read_any_arr.psimps)

termination ReadAny
proof (relation "inv_image (less_than <*lex*> less_than)
    (case_sum (\<lambda>bs. (length bs, 0))
      (case_sum (\<lambda>(n, obj, bs). (length bs, Suc n)) (\<lambda>(n, bs). (length bs, Suc n))))", goal_cases)
  case 5
  then show ?case by (force dest: varstring.dec_shorter ReadAny_partial(1) [rotated])
next
  case 7
  then show ?case by (force dest: ReadAny_partial(1) [rotated])
qed (force dest: varuint.dec_shorter varstring.dec_shorter)+

lemma read_any_tag [simp]:
  "ReadAny [] = Err (ErrWrap ''any tag'' [] EOF)"
  by simp

declare ReadAny.simps(2) [simp del]

section \<open>The reader laws\<close>

lemma ReadAny_consumes:
  "ReadAny bs0 = Ret (v, rest) \<Longrightarrow> \<exists>c. c \<noteq> [] \<and> bs0 = c @ rest"
  "read_any_obj n obj bs1 = Ret (v, rest) \<Longrightarrow> \<exists>c. bs1 = c @ rest"
  "read_any_arr n bs2 = Ret (vs, rest) \<Longrightarrow> \<exists>c. bs2 = c @ rest"
proof (induction bs0 and n obj bs1 and n bs2 arbitrary: v rest and v rest and vs rest
    rule: ReadAny_read_any_obj_read_any_arr.induct)
  case (2 tag bs)
  note IH = 2 and R = 2(3) [unfolded ReadAny.simps(2)]
  note reads = varuint.dec_consumes varstring.dec_consumes varbytes.dec_consumes
  have "\<exists>c. bs = c @ rest"
  proof -
    consider "tag = 118" | "tag = 117" | "tag \<noteq> 118" "tag \<noteq> 117" by blast
    then show ?thesis
    proof cases
      case 1
      with R obtain m bs1 where m: "ReadVarUint bs = Ret (m, bs1)"
        and "read_any_obj (unat m) [] bs1 = Ret (v, rest)"
        by (auto simp: outcome_simps)
      with 1 IH(1) [of "(m, bs1)" m bs1 v rest] have "\<exists>c. bs1 = c @ rest" by simp
      with reads(1) [OF m] show ?thesis by auto
    next
      case 2
      with R obtain m bs1 vs where m: "ReadVarUint bs = Ret (m, bs1)"
        and "make_slice 16 (unat m) = Ret ()" "read_any_arr (unat m) bs1 = Ret (vs, rest)"
        by (auto simp: outcome_simps)
      with 2 IH(2) [of "(m, bs1)" m bs1 "()" vs rest] have "\<exists>c. bs1 = c @ rest" by simp
      with reads(1) [OF m] show ?thesis by auto
    next
      case 3
      with R show ?thesis
        by (auto simp: outcome_simps read_full_Ret split: if_splits prod.splits dest: reads)
    qed
  qed
  then show ?case by (metis append_Cons list.discI)
next
  case (4 n obj bs)
  then obtain k bs1 v' bs2 where 1: "ReadVarString bs = Ret (k, bs1)" and 2: "ReadAny bs1 = Ret (v', bs2)"
    and 3: "read_any_obj n (gm_set k v' obj) bs2 = Ret (v, rest)"
    by (auto simp: outcome_simps split: prod.splits)
  from 4(1) [OF 1 refl 2] 4(2) [OF 1 refl 2 refl 3] varstring.dec_consumes [OF 1]
  show ?case by auto
next
  case (6 n bs)
  then obtain v bs1 vs' where 1: "ReadAny bs = Ret (v, bs1)" and 2: "read_any_arr n bs1 = Ret (vs', rest)"
    by (auto simp: outcome_simps split: prod.splits)
  from 6(1) [OF 1] 6(2) [OF 1 refl 2] show ?case by auto
qed simp_all

lemma ReadAny_stops:
  "ReadAny bs0 \<noteq> Diverge" "read_any_obj n obj bs1 \<noteq> Diverge" "read_any_arr n bs2 \<noteq> Diverge"
proof (induction bs0 and n obj bs1 and n bs2 rule: ReadAny_read_any_obj_read_any_arr.induct)
  case (2 tag bs)
  note stops = ReadVarUint_stops varstring.dec_stops varbytes.dec_stops read_full_stops
  have "tag = 118 \<Longrightarrow> ReadVarUint bs = Ret (m, bs1) \<Longrightarrow> read_any_obj (unat m) [] bs1 \<noteq> Diverge" for m bs1
    using 2(1) [of "(m, bs1)" m bs1] by simp
  moreover have "tag = 117 \<Longrightarrow> ReadVarUint bs = Ret (m, bs1) \<Longrightarrow> make_slice 16 (unat m) = Ret () \<Longrightarrow>
      read_any_arr (unat m) bs1 \<noteq> Diverge" for m bs1
    using 2(2) [of "(m, bs1)" m bs1 "()"] by simp
  ultimately show ?case
    by (auto simp: ReadAny.simps(2) outcome_simps stops split: prod.splits)
qed (auto simp: outcome_simps varstring.dec_stops split: prod.splits)

section \<open>Round trip\<close>

text \<open>
  Reading back does not give every value: an \<open>int\<close> comes back as an \<open>int64\<close>, and a value of a
  type the writer does not know as \<open>nil\<close>. Nothing else changes.
\<close>

fun any_norm :: "goany \<Rightarrow> goany" where
  "any_norm (GInt n) = GInt64 n"
| "any_norm (GOther _) = GNil"
| "any_norm (GObj kvs) = GObj (map (\<lambda>(k, v). (k, any_norm v)) kvs)"
| "any_norm (GArr vs) = GArr (map any_norm vs)"
| "any_norm v = v"

text \<open>The values that exist in a Go process: sizes within the allocator's limit, map keys distinct.\<close>

fun any_ok :: "goany \<Rightarrow> bool" where
  "any_ok (GString s) = bytes_fit s"
| "any_ok (GBytes b) = bytes_fit b"
| "any_ok (GObj kvs) =
    (gm_ok kvs \<and> length kvs \<le> max_alloc \<and> list_all (\<lambda>(k, v). bytes_fit k \<and> any_ok v) kvs)"
| "any_ok (GArr vs) = (16 * length vs \<le> max_alloc \<and> list_all any_ok vs)"
| "any_ok v = True"

lemma be_first: "s + 8 = LENGTH('a) \<Longrightarrow> ucast (ucast (drop_bit s v) :: byte) = drop_bit s (v :: 'a::len word)"
  by (rule bit_eqI) (auto simp: bit_simps dest: bit_imp_le_length)

lemma be_step:
  "push_bit 8 (drop_bit (s + 8) v) OR ucast (ucast (drop_bit s v) :: byte) = drop_bit s (v :: 'a::len word)"
proof (rule bit_word_eqI)
  fix n
  show "bit (push_bit 8 (drop_bit (s + 8) v) OR ucast (ucast (drop_bit s v) :: byte)) n
      = bit (drop_bit s v) n" if "n < LENGTH('a)"
  proof (cases "n < 8")
    case False
    then have "s + 8 + (n - 8) = s + n" by simp
    with False that show ?thesis by (auto simp: bit_simps)
  qed (use that in \<open>auto simp: bit_simps\<close>)
qed

lemma BEUint32_Put [codec_simps]: "BEUint32 (PutUint32 v) = Ret v"
  using be_first [of 24 v] be_step [of 16 v] be_step [of 8 v] be_step [of 0 v]
  by (simp add: BEUint32_def PutUint32_def index_at_def)

lemma BEUint64_Put [codec_simps]: "BEUint64 (PutUint64 v) = Ret v"
  using be_first [of 56 v] be_step [of 48 v] be_step [of 40 v] be_step [of 32 v] be_step [of 24 v]
    be_step [of 16 v] be_step [of 8 v] be_step [of 0 v]
  by (simp add: BEUint64_def PutUint64_def index_at_def)

lemma length_Put [simp]: "length (PutUint32 v) = 4" "length (PutUint64 w) = 8"
  by (simp_all add: PutUint32_def PutUint64_def)

lemma read_full_Put [simp]:
  "read_full 4 (PutUint32 v @ rest) = Ret (PutUint32 v, rest)"
  "read_full 8 (PutUint64 w @ rest) = Ret (PutUint64 w, rest)"
  by (simp_all add: read_full_Ret)

text \<open>The two loops read back what the writer's loops produce.\<close>

lemma read_any_obj_write:
  assumes "\<And>k v rest. (k, v) \<in> set kvs \<Longrightarrow> bytes_fit k \<and> ReadAny (WriteAny v @ rest) = Ret (any_norm v, rest)"
    and "gm_ok (obj @ kvs)"
  shows "read_any_obj (length kvs) obj
      (concat (map (\<lambda>(k, v). WriteVarString k @ WriteAny v) kvs) @ rest)
    = Ret (GObj (obj @ map (\<lambda>(k, v). (k, any_norm v)) kvs), rest)"
  using assms
proof (induction kvs arbitrary: obj)
  case (Cons kv kvs)
  obtain k v where kv: "kv = (k, v)" by fastforce
  have ok: "bytes_fit k" "\<And>rest. ReadAny (WriteAny v @ rest) = Ret (any_norm v, rest)"
    using Cons.prems(1) [of k v] by (auto simp: kv)
  have fresh: "k \<notin> fst ` set obj" using Cons.prems(2) by (auto simp: gm_ok_def kv)
  have ok': "gm_ok ((obj @ [(k, any_norm v)]) @ kvs)"
    using Cons.prems(2) by (simp add: gm_ok_def kv)
  have "read_any_obj (length kvs) (obj @ [(k, any_norm v)])
      (concat (map (\<lambda>(k, v). WriteVarString k @ WriteAny v) kvs) @ rest)
    = Ret (GObj ((obj @ [(k, any_norm v)]) @ map (\<lambda>(k, v). (k, any_norm v)) kvs), rest)"
    using Cons.prems(1) by (intro Cons.IH ok') auto
  then show ?case
    using ok fresh by (simp add: kv ReadVarString_write gm_set_fresh)
qed simp

lemma read_any_arr_write:
  assumes "\<And>v rest. v \<in> set vs \<Longrightarrow> ReadAny (WriteAny v @ rest) = Ret (any_norm v, rest)"
  shows "read_any_arr (length vs) (concat (map WriteAny vs) @ rest) = Ret (map any_norm vs, rest)"
  using assms by (induction vs) auto

lemma ReadAny_write: "any_ok v \<Longrightarrow> ReadAny (WriteAny v @ rest) = Ret (any_norm v, rest)"
proof (induction v arbitrary: rest)
  case (GObj kvs)
  have "read_any_obj (length kvs) []
      (concat (map (\<lambda>(k, v). WriteVarString k @ WriteAny v) kvs) @ rest)
    = Ret (GObj ([] @ map (\<lambda>(k, v). (k, any_norm v)) kvs), rest)"
    using GObj by (intro read_any_obj_write) (auto simp: list_all_iff)
  with GObj.prems show ?case
    by (simp add: ReadAny.simps(2) ReadVarUint_write)
next
  case (GArr vs)
  have "read_any_arr (length vs) (concat (map WriteAny vs) @ rest) = Ret (map any_norm vs, rest)"
    using GArr by (intro read_any_arr_write) (auto simp: list_all_iff)
  with GArr.prems show ?case
    by (simp add: ReadAny.simps(2) ReadVarUint_write make_slice_def)
qed (auto simp: ReadAny.simps(2) codec_simps)

interpretation anyval: codec ReadAny WriteAny any_norm any_ok
  by unfold_locales (auto dest: ReadAny_consumes(1) simp: ReadAny_stops ReadAny_write)

end
