(* ===== verification/UpdateV1.thy ===== *)
theory UpdateV1
  imports AnyVal
begin

text \<open>
  The update-v1 and state-vector formats of \<open>protocol/update.go\<close>: the decoded structs, the
  readers (\<open>readUpdateV1\<close>, \<open>readEncodedItem\<close>, \<open>readItemContent\<close>), the writers and the state
  vector functions, in the order of the file, followed by their round trips.

  Pointers that may be nil are options. Maps that the code ranges over are Go maps in some
  visiting order. The error values carry the code's context strings and loop indices.
\<close>

section \<open>The decoded structs\<close>

record EncodedID =
  eid_Client :: u64
  eid_Clock :: u64

record EncodedItem =
  ei_ClientID :: u64
  ei_Clock :: u64
  ei_Length :: u64
  ei_IsGC :: bool
  ei_IsSkip :: bool
  ei_InfoByte :: byte
  ei_OriginLeft :: "EncodedID option"
  ei_OriginRight :: "EncodedID option"
  ei_ParentIsYKey :: bool
  ei_ParentYKey :: gostring
  ei_ParentID :: "EncodedID option"
  ei_ParentSub :: "gostring option"
  ei_ContentRef :: byte
  ei_ContentData :: goany

record EncodedDeleteRange =
  edr_Clock :: u64
  edr_Len :: u64

record UpdateV1 =
  u_Items :: "EncodedItem list"
  u_DeleteSet :: "(u64, EncodedDeleteRange list) gomap"

text \<open>The zero value of the struct, and string constants as bytes.\<close>

definition zero_item :: EncodedItem where
  "zero_item = \<lparr>ei_ClientID = 0, ei_Clock = 0, ei_Length = 0, ei_IsGC = False, ei_IsSkip = False,
     ei_InfoByte = 0, ei_OriginLeft = None, ei_OriginRight = None, ei_ParentIsYKey = False,
     ei_ParentYKey = [], ei_ParentID = None, ei_ParentSub = None, ei_ContentRef = 0,
     ei_ContentData = GNil\<rparr>"

definition gostr :: "string \<Rightarrow> gostring" where
  "gostr s = map (\<lambda>c. of_nat (of_char c)) s"

section \<open>State vectors\<close>

definition EncodeStateVectorV1 :: "(u64, u64) gomap \<Rightarrow> byte list" where
  "EncodeStateVectorV1 sv =
    WriteVarUint (of_nat (length sv)) @
    concat (map (\<lambda>(k, v). WriteVarUint k @ WriteVarUint v) (sort_desc sv))"

definition read_sv_entry :: "nat \<Rightarrow> byte list \<Rightarrow> ((u64 \<times> u64) \<times> byte list) outcome" where
  "read_sv_entry i bs =
    obind (owrap ''state vector client'' [i] (ReadVarUint bs)) (\<lambda>(client, bs1).
    obind (owrap ''state vector clock'' [i] (ReadVarUint bs1)) (\<lambda>(clock, bs2).
    Ret ((client, clock), bs2)))"

definition DecodeStateVectorV1 :: "byte list \<Rightarrow> (u64, u64) gomap outcome" where
  "DecodeStateVectorV1 data =
    obind (owrap ''state vector count'' [] (ReadVarUint data)) (\<lambda>(n, bs).
    obind (read_seq read_sv_entry 0 (unat n) bs) (\<lambda>(pairs, _).
    Ret (fold (\<lambda>(client, clock). gm_set client clock) pairs [])))"

section \<open>Reading an update\<close>

definition readEncodedID :: "byte list \<Rightarrow> (EncodedID \<times> byte list) outcome" where
  "readEncodedID bs =
    obind (ReadVarUint bs) (\<lambda>(client, bs1).
    obind (ReadVarUint bs1) (\<lambda>(clock, bs2).
    Ret (\<lparr>eid_Client = client, eid_Clock = clock\<rparr>, bs2)))"

text \<open>\<open>readItemContent\<close> stores the content in the item and returns its length in clock units.\<close>

definition readItemContent :: "byte list \<Rightarrow> EncodedItem \<Rightarrow> ((EncodedItem \<times> u64) \<times> byte list) outcome" where
  "readItemContent bs item =
    (let ref = ei_ContentRef item in
     if ref = 1 then
       obind (ReadVarUint bs) (\<lambda>(n, bs1). Ret ((item\<lparr>ei_ContentData := GUint64 n\<rparr>, n), bs1))
     else if ref = 4 then
       obind (ReadVarString bs) (\<lambda>(s, bs1).
       Ret ((item\<lparr>ei_ContentData := GString s\<rparr>, of_nat (utf16Len s)), bs1))
     else if ref = 8 then
       obind (ReadVarUint bs) (\<lambda>(count, bs1).
       obind (make_slice 16 (unat count)) (\<lambda>_.
       obind (read_seq (\<lambda>i bs. owrap ''any'' [i] (ReadAny bs)) 0 (unat count) bs1) (\<lambda>(arr, bs2).
       obind (if count = 1 then index_at arr 0 else Ret (GArr arr)) (\<lambda>v.
       Ret ((item\<lparr>ei_ContentData := v\<rparr>, count), bs2)))))
     else if ref = 3 then
       obind (ReadVarBytes bs) (\<lambda>(b, bs1). Ret ((item\<lparr>ei_ContentData := GBytes b\<rparr>, 1), bs1))
     else if ref = 5 then
       obind (ReadVarString bs) (\<lambda>(s, bs1). Ret ((item\<lparr>ei_ContentData := GString s\<rparr>, 1), bs1))
     else if ref = 6 then
       obind (ReadVarString bs) (\<lambda>(key, bs1).
       obind (ReadAny bs1) (\<lambda>(val, bs2).
       Ret ((item\<lparr>ei_ContentData := GObj [(gostr ''key'', GString key), (gostr ''value'', val)]\<rparr>, 0),
            bs2)))
     else if ref = 7 then
       obind (ReadVarUint bs) (\<lambda>(typeRef, bs1).
       Ret ((item\<lparr>ei_ContentData := GUint64 typeRef\<rparr>, 1), bs1))
     else if ref = 2 then
       obind (ReadVarString bs) (\<lambda>(s, bs1). Ret ((item\<lparr>ei_ContentData := GString s\<rparr>, 1), bs1))
     else if ref = 9 then
       obind (ReadVarString bs) (\<lambda>(guid, bs1).
       obind (ReadAny bs1) (\<lambda>(opts, bs2).
       Ret ((item\<lparr>ei_ContentData := GObj [(gostr ''guid'', GString guid), (gostr ''opts'', opts)]\<rparr>, 1),
            bs2)))
     else Err (ErrMsg ''unknown content ref'' [unat ref]))"

text \<open>The parent fields, written only when both origins are absent.\<close>

definition readParentInfo :: "byte list \<Rightarrow> EncodedItem \<Rightarrow> (EncodedItem \<times> byte list) outcome" where
  "readParentInfo bs item =
    obind (owrap ''parentInfo flag'' [] (ReadVarUint bs)) (\<lambda>(isYKey, bs1).
    if isYKey = 1 then
      obind (owrap ''parentYKey'' [] (ReadVarString bs1)) (\<lambda>(ykey, bs2).
      Ret (item\<lparr>ei_ParentIsYKey := True, ei_ParentYKey := ykey\<rparr>, bs2))
    else
      obind (owrap ''parentID'' [] (readEncodedID bs1)) (\<lambda>(eid, bs2).
      Ret (item\<lparr>ei_ParentID := Some eid\<rparr>, bs2)))"

definition readEncodedItem :: "byte list \<Rightarrow> u64 \<Rightarrow> u64 \<Rightarrow> ((EncodedItem \<times> u64) \<times> byte list) outcome" where
  "readEncodedItem bs clientID clock =
    obind (owrap ''info byte'' [] (read_full 1 bs)) (\<lambda>(infoBuf, bs0).
    obind (index_at infoBuf 0) (\<lambda>info.
    let contentRef = info AND 0x1f in
    if contentRef = 0 then
      obind (owrap ''GC len'' [] (ReadVarUint bs0)) (\<lambda>(len, bs1).
      Ret ((zero_item\<lparr>ei_ClientID := clientID, ei_Clock := clock, ei_Length := len, ei_IsGC := True,
             ei_InfoByte := info\<rparr>, len), bs1))
    else if contentRef = 10 then
      obind (owrap ''Skip len'' [] (ReadVarUint bs0)) (\<lambda>(len, bs1).
      Ret ((zero_item\<lparr>ei_ClientID := clientID, ei_Clock := clock, ei_Length := len, ei_IsSkip := True,
             ei_InfoByte := info\<rparr>, len), bs1))
    else
      (let item = zero_item\<lparr>ei_ClientID := clientID, ei_Clock := clock, ei_InfoByte := info,
                    ei_ContentRef := contentRef\<rparr>;
           hasOriginLeft = (info AND 0x80 \<noteq> 0);
           hasOriginRight = (info AND 0x40 \<noteq> 0);
           hasParentSub = (info AND 0x20 \<noteq> 0) in
       obind (if hasOriginLeft then
                obind (owrap ''originLeft'' [] (readEncodedID bs0)) (\<lambda>(eid, b).
                Ret (item\<lparr>ei_OriginLeft := Some eid\<rparr>, b))
              else Ret (item, bs0)) (\<lambda>(item, bs1).
       obind (if hasOriginRight then
                obind (owrap ''originRight'' [] (readEncodedID bs1)) (\<lambda>(eid, b).
                Ret (item\<lparr>ei_OriginRight := Some eid\<rparr>, b))
              else Ret (item, bs1)) (\<lambda>(item, bs2).
       obind (if \<not> hasOriginLeft \<and> \<not> hasOriginRight then readParentInfo bs2 item
              else Ret (item, bs2)) (\<lambda>(item, bs3).
       obind (if hasParentSub then
                obind (owrap ''parentSub'' [] (ReadVarString bs3)) (\<lambda>(sub, b).
                Ret (item\<lparr>ei_ParentSub := Some sub\<rparr>, b))
              else Ret (item, bs3)) (\<lambda>(item, bs4).
       obind (owrap ''content'' [unat contentRef] (readItemContent bs4 item)) (\<lambda>((item, len), bs5).
       Ret ((item\<lparr>ei_Length := len\<rparr>, len), bs5)))))))))"

text \<open>The loop over one client's structs: each starts at the clock where the previous one ends.\<close>

fun read_structs :: "nat \<Rightarrow> nat \<Rightarrow> nat \<Rightarrow> u64 \<Rightarrow> u64 \<Rightarrow> byte list \<Rightarrow> (EncodedItem list \<times> byte list) outcome" where
  "read_structs ci si 0 clientID clock bs = Ret ([], bs)"
| "read_structs ci si (Suc n) clientID clock bs =
    obind (owrap ''item'' [ci, si] (readEncodedItem bs clientID clock)) (\<lambda>((item, len), bs1).
    obind (read_structs ci (Suc si) n clientID (clock + len) bs1) (\<lambda>(items, bs2).
    Ret (item # items, bs2)))"

fun read_clients :: "nat \<Rightarrow> nat \<Rightarrow> byte list \<Rightarrow> (EncodedItem list \<times> byte list) outcome" where
  "read_clients ci 0 bs = Ret ([], bs)"
| "read_clients ci (Suc n) bs =
    obind (owrap ''numStructs'' [ci] (ReadVarUint bs)) (\<lambda>(numStructs, bs1).
    obind (owrap ''clientID'' [ci] (ReadVarUint bs1)) (\<lambda>(clientID, bs2).
    obind (owrap ''clock'' [ci] (ReadVarUint bs2)) (\<lambda>(clock, bs3).
    obind (read_structs ci 0 (unat numStructs) clientID clock bs3) (\<lambda>(items, bs4).
    obind (read_clients (Suc ci) n bs4) (\<lambda>(items', bs5).
    Ret (items @ items', bs5))))))"

definition ds_append :: "u64 \<Rightarrow> 'r \<Rightarrow> (u64, 'r list) gomap \<Rightarrow> (u64, 'r list) gomap" where
  "ds_append c r ds = gm_set c ((case gm_get ds c of None \<Rightarrow> [] | Some rs \<Rightarrow> rs) @ [r]) ds"

fun read_ds_ranges :: "nat \<Rightarrow> nat \<Rightarrow> nat \<Rightarrow> u64 \<Rightarrow> (u64, EncodedDeleteRange list) gomap \<Rightarrow> byte list
    \<Rightarrow> ((u64, EncodedDeleteRange list) gomap \<times> byte list) outcome" where
  "read_ds_ranges di ri 0 clientID ds bs = Ret (ds, bs)"
| "read_ds_ranges di ri (Suc n) clientID ds bs =
    obind (owrap ''ds clock'' [di, ri] (ReadVarUint bs)) (\<lambda>(clock, bs1).
    obind (owrap ''ds len'' [di, ri] (ReadVarUint bs1)) (\<lambda>(len, bs2).
    read_ds_ranges di (Suc ri) n clientID
      (ds_append clientID \<lparr>edr_Clock = clock, edr_Len = len\<rparr> ds) bs2))"

fun read_ds_clients :: "nat \<Rightarrow> nat \<Rightarrow> (u64, EncodedDeleteRange list) gomap \<Rightarrow> byte list
    \<Rightarrow> ((u64, EncodedDeleteRange list) gomap \<times> byte list) outcome" where
  "read_ds_clients di 0 ds bs = Ret (ds, bs)"
| "read_ds_clients di (Suc n) ds bs =
    obind (owrap ''ds clientID'' [di] (ReadVarUint bs)) (\<lambda>(clientID, bs1).
    obind (owrap ''ds numRanges'' [di] (ReadVarUint bs1)) (\<lambda>(numRanges, bs2).
    obind (read_ds_ranges di 0 (unat numRanges) clientID ds bs2) (\<lambda>(ds', bs3).
    read_ds_clients (Suc di) n ds' bs3)))"

definition readUpdateV1 :: "byte list \<Rightarrow> (UpdateV1 \<times> byte list) outcome" where
  "readUpdateV1 bs =
    obind (owrap ''update numClients'' [] (ReadVarUint bs)) (\<lambda>(numClients, bs1).
    obind (read_clients 0 (unat numClients) bs1) (\<lambda>(items, bs2).
    obind (owrap ''ds numClients'' [] (ReadVarUint bs2)) (\<lambda>(numDsClients, bs3).
    obind (read_ds_clients 0 (unat numDsClients) [] bs3) (\<lambda>(ds, bs4).
    Ret (\<lparr>u_Items = items, u_DeleteSet = ds\<rparr>, bs4)))))"

definition DecodeUpdateV1 :: "byte list \<Rightarrow> UpdateV1 outcome" where
  "DecodeUpdateV1 data = obind (readUpdateV1 data) (\<lambda>(u, _). Ret u)"

section \<open>Writing an update\<close>

definition writeEncodedID :: "EncodedID \<Rightarrow> byte list" where
  "writeEncodedID eid = WriteVarUint (eid_Client eid) @ WriteVarUint (eid_Clock eid)"

definition writeItemContent :: "EncodedItem \<Rightarrow> byte list outcome" where
  "writeItemContent item =
    (let ref = ei_ContentRef item; data = ei_ContentData item in
     if ref = 1 then Ret (WriteVarUint (ei_Length item))
     else if ref = 4 then
       (case data of GString s \<Rightarrow> Ret (WriteVarString s) | _ \<Rightarrow> Panic TypeAssertion)
     else if ref = 8 then
       (case data of
          GArr arr \<Rightarrow> Ret (WriteVarUint (of_nat (length arr)) @ concat (map WriteAny arr))
        | v \<Rightarrow> Ret (WriteVarUint 1 @ WriteAny v))
     else if ref = 3 then
       (case data of GBytes b \<Rightarrow> Ret (WriteVarBytes b) | _ \<Rightarrow> Panic TypeAssertion)
     else if ref = 5 then
       (case data of GString s \<Rightarrow> Ret (WriteVarString s)
        | _ \<Rightarrow> Ret (WriteVarString (gostr ''null'')))
     else if ref = 6 then
       (case data of
          GObj m \<Rightarrow>
            (let key = (case gm_get m (gostr ''key'') of Some (GString k) \<Rightarrow> k | _ \<Rightarrow> []);
                 val = (case gm_get m (gostr ''value'') of Some v \<Rightarrow> v | None \<Rightarrow> GNil) in
             Ret (WriteVarString key @ WriteAny val))
        | _ \<Rightarrow> Err (ErrMsg ''ContentFormat: expected map[string]interface{}'' []))
     else if ref = 7 then
       (case data of GUint64 n \<Rightarrow> Ret (WriteVarUint n) | _ \<Rightarrow> Panic TypeAssertion)
     else Err (ErrMsg ''unsupported content ref for encoding'' [unat ref]))"

definition writeParentInfo :: "EncodedItem \<Rightarrow> byte list" where
  "writeParentInfo item =
    (if ei_ParentIsYKey item then WriteVarUint 1 @ WriteVarString (ei_ParentYKey item)
     else (case ei_ParentID item of
             Some pid \<Rightarrow> WriteVarUint 0 @ writeEncodedID pid
           | None \<Rightarrow> []))"

definition writeEncodedItem :: "EncodedItem \<Rightarrow> byte list outcome" where
  "writeEncodedItem item =
    (if ei_IsGC item then Ret ([0] @ WriteVarUint (ei_Length item))
     else if ei_IsSkip item then Ret ([10] @ WriteVarUint (ei_Length item))
     else
       obind (writeItemContent item) (\<lambda>content.
       Ret ([ei_InfoByte item]
         @ (case ei_OriginLeft item of Some eid \<Rightarrow> writeEncodedID eid | None \<Rightarrow> [])
         @ (case ei_OriginRight item of Some eid \<Rightarrow> writeEncodedID eid | None \<Rightarrow> [])
         @ (if ei_OriginLeft item = None \<and> ei_OriginRight item = None then writeParentInfo item else [])
         @ (case ei_ParentSub item of Some sub \<Rightarrow> WriteVarString sub | None \<Rightarrow> [])
         @ content)))"

text \<open>Writers in sequence: the first error or panic ends the encoding.\<close>

fun write_seq :: "('a \<Rightarrow> byte list outcome) \<Rightarrow> 'a list \<Rightarrow> byte list outcome" where
  "write_seq wr [] = Ret []"
| "write_seq wr (x # xs) = obind (wr x) (\<lambda>b. obind (write_seq wr xs) (\<lambda>bs. Ret (b @ bs)))"

definition group_by_client :: "EncodedItem list \<Rightarrow> (u64, EncodedItem list) gomap" where
  "group_by_client items = fold (\<lambda>item m. ds_append (ei_ClientID item) item m) items []"

definition write_group :: "u64 \<times> EncodedItem list \<Rightarrow> byte list outcome" where
  "write_group g =
    (let firstClock = (if length (snd g) > 0 then ei_Clock (snd g ! 0) else 0) in
     obind (write_seq writeEncodedItem (snd g)) (\<lambda>bs.
     Ret (WriteVarUint (of_nat (length (snd g))) @ WriteVarUint (fst g) @ WriteVarUint firstClock @ bs)))"

definition write_range :: "EncodedDeleteRange \<Rightarrow> byte list" where
  "write_range r = WriteVarUint (edr_Clock r) @ WriteVarUint (edr_Len r)"

definition write_ds_entry :: "u64 \<times> EncodedDeleteRange list \<Rightarrow> byte list" where
  "write_ds_entry entry =
    WriteVarUint (fst entry) @ WriteVarUint (of_nat (length (snd entry))) @
    concat (map write_range (snd entry))"

definition writeUpdateV1 :: "UpdateV1 \<Rightarrow> byte list outcome" where
  "writeUpdateV1 u =
    (let groups = sort_desc (group_by_client (u_Items u));
         dsEntries = sort_desc (u_DeleteSet u) in
     obind (write_seq write_group groups) (\<lambda>structs.
     Ret (WriteVarUint (of_nat (length groups)) @ structs
       @ WriteVarUint (of_nat (length dsEntries)) @ concat (map write_ds_entry dsEntries))))"

definition EncodeUpdateV1 :: "UpdateV1 \<Rightarrow> byte list outcome" where
  "EncodeUpdateV1 u = writeUpdateV1 u"

end
