(* ===== verification/UpdateRoundtrip.thy ===== *)
theory UpdateRoundtrip
  imports UpdateV1
begin

text \<open>
  The update format reads back what it writes. \<open>item_ok\<close> and \<open>update_ok\<close> say which updates
  the writer is meant for (an info byte that agrees with the fields, content of the type its
  ref asks for, one client's structs contiguous in clock), \<open>item_norm\<close> and \<open>update_canon\<close> what
  the reader returns for them: clients in descending order, the fields the wire carries, and
  content as \<open>ReadAny\<close> gives it back.
\<close>

section \<open>Content\<close>

definition content_len :: "EncodedItem \<Rightarrow> u64" where
  "content_len it =
    (let ref = ei_ContentRef it in
     if ref = 1 then ei_Length it
     else if ref = 4 then (case ei_ContentData it of GString s \<Rightarrow> of_nat (utf16Len s) | _ \<Rightarrow> 0)
     else if ref = 8 then (case ei_ContentData it of GArr arr \<Rightarrow> of_nat (length arr) | _ \<Rightarrow> 1)
     else if ref = 6 then 0 else 1)"

definition content_norm :: "EncodedItem \<Rightarrow> goany" where
  "content_norm it =
    (let ref = ei_ContentRef it; data = ei_ContentData it in
     if ref = 1 then GUint64 (ei_Length it)
     else if ref = 8 then (case data of GArr [v] \<Rightarrow> any_norm v | v \<Rightarrow> any_norm v)
     else if ref = 5 then (case data of GString s \<Rightarrow> data | _ \<Rightarrow> GString (gostr ''null''))
     else if ref = 6 then
       (case data of
          GObj m \<Rightarrow>
            GObj [(gostr ''key'', case gm_get m (gostr ''key'') of Some (GString k) \<Rightarrow> GString k | _ \<Rightarrow> GString []),
                  (gostr ''value'', case gm_get m (gostr ''value'') of Some v \<Rightarrow> any_norm v | None \<Rightarrow> GNil)]
        | _ \<Rightarrow> data)
     else data)"

definition content_ok :: "EncodedItem \<Rightarrow> bool" where
  "content_ok it =
    (let ref = ei_ContentRef it; data = ei_ContentData it in
     any_ok data \<and>
     (ref = 1
      \<or> ref = 4 \<and> (case data of GString s \<Rightarrow> True | _ \<Rightarrow> False)
      \<or> ref = 8
      \<or> ref = 3 \<and> (case data of GBytes b \<Rightarrow> True | _ \<Rightarrow> False)
      \<or> ref = 5
      \<or> ref = 6 \<and> (case data of GObj m \<Rightarrow> True | _ \<Rightarrow> False)
      \<or> ref = 7 \<and> (case data of GUint64 n \<Rightarrow> True | _ \<Rightarrow> False)))"

lemma bytes_fit_consts [simp]: "bytes_fit []" "bytes_fit (gostr ''null'')"
  by (simp_all add: bytes_fit_def gostr_def max_alloc_def)

lemma any_ok_lookup: "any_ok (GObj m) \<Longrightarrow> gm_get m k = Some v \<Longrightarrow> bytes_fit k \<and> any_ok v"
  by (auto simp: list_all_iff dest: map_of_SomeD)

lemma any_ok_key:
  assumes "any_ok (GObj m)"
  shows "bytes_fit (case gm_get m x of Some (GString k) \<Rightarrow> k | _ \<Rightarrow> [])"
proof (cases "gm_get m x")
  case (Some v)
  then show ?thesis using any_ok_lookup [OF assms Some] by (cases v) simp_all
qed simp

lemma any_ok_value:
  assumes "any_ok (GObj m)"
  shows "any_ok (case gm_get m x of Some v \<Rightarrow> v | None \<Rightarrow> GNil)"
  using any_ok_lookup [OF assms] by (cases "gm_get m x") simp_all

lemma read_seq_any:
  assumes "list_all any_ok vs"
  shows "read_seq (\<lambda>i bs. owrap ''any'' [i] (ReadAny bs)) 0 (length vs) (concat (map WriteAny vs) @ rest)
    = Ret (map any_norm vs, rest)"
  using assms by (intro read_seq_enc) (auto simp: ReadAny_write list_all_iff)

lemma arr_read_back:
  assumes "any_ok (GArr vs)" "ei_ContentRef it' = 8"
  shows "readItemContent (WriteVarUint (of_nat (length vs)) @ concat (map WriteAny vs) @ rest) it'
    = Ret ((it'\<lparr>ei_ContentData := (case vs of [v] \<Rightarrow> any_norm v | _ \<Rightarrow> any_norm (GArr vs))\<rparr>,
           of_nat (length vs)), rest)"
proof -
  have len: "16 * length vs \<le> max_alloc" and oks: "list_all any_ok vs" using assms(1) by simp_all
  have u: "unat (of_nat (length vs) :: u64) = length vs" using len by simp
  have one: "(of_nat (length vs) :: u64) = 1 \<longleftrightarrow> length vs = 1"
    using u by (metis of_nat_1 unsigned_1)
  have "read_seq (\<lambda>i bs. owrap ''any'' [i] (ReadAny bs)) 0 (length vs) (concat (map WriteAny vs) @ rest)
      = Ret (map any_norm vs, rest)"
    by (rule read_seq_any [OF oks])
  then show ?thesis
    using assms(2) len u one
    by (auto simp: readItemContent_def ReadVarUint_write make_slice_def length_Suc_conv
        split: list.split)
qed

lemma single_read_back:
  assumes "any_ok v" "ei_ContentRef it' = 8"
  shows "readItemContent (WriteVarUint 1 @ WriteAny v @ rest) it'
    = Ret ((it'\<lparr>ei_ContentData := any_norm v\<rparr>, 1), rest)"
  using assms
  by (simp add: readItemContent_def ReadVarUint_write make_slice_def max_alloc_def ReadAny_write)

lemma content_read_back:
  assumes "content_ok it" "ei_ContentRef it' = ei_ContentRef it"
  shows "\<exists>b. writeItemContent it = Ret b \<and>
    (\<forall>rest. readItemContent (b @ rest) it'
      = Ret ((it'\<lparr>ei_ContentData := content_norm it\<rparr>, content_len it), rest))"
proof -
  let ?ref = "ei_ContentRef it" and ?data = "ei_ContentData it"
  note defs = writeItemContent_def content_norm_def content_len_def Let_def
  have ok: "any_ok ?data" using assms(1) by (simp add: content_ok_def Let_def)
  consider "?ref = 1" | s where "?ref = 4" "?data = GString s" | vs where "?ref = 8" "?data = GArr vs"
    | "?ref = 8" "\<forall>vs. ?data \<noteq> GArr vs" | b where "?ref = 3" "?data = GBytes b" | "?ref = 5"
    | m where "?ref = 6" "?data = GObj m" | n where "?ref = 7" "?data = GUint64 n"
    using assms(1) by (auto simp: content_ok_def Let_def split: goany.splits)
  then show ?thesis
  proof cases
    case (3 vs)
    then show ?thesis
      using arr_read_back [of vs it'] ok assms(2) by (auto simp: defs split: list.split)
  next
    case 4
    then show ?thesis
      using single_read_back [OF ok, of it'] assms(2) by (cases ?data) (auto simp: defs)
  next
    case 6
    then show ?thesis
      using ok assms(2)
      by (cases ?data) (auto simp: defs readItemContent_def ReadVarString_write)
  next
    case (7 m)
    let ?k = "case gm_get m (gostr ''key'') of Some (GString k) \<Rightarrow> k | _ \<Rightarrow> []"
    let ?v = "case gm_get m (gostr ''value'') of Some v \<Rightarrow> v | None \<Rightarrow> GNil"
    have m_ok: "any_ok (GObj m)" using ok 7 by simp
    have fits: "bytes_fit ?k \<and> any_ok ?v"
      using any_ok_key [OF m_ok] any_ok_value [OF m_ok] by blast
    have w: "writeItemContent it = Ret (WriteVarString ?k @ WriteAny ?v)"
      by (simp add: writeItemContent_def 7)
    have n: "content_norm it = GObj [(gostr ''key'', GString ?k), (gostr ''value'', any_norm ?v)]"
      by (simp add: content_norm_def 7 split: option.split goany.split)
    have "readItemContent ((WriteVarString ?k @ WriteAny ?v) @ rest) it'
      = Ret ((it'\<lparr>ei_ContentData := content_norm it\<rparr>, 0), rest)" for rest
      using 7 assms(2) fits
      by (simp add: readItemContent_def ReadVarString_write ReadAny_write n)
    then show ?thesis
      using w 7 by (simp add: content_len_def)
  qed (use ok assms(2) in \<open>auto simp: defs readItemContent_def codec_simps\<close>)
qed

section \<open>One struct\<close>

definition item_len :: "EncodedItem \<Rightarrow> u64" where
  "item_len it = (if ei_IsGC it \<or> ei_IsSkip it then ei_Length it else content_len it)"

definition info_ok :: "EncodedItem \<Rightarrow> bool" where
  "info_ok it \<longleftrightarrow>
    ei_InfoByte it AND 0x1f = ei_ContentRef it
    \<and> (ei_InfoByte it AND 0x80 \<noteq> 0 \<longleftrightarrow> ei_OriginLeft it \<noteq> None)
    \<and> (ei_InfoByte it AND 0x40 \<noteq> 0 \<longleftrightarrow> ei_OriginRight it \<noteq> None)
    \<and> (ei_InfoByte it AND 0x20 \<noteq> 0 \<longleftrightarrow> ei_ParentSub it \<noteq> None)"

definition parent_ok :: "EncodedItem \<Rightarrow> bool" where
  "parent_ok it \<longleftrightarrow>
    (ei_OriginLeft it \<noteq> None \<or> ei_OriginRight it \<noteq> None
     \<or> ei_ParentIsYKey it \<and> bytes_fit (ei_ParentYKey it)
     \<or> \<not> ei_ParentIsYKey it \<and> ei_ParentID it \<noteq> None)"

definition item_ok :: "EncodedItem \<Rightarrow> bool" where
  "item_ok it \<longleftrightarrow>
    ei_IsGC it \<or> ei_IsSkip it
    \<or> info_ok it \<and> parent_ok it \<and> content_ok it
      \<and> (case ei_ParentSub it of Some sub \<Rightarrow> bytes_fit sub | None \<Rightarrow> True)"

definition no_origins :: "EncodedItem \<Rightarrow> bool" where
  "no_origins it \<longleftrightarrow> ei_OriginLeft it = None \<and> ei_OriginRight it = None"

definition item_norm :: "EncodedItem \<Rightarrow> EncodedItem" where
  "item_norm it =
    (let base = zero_item\<lparr>ei_ClientID := ei_ClientID it, ei_Clock := ei_Clock it, ei_Length := item_len it\<rparr> in
     if ei_IsGC it then base\<lparr>ei_IsGC := True\<rparr>
     else if ei_IsSkip it then base\<lparr>ei_IsSkip := True, ei_InfoByte := 10\<rparr>
     else base\<lparr>ei_InfoByte := ei_InfoByte it, ei_OriginLeft := ei_OriginLeft it,
       ei_OriginRight := ei_OriginRight it,
       ei_ParentIsYKey := no_origins it \<and> ei_ParentIsYKey it,
       ei_ParentYKey := (if no_origins it \<and> ei_ParentIsYKey it then ei_ParentYKey it else []),
       ei_ParentID := (if no_origins it \<and> \<not> ei_ParentIsYKey it then ei_ParentID it else None),
       ei_ParentSub := ei_ParentSub it, ei_ContentRef := ei_ContentRef it,
       ei_ContentData := content_norm it\<rparr>)"

lemma readEncodedID_write [codec_simps]: "readEncodedID (writeEncodedID eid @ rest) = Ret (eid, rest)"
  by (simp add: readEncodedID_def writeEncodedID_def ReadVarUint_write)

lemma readEncodedID_consumes:
  "readEncodedID bs = Ret (eid, rest) \<Longrightarrow> \<exists>c. c \<noteq> [] \<and> bs = c @ rest"
proof -
  assume "readEncodedID bs = Ret (eid, rest)"
  then obtain client bs1 clock where 1: "ReadVarUint bs = Ret (client, bs1)" and 2: "ReadVarUint bs1 = Ret (clock, rest)"
    by (auto simp: readEncodedID_def outcome_simps split: prod.splits)
  obtain c1 where "c1 \<noteq> []" "bs = c1 @ bs1" using varuint.dec_consumes [OF 1] by blast
  moreover obtain c2 where "bs1 = c2 @ rest" using varuint.dec_consumes [OF 2] by blast
  ultimately have "c1 @ c2 \<noteq> [] \<and> bs = (c1 @ c2) @ rest" by simp
  then show ?thesis by blast
qed

interpretation encid: codec readEncodedID writeEncodedID id "\<lambda>_. True"
proof unfold_locales
  show "readEncodedID bs \<noteq> Diverge" for bs
    by (simp add: readEncodedID_def obind_eq_Diverge split: prod.splits)
qed (simp_all add: readEncodedID_write readEncodedID_consumes)

lemma readParentInfo_write:
  assumes "parent_ok it" "no_origins it"
  shows "readParentInfo (writeParentInfo it @ rest) x = Ret (x\<lparr>ei_ParentIsYKey := ei_ParentIsYKey it \<or> ei_ParentIsYKey x,
     ei_ParentYKey := (if ei_ParentIsYKey it then ei_ParentYKey it else ei_ParentYKey x),
     ei_ParentID := (if ei_ParentIsYKey it then ei_ParentID x else ei_ParentID it)\<rparr>, rest)"
  using assms
  by (auto simp: parent_ok_def no_origins_def readParentInfo_def writeParentInfo_def codec_simps)

text \<open>
  A struct written and read at its own client and clock comes back as \<open>item_norm\<close>, with
  \<open>item_len\<close> as the number of clock ticks it takes.
\<close>

lemma readEncodedItem_write:
  assumes ok: "item_ok it"
  shows "\<exists>b. writeEncodedItem it = Ret b \<and>
    (\<forall>rest. readEncodedItem (b @ rest) (ei_ClientID it) (ei_Clock it) = Ret ((item_norm it, item_len it), rest))"
proof -
  consider "ei_IsGC it" | "\<not> ei_IsGC it" "ei_IsSkip it" | "\<not> ei_IsGC it" "\<not> ei_IsSkip it" by blast
  then show ?thesis
  proof cases
    case 1
    then show ?thesis
      by (simp add: writeEncodedItem_def readEncodedItem_def read_full_def ReadVarUint_write
          item_norm_def item_len_def zero_item_def)
  next
    case 2
    then show ?thesis
      by (simp add: writeEncodedItem_def readEncodedItem_def read_full_def ReadVarUint_write
          item_norm_def item_len_def zero_item_def)
  next
    case 3
    have info: "info_ok it" and par: "parent_ok it" and con: "content_ok it"
      and sub: "\<And>s. ei_ParentSub it = Some s \<Longrightarrow> bytes_fit s"
      using ok 3 by (auto simp: item_ok_def)
    have ref: "ei_ContentRef it \<noteq> 0" "ei_ContentRef it \<noteq> 10"
      using con by (auto simp: content_ok_def Let_def)
    obtain c where w: "writeItemContent it = Ret c"
      and r: "\<And>x rest. ei_ContentRef x = ei_ContentRef it \<Longrightarrow>
        readItemContent (c @ rest) x = Ret ((x\<lparr>ei_ContentData := content_norm it\<rparr>, content_len it), rest)"
      using content_read_back [OF con] by (metis outcome.inject(1))
    note defs = writeEncodedItem_def readEncodedItem_def read_full_def Let_def zero_item_def
    show ?thesis
      using info 3 w ref par sub
      by (cases "ei_OriginLeft it"; cases "ei_OriginRight it"; cases "ei_ParentSub it")
        (simp_all add: defs info_ok_def codec_simps readParentInfo_write r item_norm_def
          item_len_def no_origins_def)
  qed
qed

section \<open>One client's structs\<close>

text \<open>The structs of one client follow one another without a gap in the clock.\<close>

fun contiguous :: "EncodedItem list \<Rightarrow> bool" where
  "contiguous (i # j # is) = (ei_Clock j = ei_Clock i + item_len i \<and> contiguous (j # is))"
| "contiguous _ = True"

lemma read_structs_write:
  assumes "list_all item_ok its" "\<forall>it \<in> set its. ei_ClientID it = client" "contiguous its"
    and "its \<noteq> [] \<Longrightarrow> ei_Clock (hd its) = clock"
  shows "\<exists>b. write_seq writeEncodedItem its = Ret b \<and>
    (\<forall>ci si rest. read_structs ci si (length its) client clock (b @ rest) = Ret (map item_norm its, rest))"
  using assms
proof (induction its arbitrary: clock)
  case (Cons it its)
  obtain b where w: "writeEncodedItem it = Ret b"
    and r: "\<And>rest. readEncodedItem (b @ rest) (ei_ClientID it) (ei_Clock it) = Ret ((item_norm it, item_len it), rest)"
    using readEncodedItem_write [of it] Cons.prems(1) by auto
  have next_clock: "its \<noteq> [] \<Longrightarrow> ei_Clock (hd its) = ei_Clock it + item_len it"
    using Cons.prems(3) by (cases its) auto
  have "contiguous its" using Cons.prems(3) by (cases its) auto
  then obtain b' where "write_seq writeEncodedItem its = Ret b'"
    and "\<And>ci si rest. read_structs ci si (length its) client (ei_Clock it + item_len it) (b' @ rest)
        = Ret (map item_norm its, rest)"
    using Cons.IH [of "ei_Clock it + item_len it"] Cons.prems next_clock by auto
  then show ?case using w r Cons.prems by simp
qed simp

section \<open>All clients\<close>

text \<open>What the map of groups holds: for each client the structs of that client, in order.\<close>

lemma group_by_client_lookup:
  "gm_get (fold (\<lambda>item m. ds_append (ei_ClientID item) item m) items m) c =
    (let own = filter (\<lambda>it. ei_ClientID it = c) items in
     case gm_get m c of
       None \<Rightarrow> (if own = [] then None else Some own)
     | Some rs \<Rightarrow> Some (rs @ own))"
  by (induction items arbitrary: m)
    (auto simp: ds_append_def update_conv Let_def split: option.splits)

lemma gm_ok_ds_append: "gm_ok m \<Longrightarrow> gm_ok (ds_append c r m)"
  unfolding ds_append_def by (rule gm.inv_put)

lemma gm_ok_group: "gm_ok (group_by_client items)"
proof -
  have "gm_ok m \<Longrightarrow> gm_ok (fold (\<lambda>item m. ds_append (ei_ClientID item) item m) items m)" for m
    by (induction items arbitrary: m) (auto simp: gm_ok_ds_append)
  then show ?thesis by (simp add: group_by_client_def)
qed

lemma in_group_by_client:
  assumes "(c, its) \<in> set (group_by_client items)"
  shows "its = filter (\<lambda>it. ei_ClientID it = c) items" "its \<noteq> []"
proof -
  have "gm_get (group_by_client items) c = Some its"
    using assms gm_ok_group [of items] by (simp add: gm_ok_def)
  then show "its = filter (\<lambda>it. ei_ClientID it = c) items" "its \<noteq> []"
    using group_by_client_lookup [of items "[]" c]
    by (auto simp: group_by_client_def Let_def split: if_splits)
qed

lemma length_group_by_client: "length (group_by_client items) \<le> length items"
proof -
  let ?g = "group_by_client items"
  have "set (map fst ?g) \<subseteq> ei_ClientID ` set items"
  proof
    fix c assume "c \<in> set (map fst ?g)"
    then obtain its where "(c, its) \<in> set ?g" by auto
    then have "filter (\<lambda>it. ei_ClientID it = c) items \<noteq> []" using in_group_by_client by blast
    then show "c \<in> ei_ClientID ` set items" by (auto simp: filter_empty_conv)
  qed
  then have "card (set (map fst ?g)) \<le> card (set items)"
    by (meson List.finite_set card_image_le card_mono finite_imageI le_trans)
  also have "\<dots> \<le> length items" by (rule card_length)
  finally show ?thesis
    using gm_ok_group [of items] distinct_card [of "map fst ?g"] by (simp add: gm_ok_def)
qed

definition group_ok :: "u64 \<times> EncodedItem list \<Rightarrow> bool" where
  "group_ok g \<longleftrightarrow> snd g \<noteq> [] \<and> length (snd g) \<le> max_alloc \<and> list_all item_ok (snd g)
    \<and> list_all (\<lambda>it. ei_ClientID it = fst g) (snd g) \<and> contiguous (snd g)"

lemma read_clients_write:
  assumes "list_all group_ok gs"
  shows "\<exists>b. write_seq write_group gs = Ret b \<and>
    (\<forall>ci rest. read_clients ci (length gs) (b @ rest) = Ret (concat (map (\<lambda>g. map item_norm (snd g)) gs), rest))"
  using assms
proof (induction gs)
  case (Cons g gs)
  have g: "group_ok g" using Cons.prems by simp
  obtain b where w: "write_seq writeEncodedItem (snd g) = Ret b"
    and r: "\<And>ci rest. read_structs ci 0 (length (snd g)) (fst g) (ei_Clock (hd (snd g))) (b @ rest)
      = Ret (map item_norm (snd g), rest)"
    using read_structs_write [of "snd g" "fst g" "ei_Clock (hd (snd g))"] g
    by (auto simp: group_ok_def list_all_iff)
  obtain b' where w': "write_seq write_group gs = Ret b'"
    and r': "\<And>ci rest. read_clients ci (length gs) (b' @ rest)
      = Ret (concat (map (\<lambda>g. map item_norm (snd g)) gs), rest)"
    using Cons.IH Cons.prems by auto
  have first: "(if length (snd g) > 0 then ei_Clock (snd g ! 0) else 0) = ei_Clock (hd (snd g))"
    using g by (simp add: group_ok_def hd_conv_nth)
  have len: "unat (of_nat (length (snd g)) :: u64) = length (snd g)"
    using g by (simp add: group_ok_def)
  have wg: "write_group g = Ret (WriteVarUint (of_nat (length (snd g))) @ WriteVarUint (fst g) @
      WriteVarUint (ei_Clock (hd (snd g))) @ b)"
    using w by (simp only: write_group_def first Let_def obind.simps)
  show ?case
    using wg w' r r' len by (simp add: ReadVarUint_write)
qed simp

section \<open>Delete sets\<close>

lemma delete_range_eta [simp]: "\<lparr>edr_Clock = edr_Clock r, edr_Len = edr_Len r\<rparr> = r"
  by (cases r) simp

lemma read_ds_ranges_write:
  "read_ds_ranges di ri (length rs) c ds (concat (map write_range rs) @ rest)
    = Ret (fold (\<lambda>r. ds_append c r) rs ds, rest)"
  by (induction rs arbitrary: ri ds) (simp_all add: write_range_def ReadVarUint_write)

lemma fold_ds_append:
  "c \<notin> fst ` set ds \<Longrightarrow> fold (\<lambda>r. ds_append c r) rs (ds @ [(c, pre)]) = ds @ [(c, pre @ rs)]"
proof (induction rs arbitrary: pre)
  case (Cons r rs)
  have "gm_get (ds @ [(c, pre)]) c = Some pre"
    using Cons.prems by (simp add: map_of_append map_add_def weak_map_of_SomeI split: option.split)
      (metis domI dom_map_of_conv_image_fst)
  moreover have "gm_set c v (ds @ [(c, pre)]) = ds @ [(c, v)]" for v
    using Cons.prems by (induction ds) auto
  ultimately have "ds_append c r (ds @ [(c, pre)]) = ds @ [(c, pre @ [r])]"
    by (simp add: ds_append_def)
  with Cons show ?case by simp
qed simp

lemma fold_ds_append_fresh:
  assumes "c \<notin> fst ` set ds"
  shows "fold (\<lambda>r. ds_append c r) rs ds = (if rs = [] then ds else ds @ [(c, rs)])"
proof (cases rs)
  case (Cons r rs')
  have "gm_get ds c = None" using assms by (simp add: map_of_eq_None_iff)
  then have "ds_append c r ds = ds @ [(c, [r])]"
    using assms by (simp add: ds_append_def gm_set_fresh)
  then show ?thesis using Cons assms by (simp add: fold_ds_append)
qed simp

lemma read_ds_clients_write:
  assumes "gm_ok (ds @ es)" "list_all (\<lambda>e. length (snd e) \<le> max_alloc) es"
  shows "read_ds_clients di (length es) ds (concat (map write_ds_entry es) @ rest)
    = Ret (ds @ filter (\<lambda>(c, rs). rs \<noteq> []) es, rest)"
  using assms
proof (induction es arbitrary: di ds)
  case (Cons e es)
  obtain c rs where e: "e = (c, rs)" by fastforce
  have fresh: "c \<notin> fst ` set ds" and len: "unat (of_nat (length rs) :: u64) = length rs"
    using Cons.prems by (auto simp: e gm_ok_def)
  let ?ds = "fold (\<lambda>r. ds_append c r) rs ds"
  have "gm_ok (?ds @ es)"
    using Cons.prems(1) fresh by (auto simp: fold_ds_append_fresh gm_ok_def e)
  then have "read_ds_clients (Suc di) (length es) ?ds (concat (map write_ds_entry es) @ rest)
    = Ret (?ds @ filter (\<lambda>(c, rs). rs \<noteq> []) es, rest)"
    using Cons.prems(2) by (intro Cons.IH) auto
  moreover have "write_ds_entry e = WriteVarUint c @ WriteVarUint (of_nat (length rs)) @
      concat (map write_range rs)"
    by (simp add: e write_ds_entry_def)
  ultimately show ?case
    using len fresh
    by (simp add: e ReadVarUint_write read_ds_ranges_write fold_ds_append_fresh)
qed simp

section \<open>Whole updates\<close>

definition update_ok :: "UpdateV1 \<Rightarrow> bool" where
  "update_ok u \<longleftrightarrow>
    length (u_Items u) \<le> max_alloc \<and> list_all item_ok (u_Items u)
    \<and> list_all (\<lambda>g. contiguous (snd g)) (group_by_client (u_Items u))
    \<and> gm_ok (u_DeleteSet u) \<and> length (u_DeleteSet u) \<le> max_alloc
    \<and> list_all (\<lambda>e. length (snd e) \<le> max_alloc) (u_DeleteSet u)"

definition update_canon :: "UpdateV1 \<Rightarrow> UpdateV1" where
  "update_canon u =
    \<lparr>u_Items = concat (map (\<lambda>g. map item_norm (snd g)) (sort_desc (group_by_client (u_Items u)))),
     u_DeleteSet = filter (\<lambda>(c, rs). rs \<noteq> []) (sort_desc (u_DeleteSet u))\<rparr>"

lemma groups_ok:
  assumes "update_ok u" shows "list_all group_ok (sort_desc (group_by_client (u_Items u)))"
proof -
  have "group_ok (c, its)" if "(c, its) \<in> set (group_by_client (u_Items u))" for c its
    using in_group_by_client [OF that] assms that
    by (auto simp: group_ok_def update_ok_def list_all_iff intro: le_trans [OF length_filter_le])
  then show ?thesis by (auto simp: list_all_iff)
qed

lemma DecodeUpdateV1_Encode:
  assumes "update_ok u"
  shows "\<exists>b. EncodeUpdateV1 u = Ret b \<and>
    (\<forall>rest. DecodeUpdateV1 (b @ rest) = Ret (update_canon u))"
proof -
  let ?gs = "sort_desc (group_by_client (u_Items u))" and ?ds = "sort_desc (u_DeleteSet u)"
  obtain b where w: "write_seq write_group ?gs = Ret b"
    and r: "\<And>ci rest. read_clients ci (length ?gs) (b @ rest)
      = Ret (concat (map (\<lambda>g. map item_norm (snd g)) ?gs), rest)"
    using read_clients_write [OF groups_ok [OF assms]] by blast
  have "length ?gs \<le> max_alloc"
    using length_group_by_client [of "u_Items u"] assms by (simp add: update_ok_def)
  then have lg: "unat (of_nat (length ?gs) :: u64) = length ?gs" by (rule unat_of_length)
  have ld: "unat (of_nat (length ?ds) :: u64) = length ?ds"
    using assms by (intro unat_of_length) (simp add: update_ok_def)
  have rd: "read_ds_clients 0 (length ?ds) [] (concat (map write_ds_entry ?ds) @ rest)
      = Ret (filter (\<lambda>(c, rs). rs \<noteq> []) ?ds, rest)" for rest
    using read_ds_clients_write [of "[]" ?ds 0 rest] assms
    by (auto simp: update_ok_def list_all_iff)
  show ?thesis
    using w r lg ld rd
    by (simp add: EncodeUpdateV1_def writeUpdateV1_def DecodeUpdateV1_def readUpdateV1_def
        ReadVarUint_write Let_def update_canon_def del: length_sort_desc)
qed

section \<open>State vectors\<close>

lemma DecodeStateVector_Encode:
  assumes "gm_ok sv" "length sv \<le> max_alloc"
  shows "DecodeStateVectorV1 (EncodeStateVectorV1 sv @ rest) = Ret (sort_desc sv)"
proof -
  let ?enc = "\<lambda>(k, v). WriteVarUint k @ WriteVarUint v"
  have "read_seq read_sv_entry 0 (length (sort_desc sv)) (concat (map ?enc (sort_desc sv)) @ rest)
      = Ret (map id (sort_desc sv), rest)"
    by (rule read_seq_enc) (auto simp: read_sv_entry_def ReadVarUint_write)
  moreover have "fold (\<lambda>(client, clock). gm_set client clock) (sort_desc sv) [] = sort_desc sv"
    using gm_fill_distinct [of "[]" "sort_desc sv"] assms(1) by simp
  moreover have "unat (of_nat (length sv) :: u64) = length sv" using assms(2) by simp
  ultimately show ?thesis
    by (simp add: DecodeStateVectorV1_def EncodeStateVectorV1_def ReadVarUint_write)
qed

section \<open>How decoding can end\<close>

text \<open>
  Every input ends in a value, an error, or the panic of \<open>make\<close> on a length the sender chose;
  \<open>tame\<close> is that set of endings, and sequencing stays in it.
\<close>

definition tame :: "'a outcome \<Rightarrow> bool" where
  "tame m \<longleftrightarrow> m \<noteq> Diverge \<and> (\<forall>p. m = Panic p \<longrightarrow> p = MakeSliceLen)"

named_theorems tame_intros \<open>outcomes that are values, errors or the panic of make\<close>

lemma tame_basic [tame_intros]:
  "tame (Ret x)" "tame (Err e)" "tame (ReadVarUint bs)" "tame (read_full n bs)"
  "tame (make_slice k n)"
  by (auto simp: tame_def make_slice_def)

lemma tame_obind [tame_intros]:
  "tame m \<Longrightarrow> (\<And>x. m = Ret x \<Longrightarrow> tame (f x)) \<Longrightarrow> tame (obind m f)"
  by (cases m) (auto simp: tame_def)

lemma tame_owrap [tame_intros]: "tame m \<Longrightarrow> tame (owrap c ix m)"
  by (cases m) (auto simp: tame_def)

lemma tame_if [tame_intros]: "(b \<Longrightarrow> tame x) \<Longrightarrow> (\<not> b \<Longrightarrow> tame y) \<Longrightarrow> tame (if b then x else y)"
  by simp

lemma tame_prod [tame_intros]: "(\<And>a b. p = (a, b) \<Longrightarrow> tame (f a b)) \<Longrightarrow> tame (case p of (a, b) \<Rightarrow> f a b)"
  by (cases p) simp

lemma tame_prod_app [tame_intros]:
  "(\<And>a b. p = (a, b) \<Longrightarrow> tame (f a b c)) \<Longrightarrow> tame ((case p of (a, b) \<Rightarrow> f a b) c)"
  by (cases p) simp

lemma tame_Let [tame_intros]: "tame (f x) \<Longrightarrow> tame (let y = x in f y)"
  by simp

lemma tame_ReadVarBytes [tame_intros]: "tame (ReadVarBytes bs)" "tame (ReadVarString bs)"
  by (auto simp: ReadVarString_eq ReadVarBytes_def intro!: tame_intros)

lemma tame_read_seq [tame_intros]: "(\<And>i bs. tame (rd i bs)) \<Longrightarrow> tame (read_seq rd i n bs)"
  by (induction n arbitrary: i bs) (auto intro!: tame_intros)

text \<open>The indexed reads: the slice that was filled is long enough.\<close>

lemma tame_index [tame_intros]: "i < length xs \<Longrightarrow> tame (index_at xs i)"
  by (simp add: index_at_def tame_basic)

lemma tame_BEUint [tame_intros]: "3 < length b \<Longrightarrow> tame (BEUint32 b)" "7 < length b \<Longrightarrow> tame (BEUint64 b)"
  by (simp_all add: tame_def)

lemma tame_ReadAny [tame_intros]:
  "tame (ReadAny bs0)" "tame (read_any_obj n obj bs1)" "tame (read_any_arr n bs2)"
proof (induction bs0 and n obj bs1 and n bs2 rule: ReadAny_read_any_obj_read_any_arr.induct)
  case (2 tag bs)
  have "tag = 118 \<Longrightarrow> ReadVarUint bs = Ret (m, bs1) \<Longrightarrow> tame (read_any_obj (unat m) [] bs1)" for m bs1
    using 2(1) [of "(m, bs1)" m bs1] by simp
  moreover have "tag = 117 \<Longrightarrow> ReadVarUint bs = Ret (m, bs1) \<Longrightarrow> make_slice 16 (unat m) = Ret () \<Longrightarrow>
      tame (read_any_arr (unat m) bs1)" for m bs1
    using 2(2) [of "(m, bs1)" m bs1 "()"] by simp
  ultimately show ?case
    by (auto simp: ReadAny.simps(2) read_full_Ret intro!: tame_intros)
qed (auto intro!: tame_intros)

lemma tame_readItemContent [tame_intros]: "tame (readItemContent bs it)"
  unfolding readItemContent_def Let_def by (intro tame_intros) (clarify, drule read_seq_length, simp)

lemma tame_readEncodedID [tame_intros]: "tame (readEncodedID bs)"
  unfolding readEncodedID_def by (intro tame_intros)

lemma tame_readEncodedItem [tame_intros]: "tame (readEncodedItem bs c k)"
  unfolding readEncodedItem_def readParentInfo_def Let_def by (intro tame_intros) (simp add: read_full_Ret)

lemma tame_read_structs [tame_intros]: "tame (read_structs ci si n c k bs)"
  by (induction n arbitrary: si k bs) (auto intro!: tame_intros)

lemma tame_read_clients [tame_intros]: "tame (read_clients ci n bs)"
  by (induction n arbitrary: ci bs) (auto intro!: tame_intros)

lemma tame_read_ds_ranges [tame_intros]: "tame (read_ds_ranges di ri n c ds bs)"
  by (induction n arbitrary: ri ds bs) (auto intro!: tame_intros)

lemma tame_read_ds_clients [tame_intros]: "tame (read_ds_clients di n ds bs)"
  by (induction n arbitrary: di ds bs) (auto intro!: tame_intros)

lemma tame_DecodeUpdateV1 [tame_intros]: "tame (DecodeUpdateV1 bs)"
  unfolding DecodeUpdateV1_def readUpdateV1_def by (intro tame_intros)

lemma tame_DecodeStateVectorV1 [tame_intros]: "tame (DecodeStateVectorV1 bs)"
  unfolding DecodeStateVectorV1_def read_sv_entry_def by (intro tame_intros)

text \<open>A value or an error, with no panic at all.\<close>

definition ret_or_err :: "'a outcome \<Rightarrow> bool" where
  "ret_or_err m \<longleftrightarrow> (case m of Ret _ \<Rightarrow> True | Err _ \<Rightarrow> True | _ \<Rightarrow> False)"

lemma ret_or_err_basic [simp]:
  "ret_or_err (Ret x)" "ret_or_err (Err e)" "\<not> ret_or_err (Panic p)" "\<not> ret_or_err Diverge"
  by (simp_all add: ret_or_err_def)

lemma ret_or_err_obind: "ret_or_err m \<Longrightarrow> (\<And>x. m = Ret x \<Longrightarrow> ret_or_err (f x)) \<Longrightarrow> ret_or_err (obind m f)"
  by (cases m) simp_all

lemma tame_ret_or_err: "ret_or_err m \<Longrightarrow> tame m"
  by (cases m) (simp_all add: tame_def)

text \<open>The decoder of state vectors allocates nothing by a count, so it does not even panic.\<close>

lemma ret_or_err_owrap [simp]: "ret_or_err (owrap c ix m) = ret_or_err m"
  by (cases m) simp_all

lemma read_seq_ret_or_err: "(\<And>i bs. ret_or_err (rd i bs)) \<Longrightarrow> ret_or_err (read_seq rd i n bs)"
  by (induction n arbitrary: i bs) (auto intro!: ret_or_err_obind)

lemma ReadVarUint_ret_or_err: "ret_or_err (ReadVarUint bs)"
  by (cases "ReadVarUint bs") auto

lemma DecodeStateVectorV1_ret_or_err: "ret_or_err (DecodeStateVectorV1 bs)"
proof -
  have "ret_or_err (read_sv_entry i b)" for i b
    by (auto simp: read_sv_entry_def ReadVarUint_ret_or_err intro!: ret_or_err_obind)
  then show ?thesis
    by (auto simp: DecodeStateVectorV1_def ReadVarUint_ret_or_err intro!: ret_or_err_obind read_seq_ret_or_err)
qed

end
