(* ===== verification/SyncProtocol.thy ===== *)
theory SyncProtocol
  imports UpdateRoundtrip
begin

text \<open>
  \<open>protocol/sync.go\<close>: the framing of the y-protocols sync messages, a message type as a
  varint followed by a length-prefixed payload.
\<close>

definition MessageYjsSyncStep1 :: u64 where "MessageYjsSyncStep1 = 0"
definition MessageYjsSyncStep2 :: u64 where "MessageYjsSyncStep2 = 1"
definition MessageYjsUpdate :: u64 where "MessageYjsUpdate = 2"

definition WriteSyncStep1 :: "byte list \<Rightarrow> byte list" where
  "WriteSyncStep1 stateVector = WriteVarUint MessageYjsSyncStep1 @ WriteVarBytes stateVector"

definition WriteSyncStep2 :: "byte list \<Rightarrow> byte list" where
  "WriteSyncStep2 update = WriteVarUint MessageYjsSyncStep2 @ WriteVarBytes update"

definition WriteUpdate :: "byte list \<Rightarrow> byte list" where
  "WriteUpdate update = WriteVarUint MessageYjsUpdate @ WriteVarBytes update"

record SyncMessage =
  sm_Type :: u64
  sm_Payload :: "byte list"

definition ReadSyncMessage :: "byte list \<Rightarrow> (SyncMessage \<times> byte list) outcome" where
  "ReadSyncMessage bs =
    obind (owrap ''sync message type'' [] (ReadVarUint bs)) (\<lambda>(msgType, bs1).
    obind (owrap ''sync message payload'' [unat msgType] (ReadVarBytes bs1)) (\<lambda>(payload, bs2).
    Ret (\<lparr>sm_Type = msgType, sm_Payload = payload\<rparr>, bs2)))"

definition EncodeSyncStep1 :: "byte list \<Rightarrow> byte list" where
  "EncodeSyncStep1 stateVector = WriteSyncStep1 stateVector"

definition EncodeSyncStep2 :: "byte list \<Rightarrow> byte list" where
  "EncodeSyncStep2 update = WriteSyncStep2 update"

definition EncodeUpdate :: "byte list \<Rightarrow> byte list" where
  "EncodeUpdate update = WriteUpdate update"

lemmas sync_writers = EncodeSyncStep1_def EncodeSyncStep2_def EncodeUpdate_def
  WriteSyncStep1_def WriteSyncStep2_def WriteUpdate_def

text \<open>The frame a writer produces for a message of any type.\<close>

definition frame :: "SyncMessage \<Rightarrow> byte list" where
  "frame m = WriteVarUint (sm_Type m) @ WriteVarBytes (sm_Payload m)"

lemma frames:
  "EncodeSyncStep1 p = frame \<lparr>sm_Type = MessageYjsSyncStep1, sm_Payload = p\<rparr>"
  "EncodeSyncStep2 p = frame \<lparr>sm_Type = MessageYjsSyncStep2, sm_Payload = p\<rparr>"
  "EncodeUpdate p = frame \<lparr>sm_Type = MessageYjsUpdate, sm_Payload = p\<rparr>"
  by (simp_all add: sync_writers frame_def)

lemma ReadSyncMessage_frame [codec_simps]:
  "bytes_fit (sm_Payload m) \<Longrightarrow> ReadSyncMessage (frame m @ rest) = Ret (m, rest)"
  by (cases m) (simp add: ReadSyncMessage_def frame_def codec_simps)

lemma ReadSyncMessage_consumes:
  assumes "ReadSyncMessage bs = Ret (m, rest)"
  shows "\<exists>c. c \<noteq> [] \<and> bs = c @ rest"
proof -
  from assms obtain t bs1 p where 1: "ReadVarUint bs = Ret (t, bs1)" and 2: "ReadVarBytes bs1 = Ret (p, rest)"
    by (auto simp: ReadSyncMessage_def outcome_simps split: prod.splits)
  obtain c1 where "c1 \<noteq> []" "bs = c1 @ bs1" using varuint.dec_consumes [OF 1] by blast
  moreover obtain c2 where "bs1 = c2 @ rest" using varbytes.dec_consumes [OF 2] by blast
  ultimately have "c1 @ c2 \<noteq> [] \<and> bs = (c1 @ c2) @ rest" by simp
  then show ?thesis by blast
qed

interpretation syncmsg: codec ReadSyncMessage frame id "\<lambda>m. bytes_fit (sm_Payload m)"
proof unfold_locales
  show "ReadSyncMessage bs \<noteq> Diverge" for bs
    by (auto simp: ReadSyncMessage_def outcome_simps split: prod.splits)
qed (simp_all add: ReadSyncMessage_frame ReadSyncMessage_consumes)

end
