(* ===== verification/Nesting.thy ===== *)
theory Nesting
  imports AnyVal
begin

text \<open>
  The depth of the calls of \<open>ReadAny\<close>, the one recursive reader of \<open>protocol/update.go\<close>: the reader
  on a stack that holds a given number of its calls, and how large that stack must be. Go ends the
  whole process when a stack is exhausted.
\<close>

section \<open>Reading on a bounded stack\<close>

text \<open>The two loops of \<open>ReadAny\<close> around any reader.\<close>

fun obj_loop :: "(byte list \<Rightarrow> (goany \<times> byte list) outcome) \<Rightarrow> nat \<Rightarrow> (gostring, goany) gomap \<Rightarrow> byte list
    \<Rightarrow> (goany \<times> byte list) outcome" where
  "obj_loop rd 0 obj bs = Ret (GObj obj, bs)"
| "obj_loop rd (Suc n) obj bs =
    obind (ReadVarString bs) (\<lambda>(k, bs1). obind (rd bs1) (\<lambda>(v, bs2). obj_loop rd n (gm_set k v obj) bs2))"

fun arr_loop :: "(byte list \<Rightarrow> (goany \<times> byte list) outcome) \<Rightarrow> nat \<Rightarrow> byte list \<Rightarrow> (goany list \<times> byte list) outcome" where
  "arr_loop rd 0 bs = Ret ([], bs)"
| "arr_loop rd (Suc n) bs =
    obind (rd bs) (\<lambda>(v, bs1). obind (arr_loop rd n bs1) (\<lambda>(vs, bs2). Ret (v # vs, bs2)))"

text \<open>\<open>ReadAny\<close> with room for \<open>k\<close> calls: the tags of objects and arrays call it again.\<close>

fun ReadAny_stack :: "nat \<Rightarrow> byte list \<Rightarrow> (goany \<times> byte list) outcome" where
  "ReadAny_stack 0 bs = Panic StackOverflow"
| "ReadAny_stack (Suc k) [] = ReadAny []"
| "ReadAny_stack (Suc k) (tag # bs) =
    (if tag = 118 then
       obind (ReadVarUint bs) (\<lambda>(n, bs1). obj_loop (ReadAny_stack k) (unat n) [] bs1)
     else if tag = 117 then
       obind (ReadVarUint bs) (\<lambda>(n, bs1).
       obind (make_slice 16 (unat n)) (\<lambda>_.
       obind (arr_loop (ReadAny_stack k) (unat n) bs1) (\<lambda>(arr, bs2). Ret (GArr arr, bs2))))
     else ReadAny (tag # bs))"

section \<open>One call for every byte is enough\<close>

lemma obj_loop_ReadAny:
  assumes "\<And>bs'. length bs' \<le> length bs \<Longrightarrow> rd bs' = ReadAny bs'"
  shows "obj_loop rd n obj bs = read_any_obj n obj bs"
  using assms
proof (induction n arbitrary: obj bs)
  case (Suc n)
  show ?case
  proof (cases "ReadVarString bs")
    case (Ret x)
    obtain k bs1 where x: "x = (k, bs1)" by (cases x)
    have 1: "length bs1 < length bs" using varstring.dec_shorter Ret x by blast
    show ?thesis
    proof (cases "ReadAny bs1")
      case (Ret y)
      obtain v bs2 where y: "y = (v, bs2)" by (cases y)
      have "length bs2 \<le> length bs1" using ReadAny_consumes(1) Ret y by force
      then have "obj_loop rd n (gm_set k v obj) bs2 = read_any_obj n (gm_set k v obj) bs2"
        using 1 by (intro Suc.IH Suc.prems) simp
      then show ?thesis using Ret \<open>ReadVarString bs = Ret x\<close> x y 1 Suc.prems [of bs1] by simp
    qed (use Ret x 1 Suc.prems [of bs1] in simp_all)
  qed simp_all
qed simp

lemma arr_loop_ReadAny:
  assumes "\<And>bs'. length bs' \<le> length bs \<Longrightarrow> rd bs' = ReadAny bs'"
  shows "arr_loop rd n bs = read_any_arr n bs"
  using assms
proof (induction n arbitrary: bs)
  case (Suc n)
  show ?case
  proof (cases "ReadAny bs")
    case (Ret y)
    obtain v bs1 where y: "y = (v, bs1)" by (cases y)
    have "length bs1 \<le> length bs" using ReadAny_consumes(1) Ret y by force
    then have "arr_loop rd n bs1 = read_any_arr n bs1" by (intro Suc.IH Suc.prems) simp
    then show ?thesis using Ret y Suc.prems [of bs] by simp
  qed (use Suc.prems [of bs] in simp_all)
qed simp

lemma ReadAny_stack_enough: "length bs < k \<Longrightarrow> ReadAny_stack k bs = ReadAny bs"
proof (induction k arbitrary: bs)
  case (Suc k)
  show ?case
  proof (cases bs)
    case (Cons tag b)
    have "obj_loop (ReadAny_stack k) n [] b1 = read_any_obj n [] b1 \<and> arr_loop (ReadAny_stack k) n b1 = read_any_arr n b1"
      if "ReadVarUint b = Ret (m, b1)" for m b1 n
    proof -
      have "length b1 < k" using varuint.dec_shorter [OF that] Suc.prems Cons by simp
      then show ?thesis by (intro conjI obj_loop_ReadAny arr_loop_ReadAny Suc.IH) simp_all
    qed
    then show ?thesis unfolding Cons by (auto simp: ReadAny.simps(2) intro!: obind_cong)
  qed simp
qed simp

section \<open>A fixed stack is not\<close>

fun deep :: "nat \<Rightarrow> goany" where
  "deep 0 = GNil"
| "deep (Suc k) = GArr [deep k]"

lemma deep_bytes: "WriteAny (deep (Suc k)) = 117 # 1 # WriteAny (deep k)" "length (WriteAny (deep k)) = 2 * k + 1"
proof -
  show step: "WriteAny (deep (Suc k)) = 117 # 1 # WriteAny (deep k)" for k by (simp add: WriteVarUint.simps)
  show "length (WriteAny (deep k)) = 2 * k + 1" by (induction k) (simp, simp add: step del: deep.simps)
qed

lemma deep_ok: "any_ok (deep k)" "any_norm (deep k) = deep k"
  by (induction k) (simp_all add: max_alloc_def)

lemma ReadAny_stack_deep: "ReadAny_stack k (WriteAny (deep k) @ rest) = Panic StackOverflow"
proof (induction k)
  case (Suc k)
  have "ReadVarUint (1 # bs) = Ret (1, bs)" for bs
    using ReadVarUint_write [of 1 bs] by (simp add: WriteVarUint.simps)
  then show ?case using Suc by (simp add: deep_bytes make_slice_def max_alloc_def del: deep.simps)
qed simp

end
