(* ===== verification/WireProperties.thy ===== *)
theory WireProperties
  imports SyncProtocol Nesting
begin

text \<open>
  The properties of the wire formats (\<open>protocol/varint.go\<close>, \<open>protocol/update.go\<close>,
  \<open>protocol/sync.go\<close>): what is written is read back, what is read is bounded, and how reading
  can end on bytes that nobody wrote.
\<close>

section \<open>Updates\<close>

text \<open>
  C8. An update that the writer is meant for encodes without error, and decoding the bytes,
  whatever follows them, gives it back in canonical form: clients in descending order, and
  the fields and content that the wire carries.
\<close>
theorem update_roundtrip:
  assumes "update_ok u"
  shows "\<exists>b. EncodeUpdateV1 u = Ret b \<and> (\<forall>rest. DecodeUpdateV1 (b @ rest) = Ret (update_canon u))"
  using assms by (rule DecodeUpdateV1_Encode)

definition sample_item :: EncodedItem where
  "sample_item = zero_item\<lparr>ei_ClientID := 5, ei_Clock := 0, ei_Length := 2, ei_InfoByte := 4,
     ei_ContentRef := 4, ei_ContentData := GString [0x68, 0x69], ei_ParentIsYKey := True,
     ei_ParentYKey := [0x74]\<rparr>"

definition sample_update :: UpdateV1 where
  "sample_update = \<lparr>u_Items = [sample_item], u_DeleteSet = [(7, [\<lparr>edr_Clock = 1, edr_Len = 3\<rparr>])]\<rparr>"

lemma sample_update_ok: "update_ok sample_update"
  by (simp add: update_ok_def sample_update_def sample_item_def item_ok_def info_ok_def parent_ok_def
      content_ok_def zero_item_def group_by_client_def ds_append_def bytes_fit_def max_alloc_def)

theorem update_roundtrip_witness:
  "\<exists>b. EncodeUpdateV1 sample_update = Ret b \<and>
    (\<forall>rest. DecodeUpdateV1 (b @ rest) = Ret (update_canon sample_update))"
  using update_roundtrip [OF sample_update_ok] .

text \<open>The entries of a map in another order.\<close>

lemma gm_same_length: "gm_same m m' \<Longrightarrow> length m = length m'"
  by (auto simp: gm_same_def gm_ok_def) (metis distinct_card distinct_map length_map)

lemma gm_same_map:
  assumes "gm_same m m'"
  shows "gm_same (map (\<lambda>(k, v). (k, f v)) m) (map (\<lambda>(k, v). (k, f v)) m')"
  using assms by (simp add: gm_same_def gm_ok_def comp_def split_beta)

lemma WriteAny_order:
  assumes "any_ok (GObj kvs)" "any_ok (GObj kvs')" "WriteAny (GObj kvs) = WriteAny (GObj kvs')"
  shows "map fst kvs = map fst kvs'"
proof -
  have "any_norm (GObj kvs) = any_norm (GObj kvs')"
    using ReadAny_write [OF assms(1), of "[]"] ReadAny_write [OF assms(2), of "[]"] assms(3) by simp
  then have "map fst (map (\<lambda>(k, v). (k, any_norm v)) kvs) = map fst (map (\<lambda>(k, v). (k, any_norm v)) kvs')" by simp
  then show ?thesis by (simp add: comp_def split_beta)
qed

text \<open>
  C31. Which map orders reach the wire. The order in which Go visits a delete set or a state vector
  does not: permuting them leaves the bytes as they are. The order in which \<open>WriteAny\<close> visits a map
  that is a value does, and is the order of the keys in the bytes; but the bytes of two orders of the
  same map are read back as the same map.
\<close>
theorem encoding_order_independent:
  assumes "gm_same ds ds'" and "gm_same sv sv'" and "gm_same kvs kvs'" and "any_ok (GObj kvs)"
  shows "EncodeUpdateV1 \<lparr>u_Items = items, u_DeleteSet = ds\<rparr> = EncodeUpdateV1 \<lparr>u_Items = items, u_DeleteSet = ds'\<rparr> \<and>
    EncodeStateVectorV1 sv = EncodeStateVectorV1 sv' \<and>
    (WriteAny (GObj kvs) = WriteAny (GObj kvs') \<longrightarrow> map fst kvs = map fst kvs') \<and>
    (\<exists>m m'. ReadAny (WriteAny (GObj kvs) @ rest) = Ret (GObj m, rest) \<and>
      ReadAny (WriteAny (GObj kvs') @ rest) = Ret (GObj m', rest) \<and> gm_same m m')"
proof (intro conjI impI)
  have ok: "any_ok (GObj kvs')"
    using assms(3,4) gm_same_length [OF assms(3)] by (auto simp: gm_same_def list_all_iff)
  show "map fst kvs = map fst kvs'" if "WriteAny (GObj kvs) = WriteAny (GObj kvs')"
    by (rule WriteAny_order [OF assms(4) ok that])
  show "\<exists>m m'. ReadAny (WriteAny (GObj kvs) @ rest) = Ret (GObj m, rest) \<and>
      ReadAny (WriteAny (GObj kvs') @ rest) = Ret (GObj m', rest) \<and> gm_same m m'"
    using ReadAny_write [OF assms(4), of rest] ReadAny_write [OF ok, of rest] gm_same_map [OF assms(3), of any_norm] by auto
  show "EncodeUpdateV1 \<lparr>u_Items = items, u_DeleteSet = ds\<rparr> = EncodeUpdateV1 \<lparr>u_Items = items, u_DeleteSet = ds'\<rparr>"
    by (simp add: EncodeUpdateV1_def writeUpdateV1_def sort_desc_same [OF assms(1)])
  show "EncodeStateVectorV1 sv = EncodeStateVectorV1 sv'"
    by (simp add: EncodeStateVectorV1_def sort_desc_same [OF assms(2)] gm_same_length [OF assms(2)])
qed

theorem encoding_order_independent_witness:
  "EncodeUpdateV1 \<lparr>u_Items = [], u_DeleteSet = [(1, []), (2, [])]\<rparr> =
     EncodeUpdateV1 \<lparr>u_Items = [], u_DeleteSet = [(2, []), (1, [])]\<rparr> \<and>
   EncodeStateVectorV1 [(3, 4), (5, 6)] = EncodeStateVectorV1 [(5, 6), (3, 4)] \<and>
   WriteAny (GObj [([0x61], GNil), ([0x62], GBool True)]) \<noteq> WriteAny (GObj [([0x62], GBool True), ([0x61], GNil)])"
proof -
  let ?m = "[([0x61 :: byte], GNil), ([0x62], GBool True)]" and ?m' = "[([0x62], GBool True), ([0x61], GNil)]"
  have "gm_same [(1 :: u64, []), (2, [])] [(2, []), (1, [])]" "gm_same [(3 :: u64, 4 :: u64), (5, 6)] [(5, 6), (3, 4)]" "gm_same ?m ?m'"
    "any_ok (GObj ?m)"
    by (auto simp: gm_same_def bytes_fit_def max_alloc_def)
  from encoding_order_independent [OF this, of "[]" "[]"] show ?thesis by (elim conjE) (simp del: WriteAny.simps)
qed

text \<open>
  C32. On any bytes at all, decoding an update or a state vector ends with a value or an error, except
  that \<open>make\<close> panics when the bytes ask for a slice that cannot be allocated: no read of a slice is
  out of range. The recursion of \<open>ReadAny\<close>, the only one, needs a stack for no more calls than there
  are bytes; but no fixed stack is enough, as \<open>2 * k + 1\<close> bytes exhaust one that holds \<open>k\<close> calls.
\<close>
theorem decoders_total:
  "((\<exists>u. DecodeUpdateV1 bs = Ret u) \<or> (\<exists>e. DecodeUpdateV1 bs = Err e) \<or> DecodeUpdateV1 bs = Panic MakeSliceLen) \<and>
   ((\<exists>sv. DecodeStateVectorV1 bs = Ret sv) \<or> (\<exists>e. DecodeStateVectorV1 bs = Err e)) \<and>
   ReadAny_stack (Suc (length bs)) bs = ReadAny bs \<and>
   ReadAny_stack k (WriteAny (deep k)) = Panic StackOverflow \<and> length (WriteAny (deep k)) = 2 * k + 1"
proof (intro conjI)
  show "(\<exists>u. DecodeUpdateV1 bs = Ret u) \<or> (\<exists>e. DecodeUpdateV1 bs = Err e) \<or> DecodeUpdateV1 bs = Panic MakeSliceLen"
    using tame_DecodeUpdateV1 [of bs] by (cases "DecodeUpdateV1 bs") (auto simp: tame_def)
  show "(\<exists>sv. DecodeStateVectorV1 bs = Ret sv) \<or> (\<exists>e. DecodeStateVectorV1 bs = Err e)"
    using DecodeStateVectorV1_ret_or_err [of bs] by (cases "DecodeStateVectorV1 bs") simp_all
qed (use ReadAny_stack_enough ReadAny_stack_deep [of k "[]"] deep_bytes(2) in simp_all)

text \<open>
  A state vector is read back as the same map: every client has the clock it was written
  with, whatever the order of the entries and whatever follows.
\<close>
lemma state_vector_roundtrip:
  assumes "gm_ok sv" and "length sv \<le> max_alloc"
  shows "\<exists>sv'. DecodeStateVectorV1 (EncodeStateVectorV1 sv @ rest) = Ret sv' \<and> gm_same sv sv'"
  using DecodeStateVector_Encode [OF assms] assms(1) by (auto simp: gm_same_def)

section \<open>Messages\<close>

text \<open>
  C34. A stream of sync messages is read back message by message, and nothing of one message
  leaks into the next.
\<close>
theorem sync_stream_roundtrip:
  assumes "list_all (\<lambda>m. bytes_fit (sm_Payload m)) ms"
  shows "read_seq (\<lambda>_. ReadSyncMessage) 0 (length ms) (concat (map frame ms) @ rest) = Ret (ms, rest)"
  using read_seq_enc [of ms "\<lambda>_. ReadSyncMessage" frame id 0 rest] assms
  by (auto simp: list_all_iff ReadSyncMessage_frame)

definition sample_messages :: "SyncMessage list" where
  "sample_messages = [\<lparr>sm_Type = 0, sm_Payload = [0]\<rparr>, \<lparr>sm_Type = 2, sm_Payload = []\<rparr>]"

theorem sync_stream_roundtrip_witness:
  "read_seq (\<lambda>_. ReadSyncMessage) 0 (length sample_messages) (concat (map frame sample_messages) @ [9]) =
    Ret (sample_messages, [9])"
  by (rule sync_stream_roundtrip) (simp add: sample_messages_def bytes_fit_def max_alloc_def)

text \<open>
  The three kinds of sync message are told apart on the wire: the bytes of a step-1, a
  step-2 and an update message read back with their own type and payload, and equal bytes
  come from equal payloads of the same kind.
\<close>
theorem sync_kinds:
  assumes "bytes_fit p" and "bytes_fit q"
  shows "ReadSyncMessage (EncodeSyncStep1 p @ rest) = Ret (\<lparr>sm_Type = MessageYjsSyncStep1, sm_Payload = p\<rparr>, rest) \<and>
    ReadSyncMessage (EncodeSyncStep2 p @ rest) = Ret (\<lparr>sm_Type = MessageYjsSyncStep2, sm_Payload = p\<rparr>, rest) \<and>
    ReadSyncMessage (EncodeUpdate p @ rest) = Ret (\<lparr>sm_Type = MessageYjsUpdate, sm_Payload = p\<rparr>, rest) \<and>
    EncodeSyncStep1 p \<noteq> EncodeSyncStep2 q \<and> EncodeSyncStep1 p \<noteq> EncodeUpdate q \<and>
    EncodeSyncStep2 p \<noteq> EncodeUpdate q"
  using assms ReadSyncMessage_frame [of "\<lparr>sm_Type = MessageYjsSyncStep1, sm_Payload = p\<rparr>" "[]"]
    ReadSyncMessage_frame [of "\<lparr>sm_Type = MessageYjsSyncStep2, sm_Payload = p\<rparr>" "[]"]
    ReadSyncMessage_frame [of "\<lparr>sm_Type = MessageYjsSyncStep2, sm_Payload = q\<rparr>" "[]"]
    ReadSyncMessage_frame [of "\<lparr>sm_Type = MessageYjsUpdate, sm_Payload = q\<rparr>" "[]"]
  by (auto simp: frames ReadSyncMessage_frame MessageYjsSyncStep1_def MessageYjsSyncStep2_def MessageYjsUpdate_def)

section \<open>Numbers, strings, values\<close>

text \<open>
  C37. A varint takes at most ten bytes and is read back exactly; and on any bytes the reader
  either fails with an error or consumes between one and ten of them.
\<close>
theorem varuint_roundtrip_and_bound:
  "ReadVarUint (WriteVarUint v @ rest) = Ret (v, rest) \<and> length (WriteVarUint v) \<le> 10 \<and>
   ((\<exists>e. ReadVarUint bs = Err e) \<or>
    (\<exists>w c rest'. ReadVarUint bs = Ret (w, rest') \<and> bs = c @ rest' \<and> 1 \<le> length c \<and> length c \<le> 10))"
proof -
  have "(\<exists>e. ReadVarUint bs = Err e) \<or>
    (\<exists>w c rest'. ReadVarUint bs = Ret (w, rest') \<and> bs = c @ rest' \<and> 1 \<le> length c \<and> length c \<le> 10)"
  proof (cases "ReadVarUint bs")
    case (Ret x)
    then obtain w rest' where x: "ReadVarUint bs = Ret (w, rest')" by (cases x) auto
    then obtain c where "c \<noteq> []" "bs = c @ rest'" "length c \<le> 10" using ReadVarUint_bound by blast
    with x show ?thesis by (cases c) auto
  qed auto
  then show ?thesis by (simp add: ReadVarUint_write length_WriteVarUint)
qed

text \<open>
  Length-prefixed bytes and strings are read back exactly, and whatever the reader
  returns on other input is a contiguous part of that input, so a declared length never
  makes it return bytes that were not there.
\<close>
lemma varbytes_roundtrip_and_bound:
  assumes "bytes_fit b"
  shows "ReadVarBytes (WriteVarBytes b @ rest) = Ret (b, rest) \<and>
    ReadVarString (WriteVarString b @ rest) = Ret (b, rest) \<and>
    (\<forall>bs r rest'. ReadVarBytes bs = Ret (r, rest') \<longrightarrow> (\<exists>pre. pre \<noteq> [] \<and> bs = pre @ r @ rest'))"
  using assms ReadVarBytes_consumes by (auto simp: ReadVarBytes_write ReadVarString_write)

text \<open>
  C35. A dynamic value, however deeply nested, is read back as itself up to the documented
  normal form: an \<open>int\<close> comes back as an \<open>int64\<close> and a value of a type the format does not
  know as null.
\<close>
theorem any_roundtrip:
  assumes "any_ok v"
  shows "ReadAny (WriteAny v @ rest) = Ret (any_norm v, rest)"
  using assms by (rule anyval.dec_enc)

theorem any_roundtrip_witness:
  "ReadAny (WriteAny (GObj [([0x6b], GArr [GInt 5, GBool True, GNil])]) @ [1]) =
    Ret (GObj [([0x6b], GArr [GInt64 5, GBool True, GNil])], [1])"
  using any_roundtrip [of "GObj [([0x6b], GArr [GInt 5, GBool True, GNil])]" "[1]"]
  by (simp add: bytes_fit_def max_alloc_def)

text \<open>
  Text is UTF-8: converting valid runes to a string and back is the identity, every
  string decodes to valid runes, and cutting a string at a rune offset cuts its rune sequence
  there.
\<close>
lemma runes_roundtrip:
  assumes "list_all valid_rune rs"
  shows "runes_of (string_of_runes rs) = rs \<and> list_all valid_rune (runes_of s) \<and>
    runes_of (string_of_runes (take n (runes_of s))) = take n (runes_of s) \<and>
    runes_of (string_of_runes (drop n (runes_of s))) = drop n (runes_of s)"
  using assms by (simp add: runes_of_string_of_runes runes_of_valid)

text \<open>
  The two length measures of the code differ: the decoder counts UTF-16 code units, the
  editing operations count runes, and they agree exactly on the strings without a
  supplementary character.
\<close>
theorem length_measures_agree_iff:
  "utf16Len s = rune_count s \<longleftrightarrow> list_all (\<lambda>r. r < 0x10000) (runes_of s)"
proof -
  have "length (filter (\<lambda>r. 0x10000 \<le> r) rs) = 0 \<longleftrightarrow> list_all (\<lambda>r. r < (0x10000 :: nat)) rs" for rs
    by (induction rs) auto
  then show ?thesis by (simp add: utf16Len_eq)
qed

end
