(* ===== verification/Store.thy ===== *)
theory Store
  imports UpdateRoundtrip
begin

text \<open>
  \<open>id.go\<close>, \<open>item.go\<close> and \<open>store.go\<close>: identifiers, items, the struct store and delete sets.

  Items are mutable and shared through pointers (the store, the \<open>Left\<close> and \<open>Right\<close> links, the
  lists of a transaction), so they live in an explicit heap, a list whose indices are the
  addresses; \<open>&Item{...}\<close> appends. A shared type is created once per name and stays
  registered in the document under it, so a pointer to one (\<open>Item.Parent\<close>) is its name.
\<close>

section \<open>Identifiers\<close>

datatype ID = mkID (Client: u64) (Clock: u64)

text \<open>\<open>ID.String\<close>: \<open>%d\<close> writes a number's decimal digits. Different identifiers print differently.\<close>

fun decimal :: "nat \<Rightarrow> gostring" where
  "decimal n = (if n < 10 then [byte_of_nat (48 + n)] else decimal (n div 10) @ [byte_of_nat (48 + n mod 10)])"

declare decimal.simps [simp del]

definition ID_String :: "ID \<Rightarrow> gostring" where
  "ID_String i = gostr ''('' @ decimal (unat (Client i)) @ gostr '','' @ decimal (unat (Clock i)) @ gostr '')''"

lemma decimal_digits: "\<forall>b \<in> set (decimal n). 48 \<le> unat b"
proof (induction n rule: decimal.induct)
  case (1 n)
  have "48 \<le> unat (byte_of_nat (48 + m))" if "m < 10" for m using that by simp
  then show ?case using 1 by (subst decimal.simps) auto
qed

lemma decimal_value: "fold (\<lambda>b v. 10 * v + (unat b - 48)) (decimal n) 0 = n"
proof (induction n rule: decimal.induct)
  case (1 n)
  show ?case
  proof (cases "n < 10")
    case False
    then show ?thesis using 1 by (subst decimal.simps) simp
  qed (subst decimal.simps, simp)
qed

lemma decimal_inj: "decimal m = decimal n \<Longrightarrow> m = n"
  by (metis decimal_value)

lemma ID_String_inj: "ID_String i = ID_String j \<Longrightarrow> i = j"
proof -
  let ?c = "0x2C :: byte"
  assume "ID_String i = ID_String j"
  then have eq: "decimal (unat (Client i)) @ ?c # decimal (unat (Clock i)) = decimal (unat (Client j)) @ ?c # decimal (unat (Clock j))"
    by (simp add: ID_String_def gostr_def)
  have "?c \<notin> set (decimal n)" for n using decimal_digits [of n] by fastforce
  with eq have "decimal (unat (Client i)) = decimal (unat (Client j))" "decimal (unat (Clock i)) = decimal (unat (Clock j))"
    by (simp_all add: append_Cons_eq_iff)
  then show "i = j" by (cases i; cases j) (auto dest!: decimal_inj intro: unsigned_word_eqI)
qed

definition compareIDs :: "ID \<Rightarrow> ID \<Rightarrow> int" where
  "compareIDs a b =
    (if Client a < Client b then -1
     else if Client a > Client b then 1
     else if Clock a < Clock b then -1
     else if Clock a > Clock b then 1
     else 0)"

text \<open>It is the sign of a linear order: by client, then by clock.\<close>

lemma compareIDs_le: "compareIDs a b \<le> 0 \<longleftrightarrow> Client a < Client b \<or> Client a = Client b \<and> Clock a \<le> Clock b"
  by (auto simp: compareIDs_def)

instantiation ID :: linorder
begin

definition less_eq_ID :: "ID \<Rightarrow> ID \<Rightarrow> bool" where
  "less_eq_ID a b \<longleftrightarrow> compareIDs a b \<le> 0"

definition less_ID :: "ID \<Rightarrow> ID \<Rightarrow> bool" where
  "less_ID a b \<longleftrightarrow> compareIDs a b < 0"

instance
proof
  fix a b c :: ID
  show "(a < b) = (a \<le> b \<and> \<not> b \<le> a)"
    by (auto simp: less_ID_def less_eq_ID_def compareIDs_def)
  show "a \<le> a" by (simp add: less_eq_ID_def compareIDs_def)
  show "a \<le> b \<Longrightarrow> b \<le> c \<Longrightarrow> a \<le> c" by (auto simp: less_eq_ID_def compareIDs_le)
  show "a \<le> b \<Longrightarrow> b \<le> a \<Longrightarrow> a = b"
    by (cases a; cases b) (auto simp: less_eq_ID_def compareIDs_le)
  show "a \<le> b \<or> b \<le> a" by (auto simp: less_eq_ID_def compareIDs_le)
qed

end

lemma compareIDs_less: "compareIDs a b < 0 \<longleftrightarrow> a < b"
  by (simp add: less_ID_def)

lemma compareIDs_greater: "compareIDs a b > 0 \<longleftrightarrow> b < a"
  by (auto simp: less_ID_def compareIDs_def)

lemma compareIDs_zero: "compareIDs a b = 0 \<longleftrightarrow> a = b"
  by (cases a; cases b) (auto simp: compareIDs_def)

section \<open>Items\<close>

definition contentString :: byte where [simp]: "contentString = 4"
definition contentAny :: byte where [simp]: "contentAny = 8"
definition contentType :: byte where [simp]: "contentType = 7"
definition contentDeleted :: byte where [simp]: "contentDeleted = 1"
definition contentBinary :: byte where [simp]: "contentBinary = 3"
definition contentEmbed :: byte where [simp]: "contentEmbed = 5"
definition contentFormat :: byte where [simp]: "contentFormat = 6"

type_synonym addr = nat

record Item =
  it_ID :: ID
  it_Left :: "addr option"
  it_Right :: "addr option"
  it_OriginLeft :: "ID option"
  it_OriginRight :: "ID option"
  it_Parent :: "gostring option"
  it_ParentSub :: "gostring option"
  it_Kind :: byte
  it_Content :: goany
  it_Length :: u64
  it_Deleted :: bool
  it_parentName :: gostring

text \<open>The zero value of the struct, which a Go composite literal completes.\<close>

definition zero_Item :: Item where
  "zero_Item = \<lparr>it_ID = mkID 0 0, it_Left = None, it_Right = None, it_OriginLeft = None,
     it_OriginRight = None, it_Parent = None, it_ParentSub = None, it_Kind = 0, it_Content = GNil,
     it_Length = 0, it_Deleted = False, it_parentName = []\<rparr>"

definition strContent :: "Item \<Rightarrow> gostring outcome" where
  "strContent it =
    (if it_Kind it = contentString then
       (case it_Content it of GString s \<Rightarrow> Ret s | _ \<Rightarrow> Panic TypeAssertion)
     else Ret [])"

type_synonym heap = "Item list"

section \<open>The struct store\<close>

type_synonym StructStore = "(u64, addr list) gomap"

text \<open>Reading a missing key of a map of slices gives the nil slice.\<close>

definition store_items :: "StructStore \<Rightarrow> u64 \<Rightarrow> addr list" where
  "store_items s c = (case gm_get s c of None \<Rightarrow> [] | Some items \<Rightarrow> items)"

definition newStructStore :: StructStore where
  "newStructStore = []"

definition getState :: "heap \<Rightarrow> StructStore \<Rightarrow> u64 \<Rightarrow> u64" where
  "getState h s clientID =
    (let items = store_items s clientID in
     if length items = 0 then 0
     else let lst = h ! last items in Clock (it_ID lst) + it_Length lst)"

definition stateVector :: "heap \<Rightarrow> StructStore \<Rightarrow> (u64, u64) gomap" where
  "stateVector h s = map (\<lambda>(client, _). (client, getState h s client)) s"

definition addItem :: "heap \<Rightarrow> StructStore \<Rightarrow> addr \<Rightarrow> StructStore" where
  "addItem h s a =
    (let c = Client (it_ID (h ! a)) in gm_set c (store_items s c @ [a]) s)"

text \<open>\<open>sort.Search\<close>, the binary search of the standard library, as it runs on any predicate.\<close>

function sort_search_loop :: "(nat \<Rightarrow> bool) \<Rightarrow> nat \<Rightarrow> nat \<Rightarrow> nat" where
  "sort_search_loop f i j =
    (if i < j then
       (let m = (i + j) div 2 in
        if \<not> f m then sort_search_loop f (m + 1) j else sort_search_loop f i m)
     else i)"
  by pat_completeness auto
termination
  by (relation "measure (\<lambda>(f, i, j). j - i)") auto

declare sort_search_loop.simps [simp del]

definition sort_search :: "nat \<Rightarrow> (nat \<Rightarrow> bool) \<Rightarrow> nat" where
  "sort_search n f = sort_search_loop f 0 n"

definition getItem :: "heap \<Rightarrow> StructStore \<Rightarrow> ID \<Rightarrow> addr option" where
  "getItem h s ident =
    (let items = store_items s (Client ident) in
     if length items = 0 then None
     else
       (let idx = sort_search (length items) (\<lambda>i. Clock (it_ID (h ! (items ! i))) > Clock ident) in
        if idx = 0 then None
        else
          (let a = items ! (idx - 1) in
           if Clock (it_ID (h ! a)) + it_Length (h ! a) > Clock ident then Some a else None)))"

section \<open>Delete sets\<close>

record deleteRange =
  dr_clock :: u64
  dr_len :: u64

type_synonym deleteSet = "(u64, deleteRange list) gomap"

definition newDeleteSet :: deleteSet where
  "newDeleteSet = []"

definition ds_add :: "deleteSet \<Rightarrow> u64 \<Rightarrow> u64 \<Rightarrow> u64 \<Rightarrow> deleteSet" where
  "ds_add ds clientID clock len = ds_append clientID \<lparr>dr_clock = clock, dr_len = len\<rparr> ds"

definition ds_ranges :: "deleteSet \<Rightarrow> u64 \<Rightarrow> deleteRange list" where
  "ds_ranges ds c = (case gm_get ds c of None \<Rightarrow> [] | Some rs \<Rightarrow> rs)"

definition in_range :: "u64 \<Rightarrow> deleteRange \<Rightarrow> bool" where
  "in_range clock r \<longleftrightarrow> clock \<ge> dr_clock r \<and> clock < dr_clock r + dr_len r"

definition isDeleted :: "deleteSet \<Rightarrow> ID \<Rightarrow> bool" where
  "isDeleted ds ident = list_ex (in_range (Clock ident)) (ds_ranges ds (Client ident))"

section \<open>Lookup by binary search\<close>

text \<open>
  The invariant of one client's slice: clocks do not wrap, and each item ends before the
  next one starts. \<open>covers\<close> is what \<open>getItem\<close> is looking for.
\<close>

definition item_clock :: "heap \<Rightarrow> addr \<Rightarrow> nat" where
  "item_clock h a = unat (Clock (it_ID (h ! a)))"

definition item_end :: "heap \<Rightarrow> addr \<Rightarrow> nat" where
  "item_end h a = item_clock h a + unat (it_Length (h ! a))"

fun clocks_ok :: "heap \<Rightarrow> addr list \<Rightarrow> bool" where
  "clocks_ok h [] = True"
| "clocks_ok h [a] = (item_end h a < 2 ^ 64)"
| "clocks_ok h (a # b # as) = (item_end h a \<le> item_clock h b \<and> clocks_ok h (b # as))"

definition covers :: "heap \<Rightarrow> u64 \<Rightarrow> addr \<Rightarrow> bool" where
  "covers h x a \<longleftrightarrow> Clock (it_ID (h ! a)) \<le> x \<and> x < Clock (it_ID (h ! a)) + it_Length (h ! a)"

definition find_item :: "heap \<Rightarrow> StructStore \<Rightarrow> ID \<Rightarrow> addr option" where
  "find_item h s ident = find (covers h (Clock ident)) (store_items s (Client ident))"

text \<open>\<open>sort.Search\<close> finds the boundary of a monotone predicate.\<close>

lemma sort_search_loop_bounds: "i \<le> j \<Longrightarrow> i \<le> sort_search_loop f i j \<and> sort_search_loop f i j \<le> j"
proof (induction f i j rule: sort_search_loop.induct)
  case (1 f i j)
  then show ?case
    by (subst (1 2) sort_search_loop.simps) (fastforce simp: Let_def)
qed

lemma sort_search_loop_correct:
  assumes "\<And>a b. a \<le> b \<Longrightarrow> b < n \<Longrightarrow> f a \<Longrightarrow> f b" "i \<le> j" "j \<le> n"
  shows "(\<forall>k. i \<le> k \<and> k < sort_search_loop f i j \<longrightarrow> \<not> f k) \<and>
    (\<forall>k. sort_search_loop f i j \<le> k \<and> k < j \<longrightarrow> f k)"
  using assms
proof (induction f i j rule: sort_search_loop.induct)
  case (1 f i j)
  let ?m = "(i + j) div 2"
  show ?case
  proof (cases "i < j")
    case False
    then show ?thesis by (auto simp: sort_search_loop.simps [of f i j])
  next
    case True
    then have m: "?m < n" using "1.prems"(3) by linarith
    show ?thesis
    proof (cases "f ?m")
      case False
      have "(\<forall>k. ?m + 1 \<le> k \<and> k < sort_search_loop f (?m + 1) j \<longrightarrow> \<not> f k) \<and>
          (\<forall>k. sort_search_loop f (?m + 1) j \<le> k \<and> k < j \<longrightarrow> f k)"
        using "1.IH"(1) [OF True refl False "1.prems"(1)] True "1.prems"(3) by simp
      moreover have "\<not> f k" if "k \<le> ?m" for k using "1.prems"(1) [OF that m] False by blast
      ultimately show ?thesis
        using True False by (simp add: sort_search_loop.simps [of f i j]) (meson not_less_eq_eq)
    next
      case fm: True
      have "(\<forall>k. i \<le> k \<and> k < sort_search_loop f i ?m \<longrightarrow> \<not> f k) \<and>
          (\<forall>k. sort_search_loop f i ?m \<le> k \<and> k < ?m \<longrightarrow> f k)"
        using "1.IH"(2) [OF True refl _ "1.prems"(1)] fm True m by simp
      moreover have "f k" if "?m \<le> k" "k < j" for k
        using "1.prems"(1) [OF that(1)] fm that(2) "1.prems"(3) by simp
      ultimately show ?thesis
        using True fm by (simp add: sort_search_loop.simps [of f i j]) (meson not_le)
    qed
  qed
qed

text \<open>The index found splits the range into the part below the boundary and the part above.\<close>

lemma sort_search_correct:
  assumes "\<And>a b. a \<le> b \<Longrightarrow> b < n \<Longrightarrow> f a \<Longrightarrow> f b"
  shows "sort_search n f \<le> n \<and> (\<forall>k < sort_search n f. \<not> f k) \<and>
    (\<forall>k. sort_search n f \<le> k \<and> k < n \<longrightarrow> f k)"
proof -
  have "(\<forall>k. 0 \<le> k \<and> k < sort_search_loop f 0 n \<longrightarrow> \<not> f k) \<and>
    (\<forall>k. sort_search_loop f 0 n \<le> k \<and> k < n \<longrightarrow> f k)"
    by (rule sort_search_loop_correct [where n = n]) (use assms in auto)
  then show ?thesis
    using sort_search_loop_bounds [of 0 n f] by (auto simp: sort_search_def)
qed

lemma clocks_ok_nth:
  "clocks_ok h as \<Longrightarrow> i < j \<Longrightarrow> j < length as \<Longrightarrow> item_end h (as ! i) \<le> item_clock h (as ! j)"
proof (induction h as arbitrary: i j rule: clocks_ok.induct)
  case (3 h a b as)
  show ?case
  proof (cases i)
    case 0
    have "item_end h a \<le> item_clock h b" using 3 by simp
    moreover have "item_clock h b \<le> item_clock h ((b # as) ! (j - 1))"
    proof (cases "j - 1")
      case (Suc j')
      then have "item_end h ((b # as) ! 0) \<le> item_clock h ((b # as) ! (j - 1))"
        using 3 by (intro "3.IH") auto
      then show ?thesis by (simp add: item_end_def)
    qed simp
    ultimately show ?thesis using 0 3 by (cases j) auto
  next
    case (Suc i')
    then show ?thesis using 3 by (cases j) auto
  qed
qed simp_all

lemma clocks_ok_end: "clocks_ok h as \<Longrightarrow> a \<in> set as \<Longrightarrow> item_end h a < 2 ^ 64"
proof (induction h as arbitrary: a rule: clocks_ok.induct)
  case (3 h x b as)
  have "item_end h b < 2 ^ 64" using 3 by simp
  moreover have "item_clock h b \<le> item_end h b" by (simp add: item_end_def)
  ultimately show ?case using "3.IH" [of a] "3.prems" by auto
qed auto

lemma covers_unat:
  "item_end h a < 2 ^ 64 \<Longrightarrow> covers h x a \<longleftrightarrow> item_clock h a \<le> unat x \<and> unat x < item_end h a"
  by (simp add: covers_def word_le_nat_alt word_less_nat_alt item_end_def item_clock_def unat_plus_ok)

lemma getItem_find:
  assumes ok: "clocks_ok h (store_items s (Client ident))"
  shows "getItem h s ident = find_item h s ident"
proof -
  let ?as = "store_items s (Client ident)" and ?x = "unat (Clock ident)"
  let ?f = "\<lambda>i. Clock (it_ID (h ! (?as ! i))) > Clock ident"
  define idx where "idx = sort_search (length ?as) ?f"
  have f_unat: "?f i \<longleftrightarrow> ?x < item_clock h (?as ! i)" for i
    by (simp add: word_less_nat_alt item_clock_def)
  have mono: "i \<le> j \<Longrightarrow> j < length ?as \<Longrightarrow> ?f i \<Longrightarrow> ?f j" for i j
    using clocks_ok_nth [OF ok, of i j] unfolding f_unat
    by (cases "i = j") (auto simp: item_end_def)
  have "idx \<le> length ?as \<and> (\<forall>k < idx. \<not> ?f k) \<and> (\<forall>k. idx \<le> k \<and> k < length ?as \<longrightarrow> ?f k)"
    unfolding idx_def by (rule sort_search_correct) (erule (2) mono)
  then have idx: "idx \<le> length ?as" "\<And>k. k < idx \<Longrightarrow> \<not> ?f k" "\<And>k. idx \<le> k \<Longrightarrow> k < length ?as \<Longrightarrow> ?f k"
    by blast+
  have cov: "covers h (Clock ident) (?as ! k) \<longleftrightarrow>
      item_clock h (?as ! k) \<le> ?x \<and> ?x < item_end h (?as ! k)" if "k < length ?as" for k
    using that by (intro covers_unat clocks_ok_end [OF ok]) simp
  have only: "k = idx - 1 \<and> 0 < idx" if "k < length ?as" "covers h (Clock ident) (?as ! k)" for k
  proof -
    have k: "k < idx" using idx(3) [of k] that cov [OF that(1)] unfolding f_unat by fastforce
    have "\<not> k < idx - 1"
    proof
      assume lt: "k < idx - 1"
      then have "item_end h (?as ! k) \<le> item_clock h (?as ! (idx - 1))"
        using idx(1) by (intro clocks_ok_nth [OF ok]) auto
      moreover have "item_clock h (?as ! (idx - 1)) \<le> ?x"
        using idx(2) [of "idx - 1"] lt unfolding f_unat by auto
      ultimately show False using that cov [OF that(1)] by simp
    qed
    with k show ?thesis by simp
  qed
  let ?found = "covers h (Clock ident) (?as ! (idx - 1))"
  have get: "getItem h s ident = (if 0 < idx \<and> ?found then Some (?as ! (idx - 1)) else None)"
    using idx(1) idx(2) [of "idx - 1"]
    by (auto simp: getItem_def Let_def idx_def [symmetric] covers_def not_less)
  show ?thesis
  proof (cases "0 < idx \<and> ?found")
    case True
    have "\<not> covers h (Clock ident) (?as ! j)" if "j < idx - 1" for j
    proof -
      have "j < length ?as" using that idx(1) by linarith
      then show ?thesis using only [of j] that by blast
    qed
    with True idx(1) have "find (covers h (Clock ident)) ?as = Some (?as ! (idx - 1))"
      unfolding find_Some_iff by (intro exI [of _ "idx - 1"]) auto
    with True get show ?thesis by (simp add: find_item_def)
  next
    case False
    then have "find (covers h (Clock ident)) ?as = None"
      using only unfolding find_None_iff in_set_conv_nth by blast
    with False get show ?thesis by (simp add: find_item_def)
  qed
qed

end
