(* ===== verification/DocState.thy ===== *)
theory DocState
  imports Store
begin

text \<open>
  The state of a \<open>Doc\<close> (\<open>doc.go\<close>) and the operations on it that involve no item: creation,
  the registry of shared types, update handlers, and the bookkeeping of transactions.

  The mutex makes each critical section atomic, and the model runs them one after another.
  Transactions are objects that the document and the running calls share by pointer, so they
  have an arena of their own and a pointer is an index into it. A callback (an update
  handler, an observer) is a number; calling it appends an event to \<open>d_events\<close>. An
  \<open>interface{}\<close> origin is a \<open>goany\<close>.
\<close>

section \<open>Shared types and the document\<close>

datatype SharedType =
    TText (st_start: "addr option") (st_observers: "nat list")
  | TMap (st_entries: "(gostring, addr) gomap") (st_observers: "nat list")
  | TArray (st_start: "addr option") (st_observers: "nat list")
  | TXml (st_start: "addr option")

record transaction =
  tx_origin :: goany
  tx_pendingItems :: "addr list"
  tx_pendingDeletes :: "addr list"
  tx_changedTypes :: "gostring list"

datatype event =
    UpdateFired nat "byte list" goany
  | ObserverFired gostring nat goany

record indexedHandler =
  ih_id :: u64
  ih_fn :: nat

record Doc =
  d_clientID :: u64
  d_heap :: heap
  d_store :: StructStore
  d_share :: "(gostring, SharedType) gomap"
  d_ds :: deleteSet
  d_updateHandlers :: "indexedHandler list"
  d_nextHandlerID :: u64
  d_txs :: "transaction list"
  d_currentTx :: "nat option"
  d_events :: "event list"

definition new_doc :: "u64 \<Rightarrow> Doc" where
  "new_doc c = \<lparr>d_clientID = c, d_heap = [], d_store = newStructStore, d_share = [],
     d_ds = newDeleteSet, d_updateHandlers = [], d_nextHandlerID = 0, d_txs = [],
     d_currentTx = None, d_events = []\<rparr>"

text \<open>
  \<open>NewDoc\<close> draws four random bytes, or takes a constant when the source of randomness fails
  (\<open>None\<close>), and reads them as a little-endian number; zero becomes one.
\<close>

definition NewDoc :: "(byte \<times> byte \<times> byte \<times> byte) option \<Rightarrow> Doc" where
  "NewDoc rnd =
    (let (b0, b1, b2, b3) = (case rnd of Some b \<Rightarrow> b | None \<Rightarrow> (0xca, 0xfe, 0x01, 0x02));
         n = (ucast b0 OR push_bit 8 (ucast b1) OR push_bit 16 (ucast b2) OR push_bit 24 (ucast b3) :: u64) in
     new_doc (if n = 0 then 1 else n))"

definition NewDocWithClientID :: "u64 \<Rightarrow> Doc outcome" where
  "NewDocWithClientID clientID =
    (if clientID = 0 then Panic (PanicMsg ''yjs: clientID must be non-zero'')
     else Ret (new_doc clientID))"

text \<open>
  \<open>GetText\<close> and its kin: the registered type of that name, created when there is none. A
  name registered with another type fails the type assertion.
\<close>

definition newText :: SharedType where "newText = TText None []"
definition newMap :: SharedType where "newMap = TMap [] []"
definition newArray :: SharedType where "newArray = TArray None []"
definition newXmlFragment :: SharedType where "newXmlFragment = TXml None"

definition share_put :: "gostring \<Rightarrow> SharedType \<Rightarrow> Doc \<Rightarrow> Doc" where
  "share_put name st d = d\<lparr>d_share := gm_set name st (d_share d)\<rparr>"

definition get_shared :: "(SharedType \<Rightarrow> bool) \<Rightarrow> SharedType \<Rightarrow> gostring \<Rightarrow> Doc \<Rightarrow> Doc outcome" where
  "get_shared is_kind fresh name d =
    (case gm_get (d_share d) name of
       Some st \<Rightarrow> if is_kind st then Ret d else Panic TypeAssertion
     | None \<Rightarrow> Ret (share_put name fresh d))"

definition GetText :: "gostring \<Rightarrow> Doc \<Rightarrow> Doc outcome" where
  "GetText = get_shared is_TText newText"

definition GetMap :: "gostring \<Rightarrow> Doc \<Rightarrow> Doc outcome" where
  "GetMap = get_shared is_TMap newMap"

definition GetArray :: "gostring \<Rightarrow> Doc \<Rightarrow> Doc outcome" where
  "GetArray = get_shared is_TArray newArray"

definition GetXmlFragment :: "gostring \<Rightarrow> Doc \<Rightarrow> Doc outcome" where
  "GetXmlFragment = get_shared is_TXml newXmlFragment"

section \<open>Update handlers\<close>

text \<open>\<open>OnUpdate\<close> returns the identifier the unsubscribe closure captures.\<close>

definition OnUpdate :: "nat \<Rightarrow> Doc \<Rightarrow> u64 \<times> Doc" where
  "OnUpdate fn d =
    (let i = d_nextHandlerID d in
     (i, d\<lparr>d_nextHandlerID := i + 1,
           d_updateHandlers := d_updateHandlers d @ [\<lparr>ih_id = i, ih_fn = fn\<rparr>]\<rparr>))"

fun remove_handler :: "u64 \<Rightarrow> indexedHandler list \<Rightarrow> indexedHandler list" where
  "remove_handler i [] = []"
| "remove_handler i (entry # rest) =
    (if ih_id entry = i then rest else entry # remove_handler i rest)"

definition unsubscribe :: "u64 \<Rightarrow> Doc \<Rightarrow> Doc" where
  "unsubscribe i d = d\<lparr>d_updateHandlers := remove_handler i (d_updateHandlers d)\<rparr>"

section \<open>Transactions\<close>

definition note_changed :: "Item \<Rightarrow> transaction \<Rightarrow> transaction" where
  "note_changed it tx =
    (case it_Parent it of
       Some st \<Rightarrow> tx\<lparr>tx_changedTypes := List.insert st (tx_changedTypes tx)\<rparr>
     | None \<Rightarrow> tx)"

definition tx_addItem :: "nat \<Rightarrow> addr \<Rightarrow> Doc \<Rightarrow> Doc" where
  "tx_addItem t a d =
    (let tx = d_txs d ! t in
     d\<lparr>d_txs := (d_txs d)[t := note_changed (d_heap d ! a) (tx\<lparr>tx_pendingItems := tx_pendingItems tx @ [a]\<rparr>)]\<rparr>)"

definition tx_addDeletedItem :: "nat \<Rightarrow> addr \<Rightarrow> Doc \<Rightarrow> Doc" where
  "tx_addDeletedItem t a d =
    (let tx = d_txs d ! t in
     d\<lparr>d_txs := (d_txs d)[t := note_changed (d_heap d ! a) (tx\<lparr>tx_pendingDeletes := tx_pendingDeletes tx @ [a]\<rparr>)]\<rparr>)"

definition begin_tx :: "goany \<Rightarrow> Doc \<Rightarrow> nat \<times> Doc" where
  "begin_tx origin d =
    (length (d_txs d),
     d\<lparr>d_txs := d_txs d @ [\<lparr>tx_origin = origin, tx_pendingItems = [], tx_pendingDeletes = [], tx_changedTypes = []\<rparr>],
       d_currentTx := Some (length (d_txs d))\<rparr>)"

text \<open>Each type calls its own observers; an XML fragment has none.\<close>

definition text_fireObservers :: "goany \<Rightarrow> gostring \<Rightarrow> nat list \<Rightarrow> event list" where
  "text_fireObservers origin name obs = map (\<lambda>fn. ObserverFired name fn origin) obs"

definition map_fireObservers :: "goany \<Rightarrow> gostring \<Rightarrow> nat list \<Rightarrow> event list" where
  "map_fireObservers origin name obs = map (\<lambda>fn. ObserverFired name fn origin) obs"

definition array_fireObservers :: "goany \<Rightarrow> gostring \<Rightarrow> nat list \<Rightarrow> event list" where
  "array_fireObservers origin name obs = map (\<lambda>fn. ObserverFired name fn origin) obs"

definition fire_type :: "goany \<Rightarrow> Doc \<Rightarrow> gostring \<Rightarrow> event list" where
  "fire_type origin d name =
    (case gm_get (d_share d) name of
       Some (TText _ obs) \<Rightarrow> text_fireObservers origin name obs
     | Some (TMap _ obs) \<Rightarrow> map_fireObservers origin name obs
     | Some (TArray _ obs) \<Rightarrow> array_fireObservers origin name obs
     | _ \<Rightarrow> [])"

definition fireObservers :: "nat \<Rightarrow> Doc \<Rightarrow> Doc" where
  "fireObservers t d =
    (let tx = d_txs d ! t in
     d\<lparr>d_events := d_events d @ concat (map (fire_type (tx_origin tx) d) (tx_changedTypes tx))\<rparr>)"

definition text_Observe :: "gostring \<Rightarrow> nat \<Rightarrow> Doc \<Rightarrow> Doc" where
  "text_Observe name fn d =
    (case gm_get (d_share d) name of
       Some (TText s obs) \<Rightarrow> share_put name (TText s (obs @ [fn])) d
     | _ \<Rightarrow> d)"

definition map_Observe :: "gostring \<Rightarrow> nat \<Rightarrow> Doc \<Rightarrow> Doc" where
  "map_Observe name fn d =
    (case gm_get (d_share d) name of
       Some (TMap m obs) \<Rightarrow> share_put name (TMap m (obs @ [fn])) d
     | _ \<Rightarrow> d)"

definition array_Observe :: "gostring \<Rightarrow> nat \<Rightarrow> Doc \<Rightarrow> Doc" where
  "array_Observe name fn d =
    (case gm_get (d_share d) name of
       Some (TArray s obs) \<Rightarrow> share_put name (TArray s (obs @ [fn])) d
     | _ \<Rightarrow> d)"

section \<open>The heap of a document\<close>

definition alloc :: "Item \<Rightarrow> Doc \<Rightarrow> addr \<times> Doc" where
  "alloc it d = (length (d_heap d), d\<lparr>d_heap := d_heap d @ [it]\<rparr>)"

definition upd_item :: "addr \<Rightarrow> (Item \<Rightarrow> Item) \<Rightarrow> Doc \<Rightarrow> Doc" where
  "upd_item a f d = d\<lparr>d_heap := (d_heap d)[a := f (d_heap d ! a)]\<rparr>"

definition store_add :: "addr \<Rightarrow> Doc \<Rightarrow> Doc" where
  "store_add a d = d\<lparr>d_store := addItem (d_heap d) (d_store d) a\<rparr>"

definition doc_getItem :: "Doc \<Rightarrow> ID \<Rightarrow> addr option" where
  "doc_getItem d ident = getItem (d_heap d) (d_store d) ident"

definition doc_getState :: "Doc \<Rightarrow> u64 \<Rightarrow> u64" where
  "doc_getState d c = getState (d_heap d) (d_store d) c"

definition opt_getItem :: "Doc \<Rightarrow> ID option \<Rightarrow> addr option" where
  "opt_getItem d i = (case i of None \<Rightarrow> None | Some ident \<Rightarrow> doc_getItem d ident)"

end
