(* ===== verification/Integrate.thy ===== *)
theory Integrate
  imports DocState
begin

text \<open>
  \<open>integrate.go\<close> and \<open>delete.go\<close>: placing a remote item in its shared type's list, and applying
  a remote delete range with its splits. The pointer loop of the placement is a partial
  function: on a cyclic list it does not return.
\<close>

section \<open>integrate.go\<close>

definition lssIsBefore :: "Item \<Rightarrow> Item \<Rightarrow> bool" where
  "lssIsBefore item other =
    (let itemOriginClock = (case it_OriginLeft item of Some o1 \<Rightarrow> Clock o1 + 1 | None \<Rightarrow> 0);
         otherOriginClock = (case it_OriginLeft other of Some o2 \<Rightarrow> Clock o2 + 1 | None \<Rightarrow> 0) in
     if itemOriginClock \<noteq> otherOriginClock then itemOriginClock > otherOriginClock
     else compareIDs (it_ID item) (it_ID other) > 0)"

definition firstItem :: "Doc \<Rightarrow> gostring \<Rightarrow> gostring option \<Rightarrow> addr option" where
  "firstItem d parent parentSub =
    (case gm_get (d_share d) parent of
       Some (TText start _) \<Rightarrow> start
     | Some (TArray start _) \<Rightarrow> start
     | Some (TMap entries _) \<Rightarrow> (case parentSub of Some k \<Rightarrow> gm_get entries k | None \<Rightarrow> None)
     | Some (TXml start) \<Rightarrow> start
     | None \<Rightarrow> None)"

definition setFirstItem :: "gostring \<Rightarrow> addr \<Rightarrow> gostring option \<Rightarrow> Doc \<Rightarrow> Doc" where
  "setFirstItem parent a parentSub d =
    (case gm_get (d_share d) parent of
       Some (TText _ obs) \<Rightarrow> share_put parent (TText (Some a) obs) d
     | Some (TArray _ obs) \<Rightarrow> share_put parent (TArray (Some a) obs) d
     | Some (TMap entries obs) \<Rightarrow>
         (case parentSub of
            Some k \<Rightarrow> share_put parent (TMap (gm_set k a entries) obs) d
          | None \<Rightarrow> d)
     | Some (TXml _) \<Rightarrow> share_put parent (TXml (Some a)) d
     | None \<Rightarrow> d)"

definition itemAfter :: "Doc \<Rightarrow> gostring \<Rightarrow> addr option \<Rightarrow> gostring option \<Rightarrow> addr option" where
  "itemAfter d parent left parentSub =
    (case left of Some l \<Rightarrow> it_Right (d_heap d ! l) | None \<Rightarrow> firstItem d parent parentSub)"

definition resolveParent :: "Item \<Rightarrow> gostring option \<times> gostring option" where
  "resolveParent item = (it_Parent item, it_ParentSub item)"

text \<open>
  \<open>for o != nil && o != right { if lssIsBefore(d, item, o) { break }; left = o; o = o.Right }\<close>,
  returning the final \<open>left\<close> and \<open>o\<close>.
\<close>

partial_function (option) lss_scan ::
  "heap \<Rightarrow> Item \<Rightarrow> addr option \<Rightarrow> addr option \<Rightarrow> addr option \<Rightarrow> (addr option \<times> addr option) option" where
  "lss_scan h item right left p =
    (case p of
       None \<Rightarrow> Some (left, None)
     | Some a \<Rightarrow>
         if Some a = right then Some (left, Some a)
         else if lssIsBefore item (h ! a) then Some (left, Some a)
         else lss_scan h item right (Some a) (it_Right (h ! a)))"

text \<open>The shared type that a remote item creates when its parent does not exist yet.\<close>

definition lazy_type :: "Item \<Rightarrow> SharedType" where
  "lazy_type item =
    (if it_Kind item = contentString then newText
     else if it_Kind item = contentAny then
       (if it_ParentSub item \<noteq> None then newMap else newArray)
     else newText)"

text \<open>Resolving the parent: by name first, then from the left origin.\<close>

definition resolve_by_name :: "addr \<Rightarrow> Doc \<Rightarrow> Doc" where
  "resolve_by_name a d =
    (let item = d_heap d ! a; name = it_parentName item in
     if it_Parent item = None \<and> name \<noteq> [] then
       (let d1 = (case gm_get (d_share d) name of
                    Some _ \<Rightarrow> d
                  | None \<Rightarrow> share_put name (lazy_type item) d) in
        upd_item a (\<lambda>it. it\<lparr>it_Parent := Some name\<rparr>) d1)
     else d)"

definition inherit_parent :: "addr \<Rightarrow> Doc \<Rightarrow> Doc" where
  "inherit_parent a d =
    (let item = d_heap d ! a in
     if it_Parent item = None \<and> it_OriginLeft item \<noteq> None then
       (case opt_getItem d (it_OriginLeft item) of
          Some leftNeighbor \<Rightarrow>
            (if it_Parent (d_heap d ! leftNeighbor) \<noteq> None
             then upd_item a (\<lambda>it. it\<lparr>it_Parent := it_Parent (d_heap d ! leftNeighbor)\<rparr>) d
             else d)
        | None \<Rightarrow> d)
     else d)"

text \<open>\<open>item.Left = left; item.Right = o\<close> and the neighbours' pointers.\<close>

definition link_item :: "gostring \<Rightarrow> gostring option \<Rightarrow> addr \<Rightarrow> addr option \<Rightarrow> addr option \<Rightarrow> Doc \<Rightarrow> Doc" where
  "link_item parent parentSub a left p d =
    (let d1 = upd_item a (\<lambda>it. it\<lparr>it_Left := left, it_Right := p\<rparr>) d;
         d2 = (case left of
                 Some l \<Rightarrow> upd_item l (\<lambda>it. it\<lparr>it_Right := Some a\<rparr>) d1
               | None \<Rightarrow> setFirstItem parent a parentSub d1) in
     (case p of
        Some r \<Rightarrow> upd_item r (\<lambda>it. it\<lparr>it_Left := Some a\<rparr>) d2
      | None \<Rightarrow> d2))"

definition place_item :: "addr \<Rightarrow> Doc \<Rightarrow> Doc outcome" where
  "place_item a d =
    (let item = d_heap d ! a in
     case resolveParent item of
       (None, _) \<Rightarrow> Ret d
     | (Some parent, parentSub) \<Rightarrow>
         (let left = opt_getItem d (it_OriginLeft item);
              right = opt_getItem d (it_OriginRight item) in
          case lss_scan (d_heap d) item right left (itemAfter d parent left parentSub) of
            None \<Rightarrow> Diverge
          | Some (left', p) \<Rightarrow> Ret (link_item parent parentSub a left' p d)))"

definition integrateItem :: "Item \<Rightarrow> Doc \<Rightarrow> Doc outcome" where
  "integrateItem item d =
    (if doc_getItem d (it_ID item) \<noteq> None then Ret d
     else
       (let (a, d1) = alloc item d;
            d2 = store_add a d1;
            d3 = (if isDeleted (d_ds d2) (it_ID item) then upd_item a (\<lambda>it. it\<lparr>it_Deleted := True\<rparr>) d2 else d2);
            d4 = inherit_parent a (resolve_by_name a d3) in
        place_item a d4))"

section \<open>delete.go\<close>

fun insert_sorted :: "heap \<Rightarrow> addr \<Rightarrow> addr list \<Rightarrow> addr list" where
  "insert_sorted h a [] = [a]"
| "insert_sorted h a (x # xs) =
    (if Clock (it_ID (h ! x)) < Clock (it_ID (h ! a)) then x # insert_sorted h a xs else a # x # xs)"

definition insertIntoStore :: "addr \<Rightarrow> Doc \<Rightarrow> Doc" where
  "insertIntoStore a d =
    (let c = Client (it_ID (d_heap d ! a)) in
     d\<lparr>d_store := gm_set c (insert_sorted (d_heap d) a (store_items (d_store d) c)) (d_store d)\<rparr>)"

text \<open>
  The pointer work of a split, which \<open>splitAtClock\<close> and \<open>Text.splitItemAt\<close> share: the item is
  shrunk in place, and the new right part goes between it and its neighbour.
\<close>

definition split_off :: "addr \<Rightarrow> (Item \<Rightarrow> Item) \<Rightarrow> Item \<Rightarrow> Doc \<Rightarrow> addr \<times> Doc" where
  "split_off a shrink rightItem d =
    (let d1 = upd_item a shrink d;
         (r, d2) = alloc rightItem d1;
         d3 = (case it_Right (d_heap d ! a) of
                 Some n \<Rightarrow> upd_item n (\<lambda>i. i\<lparr>it_Left := Some r\<rparr>) d2
               | None \<Rightarrow> d2) in
     (r, upd_item a (\<lambda>i. i\<lparr>it_Right := Some r\<rparr>) d3))"

definition splitAtClock :: "u64 \<Rightarrow> u64 \<Rightarrow> Doc \<Rightarrow> Doc outcome" where
  "splitAtClock clientID splitClock d =
    (case doc_getItem d (mkID clientID splitClock) of
       None \<Rightarrow> Ret d
     | Some a \<Rightarrow>
         (let it = d_heap d ! a in
          if Clock (it_ID it) = splitClock then Ret d
          else
            (let offset = splitClock - Clock (it_ID it) in
             if it_Kind it \<noteq> contentString then Ret d
             else
               obind (strContent it) (\<lambda>str.
               let runes = runes_of str in
               if offset \<ge> of_nat (length runes) then Ret d
               else
                 (let leftStr = string_of_runes (take (unat offset) runes);
                      rightStr = string_of_runes (drop (unat offset) runes);
                      (r, d1) = split_off a (\<lambda>i. i\<lparr>it_Content := GString leftStr, it_Length := offset\<rparr>)
                        (zero_Item\<lparr>it_ID := mkID clientID splitClock, it_Left := Some a,
                          it_Right := it_Right it, it_Parent := it_Parent it, it_Kind := contentString,
                          it_Content := GString rightStr,
                          it_Length := of_nat (length (runes_of rightStr)),
                          it_OriginLeft := Some (mkID clientID (splitClock - 1))\<rparr>) d in
                  Ret (insertIntoStore r d1))))))"

text \<open>The loop that marks the covered items, over the slice as it was when the loop began.\<close>

fun mark_range :: "nat \<Rightarrow> u64 \<Rightarrow> u64 \<Rightarrow> addr list \<Rightarrow> Doc \<Rightarrow> Doc" where
  "mark_range tx clock endClock [] d = d"
| "mark_range tx clock endClock (a # as) d =
    (let it = d_heap d ! a in
     if Clock (it_ID it) \<ge> endClock then d
     else if Clock (it_ID it) \<ge> clock \<and> \<not> it_Deleted it then
       mark_range tx clock endClock as
         (tx_addDeletedItem tx a (upd_item a (\<lambda>i. i\<lparr>it_Deleted := True\<rparr>) d))
     else mark_range tx clock endClock as d)"

definition applyDeleteRange :: "nat \<Rightarrow> u64 \<Rightarrow> u64 \<Rightarrow> u64 \<Rightarrow> Doc \<Rightarrow> Doc outcome" where
  "applyDeleteRange tx clientID clock len d =
    (let endClock = clock + len in
     obind (splitAtClock clientID clock d) (\<lambda>d1.
     obind (splitAtClock clientID endClock d1) (\<lambda>d2.
     Ret (mark_range tx clock endClock (store_items (d_store d2) clientID) d2))))"

section \<open>What a split does to the heap\<close>

lemma split_off_heap:
  assumes "a < length (d_heap d)" "it_Right (d_heap d ! a) = p" "p \<noteq> Some a"
    and "\<And>n. p = Some n \<Longrightarrow> n < length (d_heap d)"
  shows "fst (split_off a f ri d) = length (d_heap d)"
    and "snd (split_off a f ri d) = d\<lparr>d_heap := d_heap (snd (split_off a f ri d))\<rparr>"
    and "length (d_heap (snd (split_off a f ri d))) = Suc (length (d_heap d))"
    and "d_heap (snd (split_off a f ri d)) ! a = (f (d_heap d ! a))\<lparr>it_Right := Some (length (d_heap d))\<rparr>"
    and "d_heap (snd (split_off a f ri d)) ! length (d_heap d) = ri"
    and "b < length (d_heap d) \<Longrightarrow> b \<noteq> a \<Longrightarrow> d_heap (snd (split_off a f ri d)) ! b =
       (if p = Some b then (d_heap d ! b)\<lparr>it_Left := Some (length (d_heap d))\<rparr> else d_heap d ! b)"
  using assms
  by (cases p; fastforce simp: split_off_def alloc_def upd_item_def nth_append nth_list_update)+

section \<open>What linking an item does to the document\<close>

lemma setFirstItem_fields [simp]:
  "d_heap (setFirstItem parent a sub d) = d_heap d" "d_store (setFirstItem parent a sub d) = d_store d"
  "d_clientID (setFirstItem parent a sub d) = d_clientID d" "d_ds (setFirstItem parent a sub d) = d_ds d"
  "d_txs (setFirstItem parent a sub d) = d_txs d" "d_currentTx (setFirstItem parent a sub d) = d_currentTx d"
  "d_events (setFirstItem parent a sub d) = d_events d"
  "d_updateHandlers (setFirstItem parent a sub d) = d_updateHandlers d"
  by (auto simp: setFirstItem_def share_put_def split: option.splits SharedType.splits)

lemma setFirstItem_heap_update:
  "(setFirstItem parent a sub d)\<lparr>d_heap := h\<rparr> = setFirstItem parent a sub (d\<lparr>d_heap := h\<rparr>)"
  by (auto simp: setFirstItem_def share_put_def split: option.splits SharedType.splits)

lemma link_item_heap:
  assumes "a < length (d_heap d)" "left \<noteq> Some a" "p \<noteq> Some a"
    and "\<And>l. left = Some l \<Longrightarrow> l < length (d_heap d) \<and> p \<noteq> Some l"
    and "\<And>r. p = Some r \<Longrightarrow> r < length (d_heap d)"
  shows "length (d_heap (link_item parent sub a left p d)) = length (d_heap d)"
    and "b < length (d_heap d) \<Longrightarrow> d_heap (link_item parent sub a left p d) ! b =
      (if b = a then (d_heap d ! b)\<lparr>it_Left := left, it_Right := p\<rparr>
       else if left = Some b then (d_heap d ! b)\<lparr>it_Right := Some a\<rparr>
       else if p = Some b then (d_heap d ! b)\<lparr>it_Left := Some a\<rparr>
       else d_heap d ! b)"
    and "link_item parent sub a left p d =
      (if left = None then setFirstItem parent a sub else id)
        (d\<lparr>d_heap := d_heap (link_item parent sub a left p d)\<rparr>)"
  using assms
  by (cases left; cases p;
      fastforce simp: link_item_def upd_item_def nth_list_update setFirstItem_heap_update)+

lemma upd_item_fields [simp]:
  "d_share (upd_item a f d) = d_share d" "d_store (upd_item a f d) = d_store d"
  "d_clientID (upd_item a f d) = d_clientID d" "d_ds (upd_item a f d) = d_ds d"
  "d_txs (upd_item a f d) = d_txs d" "d_currentTx (upd_item a f d) = d_currentTx d"
  "d_events (upd_item a f d) = d_events d" "d_updateHandlers (upd_item a f d) = d_updateHandlers d"
  "length (d_heap (upd_item a f d)) = length (d_heap d)"
  by (simp_all add: upd_item_def)

lemma setFirstItem_upd_share [simp]:
  "d_share (setFirstItem parent a sub (upd_item b f d)) = d_share (setFirstItem parent a sub d)"
  by (auto simp: setFirstItem_def share_put_def split: option.splits SharedType.splits)

lemma link_item_fields [simp]:
  "d_share (link_item parent sub a left p d) =
    (if left = None then d_share (setFirstItem parent a sub d) else d_share d)"
  "d_store (link_item parent sub a left p d) = d_store d"
  "d_clientID (link_item parent sub a left p d) = d_clientID d"
  "d_ds (link_item parent sub a left p d) = d_ds d"
  "d_txs (link_item parent sub a left p d) = d_txs d"
  "d_currentTx (link_item parent sub a left p d) = d_currentTx d"
  by (auto simp: link_item_def Let_def split: option.splits)

lemma tx_addItem_fields [simp]:
  "d_heap (tx_addItem t a d) = d_heap d" "d_share (tx_addItem t a d) = d_share d"
  "d_store (tx_addItem t a d) = d_store d" "d_clientID (tx_addItem t a d) = d_clientID d"
  "d_currentTx (tx_addItem t a d) = d_currentTx d" "d_ds (tx_addItem t a d) = d_ds d"
  "length (d_txs (tx_addItem t a d)) = length (d_txs d)"
  by (simp_all add: tx_addItem_def Let_def)

lemma tx_addDeletedItem_fields [simp]:
  "d_heap (tx_addDeletedItem t a d) = d_heap d" "d_share (tx_addDeletedItem t a d) = d_share d"
  "d_store (tx_addDeletedItem t a d) = d_store d" "d_clientID (tx_addDeletedItem t a d) = d_clientID d"
  "d_currentTx (tx_addDeletedItem t a d) = d_currentTx d" "d_ds (tx_addDeletedItem t a d) = d_ds d"
  "length (d_txs (tx_addDeletedItem t a d)) = length (d_txs d)"
  by (simp_all add: tx_addDeletedItem_def Let_def)

lemma store_add_fields [simp]:
  "d_heap (store_add a d) = d_heap d" "d_share (store_add a d) = d_share d"
  "d_clientID (store_add a d) = d_clientID d" "d_currentTx (store_add a d) = d_currentTx d"
  "d_txs (store_add a d) = d_txs d" "d_ds (store_add a d) = d_ds d"
  by (simp_all add: store_add_def)

end
