(* ===== verification/Encoding.thy ===== *)
theory Encoding
  imports Integrate
begin

text \<open>
  \<open>encoding.go\<close>: from items to the wire structs and back, the update that a transaction
  emits, the update that a peer asks for, and the document's state vector.
\<close>

section \<open>Items to wire structs\<close>

definition contentKindToRef :: "byte \<Rightarrow> byte" where
  "contentKindToRef k = k"

definition to_eid :: "ID \<Rightarrow> EncodedID" where
  "to_eid i = \<lparr>eid_Client = Client i, eid_Clock = Clock i\<rparr>"

definition from_eid :: "EncodedID \<Rightarrow> ID" where
  "from_eid e = mkID (eid_Client e) (eid_Clock e)"

definition itemToEncoded :: "Item \<Rightarrow> EncodedItem" where
  "itemToEncoded item =
    (let b0 = contentKindToRef (it_Kind item);
         b1 = (if it_OriginLeft item \<noteq> None then b0 OR 0x80 else b0);
         b2 = (if it_OriginRight item \<noteq> None then b1 OR 0x40 else b1);
         infoByte = (if it_ParentSub item \<noteq> None then b2 OR 0x20 else b2);
         ei = zero_item\<lparr>ei_ClientID := Client (it_ID item), ei_Clock := Clock (it_ID item),
           ei_Length := it_Length item, ei_InfoByte := infoByte,
           ei_OriginLeft := map_option to_eid (it_OriginLeft item),
           ei_OriginRight := map_option to_eid (it_OriginRight item),
           ei_ContentRef := contentKindToRef (it_Kind item), ei_ContentData := it_Content item,
           ei_ParentSub := it_ParentSub item\<rparr> in
     if it_OriginLeft item = None \<and> it_OriginRight item = None then
       (case it_Parent item of
          Some name \<Rightarrow> ei\<lparr>ei_ParentIsYKey := True, ei_ParentYKey := name\<rparr>
        | None \<Rightarrow> ei)
     else ei)"

definition empty_update :: UpdateV1 where
  "empty_update = \<lparr>u_Items = [], u_DeleteSet = []\<rparr>"

text \<open>The blank identifier drops the error, so the value is what the encoder returned with it.\<close>

definition emptyUpdateV1 :: "byte list outcome" where
  "emptyUpdateV1 = (case EncodeUpdateV1 empty_update of Err _ \<Rightarrow> Ret [] | m \<Rightarrow> m)"

definition pending_update :: "Item list \<Rightarrow> Item list \<Rightarrow> UpdateV1" where
  "pending_update items deletedItems =
    \<lparr>u_Items = map itemToEncoded items,
     u_DeleteSet =
       fold (\<lambda>item. ds_append (Client (it_ID item))
               \<lparr>edr_Clock = Clock (it_ID item), edr_Len = it_Length item\<rparr>) deletedItems []\<rparr>"

definition encodeUpdateV1 :: "Item list \<Rightarrow> Item list \<Rightarrow> byte list outcome" where
  "encodeUpdateV1 items deletedItems =
    (case EncodeUpdateV1 (pending_update items deletedItems) of
       Err _ \<Rightarrow> emptyUpdateV1
     | m \<Rightarrow> m)"

section \<open>Wire structs to items\<close>

definition encodedToItem :: "EncodedItem \<Rightarrow> Item option" where
  "encodedToItem ei =
    (if ei_IsGC ei \<or> ei_IsSkip ei then None
     else
       (let item = zero_Item\<lparr>it_ID := mkID (ei_ClientID ei) (ei_Clock ei),
              it_Length := ei_Length ei, it_Kind := ei_ContentRef ei,
              it_OriginLeft := map_option from_eid (ei_OriginLeft ei),
              it_OriginRight := map_option from_eid (ei_OriginRight ei),
              it_ParentSub := ei_ParentSub ei,
              it_parentName := (if ei_ParentIsYKey ei then ei_ParentYKey ei else [])\<rparr> in
        Some
          (if ei_ContentRef ei = 4 then
             (case ei_ContentData ei of GString s \<Rightarrow> item\<lparr>it_Content := GString s\<rparr> | _ \<Rightarrow> item)
           else if ei_ContentRef ei = 8 then item\<lparr>it_Content := ei_ContentData ei\<rparr>
           else if ei_ContentRef ei = 1 then
             (case ei_ContentData ei of
                GUint64 n \<Rightarrow> item\<lparr>it_Deleted := True, it_Length := n\<rparr>
              | _ \<Rightarrow> item\<lparr>it_Deleted := True\<rparr>)
           else if ei_ContentRef ei = 3 then item\<lparr>it_Content := ei_ContentData ei\<rparr>
           else item\<lparr>it_Content := ei_ContentData ei\<rparr>)))"

definition update_items :: "UpdateV1 \<Rightarrow> Item list" where
  "update_items u = List.map_filter encodedToItem (u_Items u)"

definition update_ds :: "UpdateV1 \<Rightarrow> deleteSet" where
  "update_ds u =
    fold (\<lambda>(clientID, ranges). fold (\<lambda>r ds. ds_add ds clientID (edr_Clock r) (edr_Len r)) ranges)
      (u_DeleteSet u) newDeleteSet"

definition decodeUpdateV1 :: "byte list \<Rightarrow> (Item list \<times> deleteSet) outcome" where
  "decodeUpdateV1 data = obind (DecodeUpdateV1 data) (\<lambda>u. Ret (update_items u, update_ds u))"

section \<open>The state of a document\<close>

definition EncodeStateVector :: "Doc \<Rightarrow> byte list" where
  "EncodeStateVector d = EncodeStateVectorV1 (stateVector (d_heap d) (d_store d))"

text \<open>The items of one client from the first one that ends after the remote state.\<close>

definition items_since :: "heap \<Rightarrow> u64 \<Rightarrow> addr list \<Rightarrow> addr list" where
  "items_since h remoteState items =
    drop (sort_search (length items)
      (\<lambda>i. Clock (it_ID (h ! (items ! i))) + it_Length (h ! (items ! i)) > remoteState)) items"

definition sv_get :: "(u64, u64) gomap \<Rightarrow> u64 \<Rightarrow> u64" where
  "sv_get sv c = (case gm_get sv c of Some n \<Rightarrow> n | None \<Rightarrow> 0)"

definition state_update :: "Doc \<Rightarrow> (u64, u64) gomap \<Rightarrow> UpdateV1" where
  "state_update d remoteSV =
    \<lparr>u_Items =
       concat (map (\<lambda>(clientID, items).
         map (\<lambda>a. itemToEncoded (d_heap d ! a)) (items_since (d_heap d) (sv_get remoteSV clientID) items))
         (d_store d)),
     u_DeleteSet = []\<rparr>"

definition EncodeStateAsUpdate :: "Doc \<Rightarrow> byte list \<Rightarrow> byte list outcome" where
  "EncodeStateAsUpdate d encodedStateVector =
    obind (if length encodedStateVector > 0 then DecodeStateVectorV1 encodedStateVector else Ret [])
      (\<lambda>remoteSV. EncodeUpdateV1 (state_update d remoteSV))"

end
