(* ===== verification/DocOps.thy ===== *)
theory DocOps
  imports Encoding
begin

text \<open>
  The operations of \<open>doc.go\<close> that move updates: \<open>Transact\<close>, \<open>ApplyUpdate\<close>, \<open>Snapshot\<close> and
  \<open>RestoreDoc\<close>.

  The function a caller hands to \<open>Transact\<close> is a state transformer that may fail. A panic
  in it unwinds the call, as no \<open>defer\<close> resets the current transaction.
\<close>

definition call_handlers :: "byte list \<Rightarrow> goany \<Rightarrow> Doc \<Rightarrow> Doc" where
  "call_handlers update origin d =
    d\<lparr>d_events := d_events d @ map (\<lambda>entry. UpdateFired (ih_fn entry) update origin) (d_updateHandlers d)\<rparr>"

definition Transact :: "(Doc \<Rightarrow> Doc outcome) \<Rightarrow> goany \<Rightarrow> Doc \<Rightarrow> Doc outcome" where
  "Transact fn origin d =
    (if d_currentTx d \<noteq> None then fn d
     else
       (let (t, d1) = begin_tx origin d in
        obind (fn d1) (\<lambda>d2.
        let d3 = d2\<lparr>d_currentTx := None\<rparr>;
            pending = tx_pendingItems (d_txs d3 ! t);
            pendingDs = tx_pendingDeletes (d_txs d3 ! t) in
        if length pending = 0 \<and> length pendingDs = 0 then Ret d3
        else
          obind (encodeUpdateV1 (map (\<lambda>a. d_heap d3 ! a) pending) (map (\<lambda>a. d_heap d3 ! a) pendingDs))
            (\<lambda>update. Ret (fireObservers t (call_handlers update origin d3))))))"

text \<open>A loop over a list whose body may fail.\<close>

fun ofold :: "('a \<Rightarrow> 's \<Rightarrow> 's outcome) \<Rightarrow> 'a list \<Rightarrow> 's \<Rightarrow> 's outcome" where
  "ofold f [] s = Ret s"
| "ofold f (x # xs) s = obind (f x s) (ofold f xs)"

definition accumulate_ds :: "deleteSet \<Rightarrow> deleteSet \<Rightarrow> deleteSet" where
  "accumulate_ds new ds =
    fold (\<lambda>(clientID, ranges). fold (\<lambda>r acc. ds_add acc clientID (dr_clock r) (dr_len r)) ranges) new ds"

definition apply_ds :: "nat \<Rightarrow> deleteSet \<Rightarrow> Doc \<Rightarrow> Doc outcome" where
  "apply_ds t =
    ofold (\<lambda>(clientID, ranges). ofold (\<lambda>r. applyDeleteRange t clientID (dr_clock r) (dr_len r)) ranges)"

definition apply_decoded :: "Item list \<Rightarrow> deleteSet \<Rightarrow> goany \<Rightarrow> Doc \<Rightarrow> Doc outcome" where
  "apply_decoded items ds origin d =
    (let (t, d1) = begin_tx origin d;
         d2 = d1\<lparr>d_ds := accumulate_ds ds (d_ds d1)\<rparr> in
     obind (ofold integrateItem items d2) (\<lambda>d3.
     obind (apply_ds t (d_ds d3) d3) (\<lambda>d4.
     Ret (fireObservers t (d4\<lparr>d_currentTx := None\<rparr>)))))"

text \<open>An error of the decoder is returned before the document is touched.\<close>

definition ApplyUpdate :: "byte list \<Rightarrow> goany \<Rightarrow> Doc \<Rightarrow> Doc outcome" where
  "ApplyUpdate update origin d =
    obind (decodeUpdateV1 update) (\<lambda>(items, ds). apply_decoded items ds origin d)"

definition Snapshot :: "Doc \<Rightarrow> byte list outcome" where
  "Snapshot d = EncodeStateAsUpdate d []"

definition RestoreDoc :: "(byte \<times> byte \<times> byte \<times> byte) option \<Rightarrow> byte list \<Rightarrow> Doc outcome" where
  "RestoreDoc rnd snapshot = ApplyUpdate snapshot GNil (NewDoc rnd)"

end
