(* ===== verification/TextType.thy ===== *)
theory TextType
  imports DocOps
begin

text \<open>
  \<open>text.go\<close>: a text is the list of items reachable from its start through \<open>Right\<close>. The
  operations take the name under which the text is registered. Every loop along the list is
  a partial function, and a loop over a cyclic list is \<open>Diverge\<close>.
\<close>

section \<open>Walking the list\<close>

definition text_start :: "Doc \<Rightarrow> gostring \<Rightarrow> addr option" where
  "text_start d name = (case gm_get (d_share d) name of Some (TText start _) \<Rightarrow> start | _ \<Rightarrow> None)"

partial_function (option) skip_deleted_right :: "heap \<Rightarrow> addr option \<Rightarrow> addr option option" where
  "skip_deleted_right h p =
    (case p of
       None \<Rightarrow> Some None
     | Some a \<Rightarrow> if it_Deleted (h ! a) then skip_deleted_right h (it_Right (h ! a)) else Some (Some a))"

partial_function (option) skip_deleted_left :: "heap \<Rightarrow> addr option \<Rightarrow> addr option option" where
  "skip_deleted_left h p =
    (case p of
       None \<Rightarrow> Some None
     | Some a \<Rightarrow> if it_Deleted (h ! a) then skip_deleted_left h (it_Left (h ! a)) else Some (Some a))"

section \<open>Finding and splitting\<close>

definition splitItemAt :: "addr \<Rightarrow> u64 \<Rightarrow> Doc \<Rightarrow> ((addr option \<times> addr) \<times> Doc) outcome" where
  "splitItemAt a offset d =
    (let item = d_heap d ! a in
     if offset = 0 then
       (case skip_deleted_left (d_heap d) (it_Left item) of
          None \<Rightarrow> Diverge
        | Some left \<Rightarrow> Ret ((left, a), d))
     else
       obind (strContent item) (\<lambda>str.
       let runes = runes_of str in
       if unat offset > length runes then Panic SliceBounds
       else
         (let leftStr = string_of_runes (take (unat offset) runes);
              rightStr = string_of_runes (drop (unat offset) runes);
              leftLen = of_nat (length (runes_of leftStr)) :: u64;
              (r, d1) = split_off a (\<lambda>i. i\<lparr>it_Content := GString leftStr, it_Length := leftLen\<rparr>)
                (zero_Item\<lparr>it_ID := mkID (Client (it_ID item)) (Clock (it_ID item) + leftLen),
                  it_Left := Some a, it_Right := it_Right item, it_Parent := it_Parent item,
                  it_Kind := contentString, it_Content := GString rightStr,
                  it_Length := of_nat (length (runes_of rightStr)),
                  it_OriginLeft := Some (mkID (Client (it_ID item)) (Clock (it_ID item) + leftLen - 1))\<rparr>) d in
          Ret ((Some a, r), store_add r d1))))"

text \<open>How the walk of \<open>findPositionAt\<close> ends: after an item, inside one, or past the end.\<close>

datatype position = After addr | Inside addr u64 | AtEnd "addr option"

partial_function (option) find_pos_loop ::
  "heap \<Rightarrow> u64 \<Rightarrow> addr option \<Rightarrow> u64 \<Rightarrow> addr option \<Rightarrow> position option" where
  "find_pos_loop h index p pos left =
    (case p of
       None \<Rightarrow> Some (AtEnd left)
     | Some a \<Rightarrow>
         if it_Deleted (h ! a) then find_pos_loop h index (it_Right (h ! a)) pos left
         else if pos + it_Length (h ! a) = index then Some (After a)
         else if pos + it_Length (h ! a) > index then Some (Inside a (index - pos))
         else find_pos_loop h index (it_Right (h ! a)) (pos + it_Length (h ! a)) (Some a))"

definition findPositionAt :: "gostring \<Rightarrow> u64 \<Rightarrow> Doc \<Rightarrow> ((addr option \<times> addr option) \<times> Doc) outcome" where
  "findPositionAt name index d =
    (if index = 0 then
       (case skip_deleted_right (d_heap d) (text_start d name) of
          None \<Rightarrow> Diverge
        | Some right \<Rightarrow> Ret ((None, right), d))
     else
       (case find_pos_loop (d_heap d) index (text_start d name) 0 None of
          None \<Rightarrow> Diverge
        | Some (After a) \<Rightarrow>
            (case skip_deleted_right (d_heap d) (it_Right (d_heap d ! a)) of
               None \<Rightarrow> Diverge
             | Some right \<Rightarrow> Ret ((Some a, right), d))
        | Some (Inside a offset) \<Rightarrow>
            obind (splitItemAt a offset d) (\<lambda>((l, r), d'). Ret ((l, Some r), d'))
        | Some (AtEnd left) \<Rightarrow> Ret ((left, None), d)))"

section \<open>Insert\<close>

text \<open>
  The links of the new item are those of \<open>link_item\<close>: for a text, setting the first item is
  \<open>t.start = item\<close>.
\<close>

definition text_Insert :: "gostring \<Rightarrow> u64 \<Rightarrow> gostring \<Rightarrow> Doc \<Rightarrow> Doc outcome" where
  "text_Insert name index s d =
    (if s = [] then Ret d
     else case d_currentTx d of
       None \<Rightarrow> Panic (PanicMsg ''yjs: Text.Insert must be called inside Transact'')
     | Some tx \<Rightarrow>
         (let clock = doc_getState d (d_clientID d) in
          obind (findPositionAt name index d) (\<lambda>((left, splitRight), d1).
          let originLeft = (case left of
                None \<Rightarrow> None
              | Some l \<Rightarrow> Some (mkID (Client (it_ID (d_heap d1 ! l)))
                             (Clock (it_ID (d_heap d1 ! l)) + it_Length (d_heap d1 ! l) - 1)));
              (a, d2) = alloc (zero_Item\<lparr>it_ID := mkID (d_clientID d1) clock, it_OriginLeft := originLeft,
                it_OriginRight := None, it_Parent := Some name, it_Kind := contentString,
                it_Content := GString s, it_Length := of_nat (length (runes_of s))\<rparr>) d1;
              d3 = store_add a d2;
              d4 = link_item name None a left splitRight d3 in
          Ret (tx_addItem tx a d4))))"

section \<open>Delete\<close>

definition mark_deleted :: "nat \<Rightarrow> addr \<Rightarrow> Doc \<Rightarrow> Doc" where
  "mark_deleted tx a d = tx_addDeletedItem tx a (upd_item a (\<lambda>i. i\<lparr>it_Deleted := True\<rparr>) d)"

text \<open>The body of the loop: the position and the remaining count after one item.\<close>

definition delete_body :: "nat \<Rightarrow> u64 \<Rightarrow> addr \<Rightarrow> u64 \<Rightarrow> u64 \<Rightarrow> Doc \<Rightarrow> (u64 \<times> u64 \<times> Doc) outcome" where
  "delete_body tx index a pos remaining d =
    (let item = d_heap d ! a; endPos = pos + it_Length item in
     if it_Deleted item then Ret (pos, remaining, d)
     else if endPos \<le> index then Ret (endPos, remaining, d)
     else if pos < index then
       obind (splitItemAt a (index - pos) d) (\<lambda>((_, right), d1).
       if \<not> it_Deleted (d_heap d1 ! right) then
         (let len = it_Length (d_heap d1 ! right) in
          if len > remaining then
            obind (splitItemAt right remaining d1) (\<lambda>(_, d2).
            Ret (endPos, remaining - remaining, mark_deleted tx right d2))
          else Ret (endPos, remaining - len, mark_deleted tx right d1))
       else Ret (endPos, remaining, d1))
     else if it_Length item > remaining then
       obind (splitItemAt a remaining d) (\<lambda>(_, d1).
       Ret (endPos, remaining - remaining, mark_deleted tx a d1))
     else Ret (endPos, remaining - it_Length item, mark_deleted tx a d))"

partial_function (option) delete_loop ::
  "nat \<Rightarrow> u64 \<Rightarrow> addr option \<Rightarrow> u64 \<Rightarrow> u64 \<Rightarrow> Doc \<Rightarrow> Doc outcome option" where
  "delete_loop tx index p pos remaining d =
    (case p of
       None \<Rightarrow> Some (Ret d)
     | Some a \<Rightarrow>
         if \<not> remaining > 0 then Some (Ret d)
         else
           (case delete_body tx index a pos remaining d of
              Ret (pos', remaining', d') \<Rightarrow> delete_loop tx index (it_Right (d_heap d' ! a)) pos' remaining' d'
            | Err e \<Rightarrow> Some (Err e)
            | Panic p' \<Rightarrow> Some (Panic p')
            | Diverge \<Rightarrow> None))"

definition text_Delete :: "gostring \<Rightarrow> u64 \<Rightarrow> u64 \<Rightarrow> Doc \<Rightarrow> Doc outcome" where
  "text_Delete name index len d =
    (if len = 0 then Ret d
     else case d_currentTx d of
       None \<Rightarrow> Panic (PanicMsg ''yjs: Text.Delete must be called inside Transact'')
     | Some tx \<Rightarrow> of_loop (delete_loop tx index (text_start d name) 0 len d))"

section \<open>Reading\<close>

partial_function (option) string_loop :: "heap \<Rightarrow> addr option \<Rightarrow> rune list \<Rightarrow> rune list outcome option" where
  "string_loop h p out =
    (case p of
       None \<Rightarrow> Some (Ret out)
     | Some a \<Rightarrow>
         if it_Deleted (h ! a) \<or> it_Kind (h ! a) \<noteq> contentString then string_loop h (it_Right (h ! a)) out
         else
           (case strContent (h ! a) of
              Ret s \<Rightarrow> string_loop h (it_Right (h ! a)) (out @ runes_of s)
            | Err e \<Rightarrow> Some (Err e)
            | Panic p' \<Rightarrow> Some (Panic p')
            | Diverge \<Rightarrow> None))"

definition text_String :: "gostring \<Rightarrow> Doc \<Rightarrow> gostring outcome" where
  "text_String name d =
    obind (of_loop (string_loop (d_heap d) (text_start d name) [])) (\<lambda>runes. Ret (string_of_runes runes))"

partial_function (option) len_loop :: "heap \<Rightarrow> addr option \<Rightarrow> u64 \<Rightarrow> u64 outcome option" where
  "len_loop h p n =
    (case p of
       None \<Rightarrow> Some (Ret n)
     | Some a \<Rightarrow>
         len_loop h (it_Right (h ! a)) (if \<not> it_Deleted (h ! a) then n + it_Length (h ! a) else n))"

definition text_Len :: "gostring \<Rightarrow> Doc \<Rightarrow> u64 outcome" where
  "text_Len name d = of_loop (len_loop (d_heap d) (text_start d name) 0)"

end
