(* ===== verification/TextSpec.thy ===== *)
theory TextSpec
  imports TextType
begin

text \<open>
  What a text promises: it is a sequence of runes; \<open>Insert\<close> and \<open>Delete\<close> act on it as on a
  list, and \<open>String\<close> and \<open>Len\<close> read it. \<open>text_list d name as\<close> is the representation
  invariant: \<open>as\<close> are the addresses of the items of the list, in order, and \<open>vis\<close> is the
  sequence of runes they show.
\<close>

section \<open>Linked lists in the heap\<close>

definition front :: "addr list \<Rightarrow> addr option" where
  "front as = (case as of [] \<Rightarrow> None | a # _ \<Rightarrow> Some a)"

definition rear :: "addr list \<Rightarrow> addr option" where
  "rear as = (if as = [] then None else Some (last as))"

fun linked :: "heap \<Rightarrow> addr list \<Rightarrow> bool" where
  "linked h [] = True"
| "linked h (a # as) = (a < length h \<and> it_Right (h ! a) = front as \<and> linked h as)"

lemma front_simps [simp]: "front [] = None" "front (a # as) = Some a"
  by (simp_all add: front_def)

lemma front_in: "front as = Some a \<Longrightarrow> a \<in> set as"
  by (cases as) simp_all

lemma rear_simps [simp]: "rear [] = None" "rear (as @ [a]) = Some a"
  by (simp_all add: rear_def)

lemma linked_append:
  "linked h (xs @ ys) \<longleftrightarrow>
   linked h ys \<and> (\<forall>a \<in> set xs. a < length h) \<and>
   (\<forall>i < length xs. it_Right (h ! (xs ! i)) = front (drop (Suc i) xs @ ys))"
proof (induction xs)
  case (Cons a xs)
  have "(\<forall>i < length (a # xs). it_Right (h ! ((a # xs) ! i)) = front (drop (Suc i) (a # xs) @ ys)) \<longleftrightarrow>
    it_Right (h ! a) = front (xs @ ys) \<and>
    (\<forall>i < length xs. it_Right (h ! (xs ! i)) = front (drop (Suc i) xs @ ys))"
    by (simp add: All_less_Suc2)
  then show ?case using Cons.IH by auto
qed simp

lemma linked_suffix: "linked h (xs @ ys) \<Longrightarrow> linked h ys"
  by (simp add: linked_append)

lemma linked_bound: "linked h as \<Longrightarrow> a \<in> set as \<Longrightarrow> a < length h"
  by (induction as) auto

lemma linked_cong:
  assumes "linked h as" "\<And>a. a \<in> set as \<Longrightarrow> a < length h' \<and> it_Right (h' ! a) = it_Right (h ! a)"
  shows "linked h' as"
  using assms by (induction as) auto

text \<open>Replacing the tail of a list by a new one: only the last link of the kept part changes.\<close>

lemma linked_graft:
  assumes old: "linked h (xs @ ys)" and d: "distinct xs" and new: "linked h' zs"
    and len: "length h \<le> length h'"
    and keep: "\<And>a. a \<in> set (butlast xs) \<Longrightarrow> it_Right (h' ! a) = it_Right (h ! a)"
    and lst: "xs \<noteq> [] \<Longrightarrow> it_Right (h' ! last xs) = front zs"
  shows "linked h' (xs @ zs)"
  using old d keep lst
proof (induction xs)
  case Nil
  then show ?case using new by simp
next
  case (Cons a xs)
  show ?case
  proof (cases "xs = []")
    case True
    then show ?thesis using Cons.prems new len by simp
  next
    case False
    have "linked h' (xs @ zs)"
      using Cons.prems False by (intro Cons.IH) auto
    moreover have "it_Right (h' ! a) = front (xs @ zs)"
      using Cons.prems False by (cases xs) auto
    ultimately show ?thesis using Cons.prems(1) len by simp
  qed
qed

section \<open>The sequence a list shows\<close>

definition item_runes :: "Item \<Rightarrow> rune list" where
  "item_runes it = (case it_Content it of GString s \<Rightarrow> runes_of s | _ \<Rightarrow> [])"

definition shown :: "Item \<Rightarrow> rune list" where
  "shown it = (if it_Deleted it then [] else item_runes it)"

definition vis :: "heap \<Rightarrow> addr list \<Rightarrow> rune list" where
  "vis h as = concat (map (\<lambda>a. shown (h ! a)) as)"

definition text_item :: "Item \<Rightarrow> bool" where
  "text_item it \<longleftrightarrow> it_Deleted it \<or>
    it_Kind it = contentString \<and> (\<exists>s. it_Content it = GString s) \<and>
    unat (it_Length it) = length (item_runes it)"

lemma vis_simps [simp]:
  "vis h [] = []" "vis h (a # as) = shown (h ! a) @ vis h as" "vis h (xs @ ys) = vis h xs @ vis h ys"
  by (simp_all add: vis_def)

lemma shown_deleted [simp]: "it_Deleted it \<Longrightarrow> shown it = []"
  by (simp add: shown_def)

lemma vis_dead: "list_all (\<lambda>a. it_Deleted (h ! a)) as \<Longrightarrow> vis h as = []"
  by (induction as) auto

text \<open>Two versions of an item that a reader of the text cannot tell apart.\<close>

definition agree :: "Item \<Rightarrow> Item \<Rightarrow> bool" where
  "agree i j \<longleftrightarrow> it_Deleted i = it_Deleted j \<and> it_Kind i = it_Kind j \<and>
    it_Content i = it_Content j \<and> it_Length i = it_Length j"

lemma agree_refl [simp]: "agree i i"
  by (simp add: agree_def)

lemma agree_shown: "agree i j \<Longrightarrow> shown i = shown j"
  by (simp add: agree_def shown_def item_runes_def)

lemma agree_text_item: "agree i j \<Longrightarrow> text_item i \<longleftrightarrow> text_item j"
  by (simp add: agree_def text_item_def item_runes_def)

lemma vis_cong: "(\<And>a. a \<in> set as \<Longrightarrow> agree (h' ! a) (h ! a)) \<Longrightarrow> vis h' as = vis h as"
  by (induction as) (auto simp: agree_shown)

section \<open>The invariant\<close>

definition text_list :: "Doc \<Rightarrow> gostring \<Rightarrow> addr list \<Rightarrow> bool" where
  "text_list d name as \<longleftrightarrow>
    linked (d_heap d) as \<and> distinct as \<and> (\<forall>a \<in> set as. text_item (d_heap d ! a)) \<and>
    (\<exists>obs. gm_get (d_share d) name = Some (TText (front as) obs))"

definition text_vis :: "Doc \<Rightarrow> addr list \<Rightarrow> rune list" where
  "text_vis d as = vis (d_heap d) as"

lemma text_list_start: "text_list d name as \<Longrightarrow> text_start d name = front as"
  by (auto simp: text_list_def text_start_def)

section \<open>The loops return\<close>

lemma skip_deleted_right_list:
  "linked h as \<Longrightarrow> skip_deleted_right h (front as) = Some (front (dropWhile (\<lambda>a. it_Deleted (h ! a)) as))"
  by (induction as) (simp_all add: skip_deleted_right.simps)

lemma string_loop_list:
  "linked h as \<Longrightarrow> (\<forall>a \<in> set as. text_item (h ! a)) \<Longrightarrow>
   string_loop h (front as) out = Some (Ret (out @ vis h as))"
proof (induction as arbitrary: out)
  case (Cons a as)
  then show ?case
    by (subst string_loop.simps)
      (auto simp: shown_def text_item_def item_runes_def strContent_def)
qed (simp add: string_loop.simps)

lemma of_nat_unat_eq: "unat w = n \<Longrightarrow> of_nat n = w"
  by auto

lemma len_loop_list:
  "linked h as \<Longrightarrow> (\<forall>a \<in> set as. text_item (h ! a)) \<Longrightarrow>
   len_loop h (front as) n = Some (Ret (n + of_nat (length (vis h as))))"
proof (induction as arbitrary: n)
  case (Cons a as)
  have "of_nat (length (item_runes (h ! a))) = it_Length (h ! a)" if "\<not> it_Deleted (h ! a)"
    using that Cons.prems(2) by (auto simp: text_item_def intro: of_nat_unat_eq)
  then show ?case
    using Cons by (subst len_loop.simps) (auto simp: shown_def add_ac)
qed (simp add: len_loop.simps)

text \<open>\<open>String\<close> and \<open>Len\<close>.\<close>

lemma text_String_list:
  "text_list d name as \<Longrightarrow> text_String name d = Ret (string_of_runes (text_vis d as))"
  by (simp add: text_String_def text_list_start text_vis_def)
    (simp add: text_list_def string_loop_list)

lemma text_Len_list:
  "text_list d name as \<Longrightarrow> text_Len name d = Ret (of_nat (length (text_vis d as)))"
  by (simp add: text_Len_def text_list_start text_vis_def)
    (simp add: text_list_def len_loop_list)

section \<open>Finding a position\<close>

text \<open>The length a live item reports is the number of runes it shows.\<close>

lemma item_length:
  "text_item it \<Longrightarrow> \<not> it_Deleted it \<Longrightarrow> unat (it_Length it) = length (shown it)"
  by (auto simp: text_item_def shown_def)

text \<open>Where the walk for an index ends, \<open>n\<close> runes into the list.\<close>

definition pos_at :: "heap \<Rightarrow> addr list \<Rightarrow> nat \<Rightarrow> addr option \<Rightarrow> position \<Rightarrow> bool" where
  "pos_at h as n left r =
    (case r of
       After a \<Rightarrow> \<exists>xs ys. as = xs @ a # ys \<and> \<not> it_Deleted (h ! a) \<and> length (vis h (xs @ [a])) = n
     | Inside a off \<Rightarrow> \<exists>xs ys. as = xs @ a # ys \<and> \<not> it_Deleted (h ! a) \<and> 0 < unat off \<and>
         unat off < length (shown (h ! a)) \<and> length (vis h xs) + unat off = n
     | AtEnd l \<Rightarrow> length (vis h as) < n \<and>
         (\<exists>xs dead. as = xs @ dead \<and> list_all (\<lambda>a. it_Deleted (h ! a)) dead \<and>
            l = (if xs = [] then left else rear xs)))"

lemma pos_at_After:
  "as = xs @ a # ys \<Longrightarrow> \<not> it_Deleted (h ! a) \<Longrightarrow> length (vis h (xs @ [a])) = n \<Longrightarrow>
   pos_at h as n left (After a)"
  unfolding pos_at_def by (simp del: vis_simps) blast

lemma pos_at_Inside:
  "as = xs @ a # ys \<Longrightarrow> \<not> it_Deleted (h ! a) \<Longrightarrow> 0 < unat off \<Longrightarrow>
   unat off < length (shown (h ! a)) \<Longrightarrow> length (vis h xs) + unat off = n \<Longrightarrow>
   pos_at h as n left (Inside a off)"
  unfolding pos_at_def by (simp del: vis_simps) blast

lemma pos_at_AtEnd:
  "as = xs @ dead \<Longrightarrow> list_all (\<lambda>a. it_Deleted (h ! a)) dead \<Longrightarrow>
   l = (if xs = [] then left else rear xs) \<Longrightarrow> length (vis h as) < n \<Longrightarrow> pos_at h as n left (AtEnd l)"
  unfolding pos_at_def by (simp del: vis_simps) blast

lemma rear_Cons: "rear (a # as) = (if as = [] then Some a else rear as)"
  by (simp add: rear_def)

lemma pos_at_dead:
  assumes "pos_at h as n left r" "it_Deleted (h ! a)"
  shows "pos_at h (a # as) n left r"
proof (cases r)
  case (After b)
  with assms obtain xs ys where "as = xs @ b # ys" "\<not> it_Deleted (h ! b)" "length (vis h (xs @ [b])) = n"
    by (auto simp: pos_at_def)
  with After assms(2) show ?thesis by (auto intro!: pos_at_After [where xs = "a # xs"])
next
  case (Inside b off)
  with assms obtain xs ys where "as = xs @ b # ys" "\<not> it_Deleted (h ! b)" "0 < unat off"
    "unat off < length (shown (h ! b))" "length (vis h xs) + unat off = n"
    by (auto simp: pos_at_def)
  with Inside assms(2) show ?thesis by (auto intro!: pos_at_Inside [where xs = "a # xs"])
next
  case (AtEnd l)
  with assms obtain xs dead where l: "as = xs @ dead" "list_all (\<lambda>a. it_Deleted (h ! a)) dead"
    "l = (if xs = [] then left else rear xs)" "length (vis h as) < n"
    by (auto simp: pos_at_def)
  show ?thesis
  proof (cases "xs = []")
    case True
    with AtEnd l assms(2) show ?thesis
      by (auto intro!: pos_at_AtEnd [where xs = "[]"])
  next
    case False
    with AtEnd l assms(2) show ?thesis
      by (auto simp: rear_Cons intro!: pos_at_AtEnd [where xs = "a # xs"])
  qed
qed

lemma pos_at_live:
  assumes "pos_at h as n (Some a) r" "\<not> it_Deleted (h ! a)"
  shows "pos_at h (a # as) (length (shown (h ! a)) + n) left r"
proof (cases r)
  case (After b)
  with assms obtain xs ys where "as = xs @ b # ys" "\<not> it_Deleted (h ! b)" "length (vis h (xs @ [b])) = n"
    by (auto simp: pos_at_def)
  with After show ?thesis by (auto intro!: pos_at_After [where xs = "a # xs"])
next
  case (Inside b off)
  with assms obtain xs ys where "as = xs @ b # ys" "\<not> it_Deleted (h ! b)" "0 < unat off"
    "unat off < length (shown (h ! b))" "length (vis h xs) + unat off = n"
    by (auto simp: pos_at_def)
  with Inside show ?thesis by (auto intro!: pos_at_Inside [where xs = "a # xs"])
next
  case (AtEnd l)
  with assms obtain xs dead where "as = xs @ dead" "list_all (\<lambda>a. it_Deleted (h ! a)) dead"
    "l = (if xs = [] then Some a else rear xs)" "length (vis h as) < n"
    by (auto simp: pos_at_def)
  with AtEnd show ?thesis
    by (auto simp: rear_Cons intro!: pos_at_AtEnd [where xs = "a # xs"])
qed

lemma find_pos_loop_list:
  assumes "linked h as" "\<forall>a \<in> set as. text_item (h ! a)"
    and "unat pos + length (vis h as) < 2 ^ 64" "unat pos < unat index"
  shows "\<exists>r. find_pos_loop h index (front as) pos left = Some r \<and>
    pos_at h as (unat index - unat pos) left r"
  using assms
proof (induction as arbitrary: pos left)
  case Nil
  then show ?case by (simp add: find_pos_loop.simps pos_at_def)
next
  case (Cons a as)
  let ?it = "h ! a" and ?stop = "pos + it_Length (h ! a)"
  have next_a: "it_Right ?it = front as" using Cons.prems(1) by simp
  show ?case
  proof (cases "it_Deleted ?it")
    case True
    with Cons obtain r where "find_pos_loop h index (front as) pos left = Some r"
      "pos_at h as (unat index - unat pos) left r" by fastforce
    with True next_a pos_at_dead [of h as "unat index - unat pos" left r a] show ?thesis
      by (simp add: find_pos_loop.simps [of h index "Some a"])
  next
    case False
    have len: "unat (it_Length ?it) = length (shown ?it)"
      using False Cons.prems(2) by (simp add: item_length)
    then have e: "unat ?stop = unat pos + length (shown ?it)"
      using Cons.prems(3) by (simp add: unat_plus_ok)
    consider "?stop = index" | "index < ?stop" | "?stop < index" by fastforce
    then show ?thesis
    proof cases
      case 1
      then have "pos_at h (a # as) (unat index - unat pos) left (After a)"
        using False e by (auto intro!: pos_at_After [where xs = "[]"])
      then show ?thesis using False 1 by (simp add: find_pos_loop.simps [of h index "Some a"])
    next
      case 2
      have lt: "unat index < unat ?stop" using 2 by (simp add: word_less_nat_alt)
      have "unat (index - pos) = unat index - unat pos"
        using Cons.prems(4) by (intro unat_minus_ok) (simp add: word_le_nat_alt)
      then have "pos_at h (a # as) (unat index - unat pos) left (Inside a (index - pos))"
        using False e lt Cons.prems(4) by (auto intro!: pos_at_Inside [where xs = "[]"])
      then show ?thesis using False 2 by (auto simp: find_pos_loop.simps [of h index "Some a"])
    next
      case 3
      then have lt: "unat ?stop < unat index" by (simp add: word_less_nat_alt)
      have "\<exists>r. find_pos_loop h index (front as) ?stop (Some a) = Some r \<and>
          pos_at h as (unat index - unat ?stop) (Some a) r"
        using Cons.prems e lt by (intro Cons.IH) auto
      then obtain r where r: "find_pos_loop h index (front as) ?stop (Some a) = Some r"
        "pos_at h as (unat index - unat ?stop) (Some a) r" by blast
      have "length (shown ?it) + (unat index - unat ?stop) = unat index - unat pos" using e lt by simp
      with r(2) False pos_at_live [of h as "unat index - unat ?stop" a r left]
      have "pos_at h (a # as) (unat index - unat pos) left r" by simp
      moreover have "find_pos_loop h index (Some a) pos left = Some r"
        using 3 r(1) False next_a by (subst find_pos_loop.simps) auto
      ultimately show ?thesis by simp
    qed
  qed
qed

section \<open>Splitting an item\<close>

text \<open>What a split leaves alone: everything but the heap and the store, and every other item.\<close>

definition only_heap :: "Doc \<Rightarrow> Doc \<Rightarrow> bool" where
  "only_heap d d' \<longleftrightarrow> d' = d\<lparr>d_heap := d_heap d', d_store := d_store d'\<rparr>"

definition kept_outside :: "addr list \<Rightarrow> Doc \<Rightarrow> Doc \<Rightarrow> bool" where
  "kept_outside as d d' \<longleftrightarrow> length (d_heap d) \<le> length (d_heap d') \<and>
    (\<forall>b < length (d_heap d). b \<notin> set as \<longrightarrow> d_heap d' ! b = d_heap d ! b)"

lemma only_heap_refl [simp]: "only_heap d d"
  by (simp add: only_heap_def)

lemma kept_outside_refl [simp]: "kept_outside as d d"
  by (simp add: kept_outside_def)

lemma only_heap_trans: "only_heap d e \<Longrightarrow> only_heap e f \<Longrightarrow> only_heap d f"
  unfolding only_heap_def by (cases d; cases e; cases f; simp)

lemma only_heap_upd [simp]: "only_heap d (d\<lparr>d_heap := h\<rparr>)"
  by (cases d) (simp add: only_heap_def)

lemma only_heap_store [simp]: "only_heap d (store_add a e) \<longleftrightarrow> only_heap d e"
  by (cases d; cases e) (auto simp: only_heap_def store_add_def)

lemma only_heap_fields:
  assumes "only_heap d d'"
  shows "d_share d' = d_share d" "d_currentTx d' = d_currentTx d" "d_txs d' = d_txs d"
    "d_clientID d' = d_clientID d" "d_ds d' = d_ds d" "d_events d' = d_events d"
    "d_updateHandlers d' = d_updateHandlers d"
  using arg_cong [OF assms [unfolded only_heap_def], of d_share]
    arg_cong [OF assms [unfolded only_heap_def], of d_currentTx]
    arg_cong [OF assms [unfolded only_heap_def], of d_txs]
    arg_cong [OF assms [unfolded only_heap_def], of d_clientID]
    arg_cong [OF assms [unfolded only_heap_def], of d_ds]
    arg_cong [OF assms [unfolded only_heap_def], of d_events]
    arg_cong [OF assms [unfolded only_heap_def], of d_updateHandlers]
  by simp_all

lemma text_list_relink:
  assumes "text_list d name as" "d_share d' = d_share d" "front bs = front as" "linked (d_heap d') bs"
    "distinct bs" "\<And>b. b \<in> set bs \<Longrightarrow> text_item (d_heap d' ! b)"
  shows "text_list d' name bs"
  using assms by (auto simp: text_list_def)

lemma unat_lt64: "unat (w :: u64) < 2 ^ 64"
  using unsigned_less [of w] by simp

lemma linked_right:
  "linked h (xs @ a # ys) \<Longrightarrow> it_Right (h ! a) = front ys \<and> a < length h"
  by (simp add: linked_append)

lemma splitItemAt_text:
  assumes t: "text_list d name (xs @ a # ys)" and live: "\<not> it_Deleted (d_heap d ! a)"
    and off: "0 < unat off" "unat off < length (shown (d_heap d ! a))"
  obtains d' where
    "splitItemAt a off d = Ret ((Some a, length (d_heap d)), d')"
    "length (d_heap d') = Suc (length (d_heap d))"
    "text_list d' name (xs @ a # length (d_heap d) # ys)"
    "shown (d_heap d' ! a) = take (unat off) (shown (d_heap d ! a))"
    "shown (d_heap d' ! length (d_heap d)) = drop (unat off) (shown (d_heap d ! a))"
    "\<not> it_Deleted (d_heap d' ! a)" "\<not> it_Deleted (d_heap d' ! length (d_heap d))"
    "\<And>b. b < length (d_heap d) \<Longrightarrow> b \<noteq> a \<Longrightarrow> agree (d_heap d' ! b) (d_heap d ! b)"
    "only_heap d d'" "kept_outside (xs @ a # ys) d d'"
proof -
  let ?h = "d_heap d" and ?r = "length (d_heap d)" and ?k = "unat off"
  have l: "linked ?h (xs @ a # ys)" and dist: "distinct (xs @ a # ys)"
    and items: "\<forall>b \<in> set (xs @ a # ys). text_item (?h ! b)"
    using t by (auto simp: text_list_def)
  have a: "it_Right (?h ! a) = front ys" "a < ?r" using linked_right [OF l] by auto
  obtain str where c: "it_Content (?h ! a) = GString str" and k: "it_Kind (?h ! a) = contentString"
    and n: "unat (it_Length (?h ! a)) = length (runes_of str)"
    using items live by (fastforce simp: text_item_def item_runes_def)
  have sh: "shown (?h ! a) = runes_of str" using live c by (simp add: shown_def item_runes_def)
  have fits: "length (runes_of str) < 2 ^ 64" unfolding n [symmetric] by (rule unat_lt64)
  define f :: "Item \<Rightarrow> Item" where "f = (\<lambda>i. i\<lparr>it_Content := GString (string_of_runes (take ?k (runes_of str))), it_Length := of_nat ?k\<rparr>)"
  define ri :: Item where "ri = zero_Item\<lparr>
    it_ID := mkID (Client (it_ID (?h ! a))) (Clock (it_ID (?h ! a)) + of_nat ?k),
    it_Left := Some a, it_Right := front ys, it_Parent := it_Parent (?h ! a), it_Kind := contentString,
    it_Content := GString (string_of_runes (drop ?k (runes_of str))),
    it_Length := of_nat (length (runes_of str) - ?k),
    it_OriginLeft := Some (mkID (Client (it_ID (?h ! a))) (Clock (it_ID (?h ! a)) + of_nat ?k - 1))\<rparr>"
  define d1 where "d1 = snd (split_off a f ri d)"
  have ys: "front ys \<noteq> Some a" "\<And>m. front ys = Some m \<Longrightarrow> m < ?r"
    using dist linked_bound [OF l] by (cases ys; auto)+
  note so = split_off_heap [where a = a and d = d and p = "front ys" and f = f and ri = ri, OF a(2,1) ys, folded d1_def]
  have nz: "off \<noteq> 0" using off(1) by auto
  have run: "splitItemAt a off d = Ret ((Some a, ?r), store_add ?r d1)"
    using nz off sh c k a so(1)
    by (simp add: splitItemAt_def strContent_def Let_def f_def ri_def d1_def
        min_absorb2 split_beta)
  have h: "d_heap (store_add ?r d1) = d_heap d1" by (simp add: store_add_def)
  have rl: "unat (of_nat (length (runes_of str)) - off) = length (runes_of str) - ?k"
    using fits off(2) sh by (subst unat_minus_ok) (simp_all add: word_le_nat_alt unat_of_nat_ok)
  have new: "text_item (d_heap d1 ! a)" "text_item (d_heap d1 ! ?r)"
    "shown (d_heap d1 ! a) = take ?k (runes_of str)" "shown (d_heap d1 ! ?r) = drop ?k (runes_of str)"
    "\<not> it_Deleted (d_heap d1 ! a)" "\<not> it_Deleted (d_heap d1 ! ?r)"
    "it_Right (d_heap d1 ! a) = Some ?r" "it_Right (d_heap d1 ! ?r) = front ys"
    using rl fits sh off(2) k live
    by (simp_all add: so(4,5) text_item_def shown_def f_def ri_def item_runes_def unat_of_nat_ok zero_Item_def)
  have old: "agree (d_heap d1 ! b) (?h ! b)" "it_Right (d_heap d1 ! b) = it_Right (?h ! b)"
    if "b < ?r" "b \<noteq> a" for b
    using that by (simp_all add: so(6) agree_def)
  have l1: "linked (d_heap d1) ((xs @ [a]) @ ?r # ys)"
  proof (rule linked_graft [of ?h _ ys])
    show "linked ?h ((xs @ [a]) @ ys)" "distinct (xs @ [a])" using l dist by auto
    have "linked (d_heap d1) ys"
    proof (rule linked_cong [of ?h])
      show "linked ?h ys" using linked_suffix [of ?h "xs @ [a]" ys] l by simp
      show "b < length (d_heap d1) \<and> it_Right (d_heap d1 ! b) = it_Right (?h ! b)" if "b \<in> set ys" for b
        using that dist linked_bound [OF l, of b] old(2) [of b] so(3) by auto
    qed
    then show "linked (d_heap d1) (?r # ys)" using new(8) so(3) by simp
    show "it_Right (d_heap d1 ! b) = it_Right (?h ! b)" if "b \<in> set (butlast (xs @ [a]))" for b
      using that dist linked_bound [OF l, of b] by (intro old) auto
  qed (use new(7) so(3) in simp_all)
  have dist1: "distinct (xs @ a # ?r # ys)" using dist linked_bound [OF l] by fastforce
  have items1: "text_item (d_heap d1 ! b)" if "b \<in> set (xs @ a # ?r # ys)" for b
    using that new(1,2) old(1) [of b] items linked_bound [OF l, of b] agree_text_item by fastforce
  have oh: "only_heap d (store_add ?r d1)"
    using only_heap_upd [of d "d_heap d1"] so(2) by simp
  have "front (xs @ a # ?r # ys) = front (xs @ a # ys)" by (cases xs) simp_all
  then have t1: "text_list (store_add ?r d1) name (xs @ a # ?r # ys)"
    using l1 dist1 items1 only_heap_fields(1) [OF oh] by (intro text_list_relink [OF t]) (simp_all add: h)
  have kept: "kept_outside (xs @ a # ys) d (store_add ?r d1)"
    using so(3,6) by (auto simp: kept_outside_def h dest: front_in)
  show thesis
    using run new old so(3) t1 oh kept by (intro that [of "store_add ?r d1"]) (simp_all add: h sh)
qed

end
