(* ===== verification/ArrayType.thy ===== *)
theory ArrayType
  imports TextSpec
begin

text \<open>
  \<open>array.go\<close> and \<open>xmlfragment.go\<close>: an array is a list of items of length one that hold any
  value; an XML fragment is a placeholder that only counts its children.
\<close>

section \<open>The operations\<close>

definition array_start :: "Doc \<Rightarrow> gostring \<Rightarrow> addr option" where
  "array_start d name = (case gm_get (d_share d) name of Some (TArray start _) \<Rightarrow> start | _ \<Rightarrow> None)"

partial_function (option) last_loop :: "heap \<Rightarrow> addr option \<Rightarrow> addr option \<Rightarrow> addr option option" where
  "last_loop h p lst =
    (case p of None \<Rightarrow> Some lst | Some a \<Rightarrow> last_loop h (it_Right (h ! a)) (Some a))"

definition last_id :: "Doc \<Rightarrow> addr option \<Rightarrow> ID option" where
  "last_id d p =
    (case p of
       None \<Rightarrow> None
     | Some l \<Rightarrow> Some (mkID (Client (it_ID (d_heap d ! l)))
         (Clock (it_ID (d_heap d ! l)) + it_Length (d_heap d ! l) - 1)))"

definition array_item :: "Doc \<Rightarrow> gostring \<Rightarrow> u64 \<Rightarrow> goany \<Rightarrow> addr option \<Rightarrow> Item" where
  "array_item d name clock v prev =
    zero_Item\<lparr>it_ID := mkID (d_clientID d) clock, it_OriginLeft := last_id d prev,
      it_Parent := Some name, it_Kind := contentAny, it_Content := v, it_Length := 1\<rparr>"

text \<open>
  One iteration of the loops of \<open>Push\<close> (\<open>right = None\<close>) and \<open>Insert\<close>: the item is linked, then
  added to the store and to the transaction.
\<close>

definition add_value :: "nat \<Rightarrow> gostring \<Rightarrow> addr option \<Rightarrow> addr option \<Rightarrow> goany \<Rightarrow> Doc \<Rightarrow> addr \<times> Doc" where
  "add_value tx name prev right v d =
    (let clock = doc_getState d (d_clientID d);
         (a, d1) = alloc (array_item d name clock v prev) d;
         d2 = link_item name None a prev right d1 in
     (a, tx_addItem tx a (store_add a d2)))"

fun push_loop :: "nat \<Rightarrow> gostring \<Rightarrow> addr option \<Rightarrow> goany list \<Rightarrow> Doc \<Rightarrow> Doc" where
  "push_loop tx name lst [] d = d"
| "push_loop tx name lst (v # vs) d =
    (let (a, d1) = add_value tx name lst None v d in push_loop tx name (Some a) vs d1)"

definition array_Push :: "gostring \<Rightarrow> goany list \<Rightarrow> Doc \<Rightarrow> Doc outcome" where
  "array_Push name values d =
    (case d_currentTx d of
       None \<Rightarrow> Panic (PanicMsg ''yjs: Array.Push must be called inside Transact'')
     | Some tx \<Rightarrow>
         (case last_loop (d_heap d) (array_start d name) None of
            None \<Rightarrow> Diverge
          | Some lst \<Rightarrow> Ret (push_loop tx name lst values d)))"

partial_function (option) find_index_loop ::
  "heap \<Rightarrow> u64 \<Rightarrow> addr option \<Rightarrow> u64 \<Rightarrow> addr option \<Rightarrow> addr option option" where
  "find_index_loop h index p pos lst =
    (case p of
       None \<Rightarrow> Some lst
     | Some a \<Rightarrow>
         if it_Deleted (h ! a) then find_index_loop h index (it_Right (h ! a)) pos lst
         else if pos + 1 \<ge> index then Some (Some a)
         else find_index_loop h index (it_Right (h ! a)) (pos + 1) (Some a))"

definition findItemAtIndex :: "gostring \<Rightarrow> u64 \<Rightarrow> Doc \<Rightarrow> addr option outcome" where
  "findItemAtIndex name index d =
    (if index = 0 then Ret None
     else case find_index_loop (d_heap d) index (array_start d name) 0 None of
       None \<Rightarrow> Diverge
     | Some p \<Rightarrow> Ret p)"

text \<open>
  After the first value, the previous item is looked up in the store at the clock before the
  new one, and the right neighbour is reread from the item just linked.
\<close>

fun insert_loop :: "nat \<Rightarrow> gostring \<Rightarrow> bool \<Rightarrow> addr option \<Rightarrow> addr option \<Rightarrow> goany list \<Rightarrow> Doc \<Rightarrow> Doc" where
  "insert_loop tx name first left right [] d = d"
| "insert_loop tx name first left right (v # vs) d =
    (let clock = doc_getState d (d_clientID d);
         prev = (if first then left else doc_getItem d (mkID (d_clientID d) (clock - 1)));
         (a, d1) = add_value tx name prev right v d in
     insert_loop tx name False left (it_Right (d_heap d1 ! a)) vs d1)"

definition array_Insert :: "gostring \<Rightarrow> u64 \<Rightarrow> goany list \<Rightarrow> Doc \<Rightarrow> Doc outcome" where
  "array_Insert name index values d =
    (if length values = 0 then Ret d
     else case d_currentTx d of
       None \<Rightarrow> Panic (PanicMsg ''yjs: Array.Insert must be called inside Transact'')
     | Some tx \<Rightarrow>
         obind (findItemAtIndex name index d) (\<lambda>left.
         let rightItem = (case left of Some l \<Rightarrow> it_Right (d_heap d ! l) | None \<Rightarrow> array_start d name) in
         Ret (insert_loop tx name True left rightItem values d)))"

definition array_mark :: "nat \<Rightarrow> addr \<Rightarrow> Doc \<Rightarrow> Doc" where
  "array_mark tx a d = tx_addDeletedItem tx a (upd_item a (\<lambda>i. i\<lparr>it_Deleted := True\<rparr>) d)"

partial_function (option) array_delete_loop ::
  "nat \<Rightarrow> u64 \<Rightarrow> u64 \<Rightarrow> addr option \<Rightarrow> u64 \<Rightarrow> Doc \<Rightarrow> Doc option" where
  "array_delete_loop tx index len p pos d =
    (case p of
       None \<Rightarrow> Some d
     | Some a \<Rightarrow>
         if it_Deleted (d_heap d ! a) then array_delete_loop tx index len (it_Right (d_heap d ! a)) pos d
         else if pos \<ge> index + len then Some d
         else
           (let d1 = (if pos \<ge> index then array_mark tx a d else d) in
            array_delete_loop tx index len (it_Right (d_heap d1 ! a)) (pos + 1) d1))"

definition array_Delete :: "gostring \<Rightarrow> u64 \<Rightarrow> u64 \<Rightarrow> Doc \<Rightarrow> Doc outcome" where
  "array_Delete name index len d =
    (if len = 0 then Ret d
     else case d_currentTx d of
       None \<Rightarrow> Panic (PanicMsg ''yjs: Array.Delete must be called inside Transact'')
     | Some tx \<Rightarrow>
         (case array_delete_loop tx index len (array_start d name) 0 d of
            None \<Rightarrow> Diverge
          | Some d' \<Rightarrow> Ret d'))"

partial_function (option) get_loop :: "heap \<Rightarrow> u64 \<Rightarrow> addr option \<Rightarrow> u64 \<Rightarrow> goany option option" where
  "get_loop h index p pos =
    (case p of
       None \<Rightarrow> Some None
     | Some a \<Rightarrow>
         if it_Deleted (h ! a) then get_loop h index (it_Right (h ! a)) pos
         else if pos = index then Some (Some (it_Content (h ! a)))
         else get_loop h index (it_Right (h ! a)) (pos + 1))"

definition array_Get :: "gostring \<Rightarrow> u64 \<Rightarrow> Doc \<Rightarrow> goany option outcome" where
  "array_Get name index d =
    (case get_loop (d_heap d) index (array_start d name) 0 of None \<Rightarrow> Diverge | Some r \<Rightarrow> Ret r)"

partial_function (option) count_loop :: "heap \<Rightarrow> addr option \<Rightarrow> u64 \<Rightarrow> u64 option" where
  "count_loop h p n =
    (case p of
       None \<Rightarrow> Some n
     | Some a \<Rightarrow> count_loop h (it_Right (h ! a)) (if \<not> it_Deleted (h ! a) then n + 1 else n))"

definition array_Len :: "gostring \<Rightarrow> Doc \<Rightarrow> u64 outcome" where
  "array_Len name d =
    (case count_loop (d_heap d) (array_start d name) 0 of None \<Rightarrow> Diverge | Some n \<Rightarrow> Ret n)"

partial_function (option) slice_loop :: "heap \<Rightarrow> addr option \<Rightarrow> goany list \<Rightarrow> goany list option" where
  "slice_loop h p out =
    (case p of
       None \<Rightarrow> Some out
     | Some a \<Rightarrow>
         slice_loop h (it_Right (h ! a)) (if \<not> it_Deleted (h ! a) then out @ [it_Content (h ! a)] else out))"

definition array_ToSlice :: "gostring \<Rightarrow> Doc \<Rightarrow> goany list outcome" where
  "array_ToSlice name d =
    (case slice_loop (d_heap d) (array_start d name) [] of None \<Rightarrow> Diverge | Some out \<Rightarrow> Ret out)"

text \<open>\<open>XmlFragment.Len\<close> is the same loop over its own list.\<close>

definition xml_start :: "Doc \<Rightarrow> gostring \<Rightarrow> addr option" where
  "xml_start d name = (case gm_get (d_share d) name of Some (TXml start) \<Rightarrow> start | _ \<Rightarrow> None)"

definition xml_Len :: "gostring \<Rightarrow> Doc \<Rightarrow> u64 outcome" where
  "xml_Len name d =
    (case count_loop (d_heap d) (xml_start d name) 0 of None \<Rightarrow> Diverge | Some n \<Rightarrow> Ret n)"

section \<open>The sequence of values\<close>

definition value_of :: "Item \<Rightarrow> goany list" where
  "value_of it = (if it_Deleted it then [] else [it_Content it])"

definition vals :: "heap \<Rightarrow> addr list \<Rightarrow> goany list" where
  "vals h as = concat (map (\<lambda>a. value_of (h ! a)) as)"

definition array_list :: "Doc \<Rightarrow> gostring \<Rightarrow> addr list \<Rightarrow> bool" where
  "array_list d name as \<longleftrightarrow> linked (d_heap d) as \<and> distinct as \<and>
    (\<exists>obs. gm_get (d_share d) name = Some (TArray (front as) obs))"

definition array_vals :: "Doc \<Rightarrow> addr list \<Rightarrow> goany list" where
  "array_vals d as = vals (d_heap d) as"

lemma vals_simps [simp]:
  "vals h [] = []" "vals h (a # as) = value_of (h ! a) @ vals h as"
  "vals h (xs @ ys) = vals h xs @ vals h ys"
  by (simp_all add: vals_def)

lemma vals_cong: "(\<And>a. a \<in> set as \<Longrightarrow> value_of (h' ! a) = value_of (h ! a)) \<Longrightarrow> vals h' as = vals h as"
  by (induction as) auto

lemma array_list_start: "array_list d name as \<Longrightarrow> array_start d name = front as"
  by (auto simp: array_list_def array_start_def)

section \<open>The reading loops\<close>

lemma slice_loop_list: "linked h as \<Longrightarrow> slice_loop h (front as) out = Some (out @ vals h as)"
  by (induction as arbitrary: out) (simp_all add: slice_loop.simps value_of_def)

lemma count_loop_list: "linked h as \<Longrightarrow> count_loop h (front as) n = Some (n + of_nat (length (vals h as)))"
  by (induction as arbitrary: n) (simp_all add: count_loop.simps value_of_def add_ac)

lemma last_loop_list: "linked h as \<Longrightarrow> last_loop h (front as) p = Some (if as = [] then p else rear as)"
  by (induction as arbitrary: p) (auto simp: last_loop.simps rear_Cons)

lemma get_loop_list:
  assumes "linked h as" "unat pos + length (vals h as) < 2 ^ 64" "pos \<le> index"
  shows "get_loop h index (front as) pos =
    Some (if unat index - unat pos < length (vals h as) then Some (vals h as ! (unat index - unat pos)) else None)"
  using assms
proof (induction as arbitrary: pos)
  case Nil
  then show ?case by (simp add: get_loop.simps)
next
  case (Cons a as)
  show ?case
  proof (cases "it_Deleted (h ! a)")
    case True
    with Cons show ?thesis by (subst get_loop.simps) (simp add: value_of_def)
  next
    case False
    then have up: "unat (pos + 1) = unat pos + 1" using Cons.prems(2) by (subst unat_plus_ok) (simp_all add: value_of_def)
    show ?thesis
    proof (cases "pos = index")
      case True
      with False show ?thesis by (subst get_loop.simps) (simp add: value_of_def)
    next
      case neq: False
      then have lt: "unat pos < unat index" using Cons.prems(3) by (metis order_le_less word_less_nat_alt)
      then have "pos + 1 \<le> index" using up by (simp add: word_le_nat_alt)
      with Cons up have "get_loop h index (front as) (pos + 1) =
          Some (if unat index - unat (pos + 1) < length (vals h as)
            then Some (vals h as ! (unat index - unat (pos + 1))) else None)"
        using False by (intro Cons.IH) (simp_all add: value_of_def)
      with neq False Cons.prems(1) lt up show ?thesis
        by (subst get_loop.simps) (auto simp: value_of_def nth_Cons')
    qed
  qed
qed

lemma array_ToSlice_list: "array_list d name as \<Longrightarrow> array_ToSlice name d = Ret (array_vals d as)"
  by (simp add: array_ToSlice_def array_list_start array_vals_def) (simp add: array_list_def slice_loop_list)

lemma array_Len_list: "array_list d name as \<Longrightarrow> array_Len name d = Ret (of_nat (length (array_vals d as)))"
  by (simp add: array_Len_def array_list_start array_vals_def) (simp add: array_list_def count_loop_list)

lemma array_Get_list:
  "array_list d name as \<Longrightarrow> length (array_vals d as) < 2 ^ 64 \<Longrightarrow>
   array_Get name index d =
     Ret (if unat index < length (array_vals d as) then Some (array_vals d as ! unat index) else None)"
  by (simp add: array_Get_def array_list_start array_vals_def)
    (simp add: array_list_def get_loop_list [where pos = 0, simplified])

end
