(* ===== verification/TextEdit.thy ===== *)
theory TextEdit
  imports TextSpec
begin

text \<open>
  \<open>Insert\<close> and \<open>Delete\<close> of a text refine insertion into and deletion from a list of runes:
  from a document whose text satisfies \<open>text_list\<close> both return, the result satisfies it
  again, and \<open>vis\<close> changes as the list operation says. Lists stay shorter than \<open>2 ^ 64\<close>, so
  that positions do not wrap.
\<close>

section \<open>Where an index falls\<close>

lemma vis_take:
  assumes "vis h as = vis h xs @ zs" "length (vis h xs) = n"
  shows "vis h xs = take n (vis h as)" "zs = drop n (vis h as)"
  using assms by simp_all

lemma findPositionAt_text:
  assumes t: "text_list d name as" and small: "length (text_vis d as) < 2 ^ 64"
  obtains as1 dead as2 d1 where
    "findPositionAt name index d = Ret ((rear as1, front as2), d1)"
    "text_list d1 name (as1 @ dead @ as2)" "vis (d_heap d1) dead = []"
    "vis (d_heap d1) as1 = take (unat index) (text_vis d as)"
    "vis (d_heap d1) as2 = drop (unat index) (text_vis d as)"
    "only_heap d d1" "kept_outside as d d1"
    "set (as1 @ dead @ as2) \<subseteq> set as \<union> {length (d_heap d)..}"
proof -
  let ?h = "d_heap d" and ?dead = "\<lambda>a. it_Deleted (d_heap d ! a)"
  have l: "linked ?h as" and items: "\<forall>a \<in> set as. text_item (?h ! a)"
    using t by (auto simp: text_list_def)
  have start: "text_start d name = front as" using t by (rule text_list_start)
  have gone: "vis ?h (takeWhile ?dead ys) = []" for ys
    by (rule vis_dead) (auto simp: list_all_iff dest: set_takeWhileD)
  have rest: "vis ?h (dropWhile ?dead ys) = vis ?h ys" for ys
    using gone [of ys] vis_simps(3) [of ?h "takeWhile ?dead ys" "dropWhile ?dead ys"] by simp
  show thesis
  proof (cases "index = 0")
    case True
    then show thesis
      using t l start gone [of as] rest [of as]
      by (intro that [of "[]" "dropWhile ?dead as" d "takeWhile ?dead as"])
        (simp_all add: findPositionAt_def skip_deleted_right_list text_vis_def)
  next
    case False
    then have pos: "unat (0 :: u64) < unat index" using word_less_nat_alt [of 0 index] by (simp add: word_neq_0_conv)
    have "\<exists>r. find_pos_loop ?h index (front as) 0 None = Some r \<and> pos_at ?h as (unat index - unat (0 :: u64)) None r"
      by (rule find_pos_loop_list [OF l items]) (use small pos in \<open>simp_all add: text_vis_def\<close>)
    then obtain r where r: "find_pos_loop ?h index (front as) 0 None = Some r" "pos_at ?h as (unat index) None r"
      by auto
    show thesis
    proof (cases r)
      case (After a)
      with r(2) obtain xs ys where x: "as = xs @ a # ys" "length (vis ?h (xs @ [a])) = unat index"
        by (auto simp: pos_at_def)
      have ys: "it_Right (?h ! a) = front ys" "linked ?h ys"
        using l linked_right [of ?h xs a ys] linked_suffix [of ?h "xs @ [a]" ys] by (simp_all add: x(1))
      have split: "vis ?h as = vis ?h (xs @ [a]) @ vis ?h ys" by (simp add: x(1))
      have "findPositionAt name index d = Ret ((rear (xs @ [a]), front (dropWhile ?dead ys)), d)"
        using r(1) After False by (simp add: findPositionAt_def start ys skip_deleted_right_list)
      moreover have "(xs @ [a]) @ takeWhile ?dead ys @ dropWhile ?dead ys = as" by (simp add: x(1))
      ultimately show thesis
        using vis_take [OF split x(2)]
        by (intro that [of "xs @ [a]" "dropWhile ?dead ys" d "takeWhile ?dead ys", OF _ _ gone])
          (simp_all only: t rest text_vis_def only_heap_refl kept_outside_refl Un_upper1)
    next
      case (Inside a off)
      with r(2) obtain xs ys where x: "as = xs @ a # ys" "\<not> it_Deleted (?h ! a)" "0 < unat off"
        "unat off < length (shown (?h ! a))" "length (vis ?h xs) + unat off = unat index"
        by (auto simp: pos_at_def)
      obtain d' where d':
        "splitItemAt a off d = Ret ((Some a, length ?h), d')"
        "length (d_heap d') = Suc (length ?h)"
        "text_list d' name (xs @ a # length ?h # ys)"
        "shown (d_heap d' ! a) = take (unat off) (shown (?h ! a))"
        "shown (d_heap d' ! length ?h) = drop (unat off) (shown (?h ! a))"
        "\<And>b. b < length ?h \<Longrightarrow> b \<noteq> a \<Longrightarrow> agree (d_heap d' ! b) (?h ! b)"
        "only_heap d d'" "kept_outside (xs @ a # ys) d d'"
        using splitItemAt_text [OF t [unfolded x(1)] x(2-4)] by metis
      have "distinct as" using t by (simp add: text_list_def)
      then have "vis (d_heap d') xs = vis ?h xs" "vis (d_heap d') ys = vis ?h ys"
        using linked_bound [OF l] d'(6) by (auto simp: x(1) intro!: vis_cong)
      then show thesis
        using d' r(1) Inside False start x
        by (intro that [of "xs @ [a]" "length ?h # ys" d' "[]"])
          (auto simp: findPositionAt_def text_vis_def simp flip: x(5))
    next
      case (AtEnd p)
      with r(2) obtain xs dead where x: "as = xs @ dead" "list_all ?dead dead"
        "p = (if xs = [] then None else rear xs)" "length (vis ?h as) < unat index"
        unfolding pos_at_def by auto
      then show thesis
        using t r(1) AtEnd False start vis_dead [OF x(2)]
        by (intro that [of xs "[]" d dead]) (auto simp: findPositionAt_def text_vis_def)
    qed
  qed
qed

section \<open>Insert\<close>

text \<open>The new item between two parts of a list, the deleted items between them unlinked.\<close>

lemma insert_between:
  assumes l: "linked h (as1 @ dead @ as2)" and dist: "distinct (as1 @ dead @ as2)"
    and a: "a = length h" "length h' = Suc (length h)"
    and new: "it_Right (h' ! a) = front as2"
    and lft: "\<And>b. rear as1 = Some b \<Longrightarrow> it_Right (h' ! b) = Some a"
    and oth: "\<And>b. b < length h \<Longrightarrow> rear as1 \<noteq> Some b \<Longrightarrow> it_Right (h' ! b) = it_Right (h ! b)"
  shows "linked h' (as1 @ a # as2)"
proof (rule linked_graft [of h _ "dead @ as2"])
  show "linked h (as1 @ dead @ as2)" "distinct as1" using l dist by auto
  have l2: "linked h as2" using linked_suffix [of h "as1 @ dead" as2] l by simp
  have "linked h' as2"
  proof (rule linked_cong [OF l2])
    fix b assume b: "b \<in> set as2"
    then have "rear as1 \<noteq> Some b" using dist by (cases as1 rule: rev_cases) auto
    then show "b < length h' \<and> it_Right (h' ! b) = it_Right (h ! b)"
      using oth linked_bound [OF l2 b] a by simp
  qed
  then show "linked h' (a # as2)" using new a by simp
  show "it_Right (h' ! b) = it_Right (h ! b)" if "b \<in> set (butlast as1)" for b
  proof (rule oth)
    show "b < length h" using linked_bound [OF l, of b] that by (auto dest: in_set_butlastD)
    show "rear as1 \<noteq> Some b"
      using that dist by (cases as1 rule: rev_cases) auto
  qed
  show "it_Right (h' ! last as1) = front (a # as2)" if "as1 \<noteq> []"
    using lft [of "last as1"] that by (simp add: rear_def)
qed (use a in simp)

lemma text_Insert_text:
  assumes t: "text_list d name as" and small: "length (text_vis d as) < 2 ^ 64"
    and s: "s \<noteq> []" "length (runes_of s) < 2 ^ 64" and tx: "d_currentTx d = Some tx"
  obtains as' d' where "text_Insert name index s d = Ret d'" "text_list d' name as'"
    "text_vis d' as' = take (unat index) (text_vis d as) @ runes_of s @ drop (unat index) (text_vis d as)"
    "d_currentTx d' = Some tx" "d_clientID d' = d_clientID d" "kept_outside as d d'"
    "\<And>n. n \<noteq> name \<Longrightarrow> gm_get (d_share d') n = gm_get (d_share d) n"
proof -
  obtain as1 dead as2 d1 where f:
    "findPositionAt name index d = Ret ((rear as1, front as2), d1)"
    "text_list d1 name (as1 @ dead @ as2)" "vis (d_heap d1) dead = []"
    "vis (d_heap d1) as1 = take (unat index) (text_vis d as)"
    "vis (d_heap d1) as2 = drop (unat index) (text_vis d as)"
    "only_heap d d1" "kept_outside as d d1"
    "set (as1 @ dead @ as2) \<subseteq> set as \<union> {length (d_heap d)..}"
    using findPositionAt_text [OF t small] by metis
  let ?h = "d_heap d1" and ?a = "length (d_heap d1)" and ?all = "as1 @ dead @ as2"
  have l: "linked ?h ?all" and dist: "distinct ?all" and items: "\<forall>b \<in> set ?all. text_item (?h ! b)"
    using f(2) by (auto simp: text_list_def)
  have below: "b < ?a" if "b \<in> set ?all" for b using linked_bound [OF l that] .
  define it where "it = zero_Item\<lparr>it_ID := mkID (d_clientID d1) (doc_getState d (d_clientID d)),
    it_OriginLeft := (case rear as1 of
                None \<Rightarrow> None
              | Some l \<Rightarrow> Some (mkID (Client (it_ID (?h ! l))) (Clock (it_ID (?h ! l)) + it_Length (?h ! l) - 1))),
    it_OriginRight := None, it_Parent := Some name, it_Kind := contentString,
    it_Content := GString s, it_Length := of_nat (length (runes_of s))\<rparr>"
  define d3 where "d3 = store_add ?a (d1\<lparr>d_heap := ?h @ [it]\<rparr>)"
  define d4 where "d4 = link_item name None ?a (rear as1) (front as2) d3"
  have run: "text_Insert name index s d = Ret (tx_addItem tx ?a d4)"
    using s tx f(1) by (simp add: text_Insert_def alloc_def it_def d3_def d4_def Let_def)
  have rear: "b \<in> set as1" if "rear as1 = Some b" for b
    using that by (auto simp: rear_def split: if_splits)
  have ends: "b < ?a \<and> front as2 \<noteq> Some b" if "rear as1 = Some b" for b
    using rear [OF that] below [of b] dist front_in [of as2 b] by auto
  have h3: "d_heap d3 = ?h @ [it]" by (simp add: d3_def)
  have "?a < length (d_heap d3)" "rear as1 \<noteq> Some ?a" "front as2 \<noteq> Some ?a"
    "\<And>b. rear as1 = Some b \<Longrightarrow> b < length (d_heap d3) \<and> front as2 \<noteq> Some b"
    "\<And>r. front as2 = Some r \<Longrightarrow> r < length (d_heap d3)"
    using ends below front_in [of as2] by (auto simp: h3 less_Suc_eq)
  note li = link_item_heap [OF this, where parent = name and sub = None, folded d4_def, unfolded h3]
  have new: "d_heap d4 ! ?a = it\<lparr>it_Left := rear as1, it_Right := front as2\<rparr>"
    using li(2) [of ?a] by simp
  have old: "agree (d_heap d4 ! b) (?h ! b)"
    "rear as1 \<noteq> Some b \<Longrightarrow> it_Right (d_heap d4 ! b) = it_Right (?h ! b)"
    "b \<notin> set ?all \<Longrightarrow> d_heap d4 ! b = ?h ! b" if "b < ?a" for b
    using li(2) [of b] that rear front_in [of as2 b] by (auto simp: nth_append agree_def)
  have l4: "linked (d_heap d4) (as1 @ ?a # as2)"
    by (rule insert_between [OF l dist refl]) (use li(1) new old li(2) ends in \<open>auto simp: nth_append\<close>)
  have vis4: "vis (d_heap d4) as1 = vis ?h as1" "vis (d_heap d4) as2 = vis ?h as2"
    using old(1) below by (auto intro!: vis_cong)
  have it: "text_item (d_heap d4 ! ?a)" "shown (d_heap d4 ! ?a) = runes_of s"
    using s(2) by (simp_all add: new it_def zero_Item_def text_item_def shown_def item_runes_def unat_of_nat_ok)
  obtain obs where share1: "gm_get (d_share d1) name = Some (TText (front ?all) obs)"
    using f(2) by (auto simp: text_list_def)
  have share3: "d_share d3 = d_share d1" by (simp add: d3_def)
  have share4: "gm_get (d_share d4) name = Some (TText (front (as1 @ ?a # as2)) obs)"
    "n \<noteq> name \<Longrightarrow> gm_get (d_share d4) n = gm_get (d_share d1) n" for n
    using share1 share3 by (cases as1; simp add: d4_def rear_def setFirstItem_def share_put_def update_conv')+
  have t4: "text_list d4 name (as1 @ ?a # as2)"
    unfolding text_list_def
  proof (intro conjI l4 exI ballI)
    show "distinct (as1 @ ?a # as2)" using dist below by fastforce
    show "text_item (d_heap d4 ! b)" if "b \<in> set (as1 @ ?a # as2)" for b
      using that it(1) below [of b] items old(1) [of b] agree_text_item by fastforce
    show "gm_get (d_share d4) name = Some (TText (front (as1 @ ?a # as2)) obs)" by (rule share4)
  qed
  have kept: "kept_outside as d (tx_addItem tx ?a d4)"
    unfolding kept_outside_def
  proof (intro conjI allI impI)
    show "length (d_heap d) \<le> length (d_heap (tx_addItem tx ?a d4))"
      using f(7) li(1) by (simp add: kept_outside_def)
    fix b assume b: "b < length (d_heap d)" "b \<notin> set as"
    then have "b \<notin> set ?all" "b < ?a" "?h ! b = d_heap d ! b"
      using f(7,8) by (auto simp: kept_outside_def)
    then show "d_heap (tx_addItem tx ?a d4) ! b = d_heap d ! b" using old(3) by simp
  qed
  have "text_vis (tx_addItem tx ?a d4) (as1 @ ?a # as2) =
      take (unat index) (text_vis d as) @ runes_of s @ drop (unat index) (text_vis d as)"
    by (simp add: text_vis_def vis4 it(2) f(4,5))
  moreover have "text_list (tx_addItem tx ?a d4) name (as1 @ ?a # as2)"
    using t4 by (simp add: text_list_def)
  moreover have "d_currentTx d4 = Some tx" "d_clientID d4 = d_clientID d"
    using only_heap_fields [OF f(6)] tx by (simp_all add: d4_def d3_def)
  ultimately show thesis
    using run kept share4(2) only_heap_fields(1) [OF f(6)]
    by (intro that [of "tx_addItem tx ?a d4" "as1 @ ?a # as2"]) simp_all
qed

section \<open>Delete\<close>

text \<open>What every step of the loop leaves alone.\<close>

definition edits :: "addr list \<Rightarrow> Doc \<Rightarrow> Doc \<Rightarrow> bool" where
  "edits as d d' \<longleftrightarrow> kept_outside as d d' \<and> d_share d' = d_share d \<and> d_currentTx d' = d_currentTx d \<and>
    d_clientID d' = d_clientID d"

lemma edits_refl [simp]: "edits as d d"
  by (simp add: edits_def)

lemma edits_trans:
  assumes "edits as d e" "edits bs e f" "set bs \<subseteq> set as \<union> {length (d_heap d)..}"
  shows "edits as d f"
proof -
  have "kept_outside as d f"
    unfolding kept_outside_def
  proof (intro conjI allI impI)
    show "length (d_heap d) \<le> length (d_heap f)"
      using assms(1,2) by (simp add: edits_def kept_outside_def)
    fix b assume b: "b < length (d_heap d)" "b \<notin> set as"
    then have "b < length (d_heap e)" "b \<notin> set bs" "d_heap e ! b = d_heap d ! b"
      using assms by (auto simp: edits_def kept_outside_def)
    then show "d_heap f ! b = d_heap d ! b" using assms(2) by (simp add: edits_def kept_outside_def)
  qed
  then show ?thesis using assms(1,2) by (simp add: edits_def)
qed

lemma only_heap_edits: "only_heap d d' \<Longrightarrow> kept_outside as d d' \<Longrightarrow> edits as d d'"
  by (simp add: edits_def only_heap_fields)

lemma mark_deleted_text:
  assumes t: "text_list d name (xs @ a # ys)"
  shows "text_list (mark_deleted tx a d) name (xs @ a # ys)"
    and "vis (d_heap (mark_deleted tx a d)) xs = vis (d_heap d) xs"
    and "vis (d_heap (mark_deleted tx a d)) ys = vis (d_heap d) ys"
    and "shown (d_heap (mark_deleted tx a d) ! a) = []"
    and "it_Deleted (d_heap (mark_deleted tx a d) ! a)"
    and "edits (xs @ a # ys) d (mark_deleted tx a d)"
    and "it_Right (d_heap (mark_deleted tx a d) ! a) = front ys"
proof -
  let ?h = "d_heap d" and ?h' = "d_heap (mark_deleted tx a d)"
  have l: "linked ?h (xs @ a # ys)" and dist: "distinct (xs @ a # ys)"
    and items: "\<forall>b \<in> set (xs @ a # ys). text_item (?h ! b)"
    using t by (auto simp: text_list_def)
  have h: "?h' = ?h[a := (?h ! a)\<lparr>it_Deleted := True\<rparr>]"
    by (simp add: mark_deleted_def upd_item_def)
  have a: "a < length ?h" "it_Right (?h ! a) = front ys" using linked_right [OF l] by auto
  then have at_a: "?h' ! a = (?h ! a)\<lparr>it_Deleted := True\<rparr>" by (simp add: h)
  have others: "?h' ! b = ?h ! b" if "b \<noteq> a" for b using that by (simp add: h)
  have same: "vis ?h' bs = vis ?h bs" if "a \<notin> set bs" for bs
  proof (rule vis_cong)
    fix b assume "b \<in> set bs"
    with that have "b \<noteq> a" by auto
    then show "agree (?h' ! b) (?h ! b)" by (simp add: others)
  qed
  then show "vis ?h' xs = vis ?h xs" "vis ?h' ys = vis ?h ys" using dist by simp_all
  show "shown (?h' ! a) = []" "it_Deleted (?h' ! a)" "it_Right (?h' ! a) = front ys"
    using a by (simp_all add: at_a)
  show "edits (xs @ a # ys) d (mark_deleted tx a d)"
    using others by (auto simp: edits_def kept_outside_def mark_deleted_def upd_item_def)
  have "linked ?h' (xs @ a # ys)"
  proof (rule linked_cong [OF l])
    fix b assume "b \<in> set (xs @ a # ys)"
    then show "b < length ?h' \<and> it_Right (?h' ! b) = it_Right (?h ! b)"
      using linked_bound [OF l] others [of b] at_a by (cases "b = a") (simp_all add: h)
  qed
  moreover have "text_item (?h' ! b)" if "b \<in> set (xs @ a # ys)" for b
    using items that others [of b] at_a by (cases "b = a") (auto simp: text_item_def)
  ultimately show "text_list (mark_deleted tx a d) name (xs @ a # ys)"
    using dist by (intro text_list_relink [OF t]) (simp_all add: mark_deleted_def)
qed

lemma mark_deleted_other: "b \<noteq> a \<Longrightarrow> d_heap (mark_deleted tx a d) ! b = d_heap d ! b"
  by (simp add: mark_deleted_def upd_item_def)

text \<open>
  From the item at the front of \<open>ys\<close>, with \<open>k\<close> runes to keep before the range and \<open>n\<close> runes to
  delete, the loop has this effect.
\<close>

definition deletes :: "gostring \<Rightarrow> addr list \<Rightarrow> addr list \<Rightarrow> nat \<Rightarrow> nat \<Rightarrow> Doc \<Rightarrow> Doc \<Rightarrow> bool" where
  "deletes name xs ys k n d d' \<longleftrightarrow> (\<exists>zs.
    text_list d' name (xs @ zs) \<and> (\<forall>b \<in> set xs. shown (d_heap d' ! b) = shown (d_heap d ! b)) \<and>
    vis (d_heap d') zs = take k (vis (d_heap d) ys) @ drop (k + n) (vis (d_heap d) ys) \<and>
    edits (xs @ ys) d d')"

lemma shown_vis: "(\<forall>b \<in> set xs. shown (h' ! b) = shown (h ! b)) \<Longrightarrow> vis h' xs = vis h xs"
  by (induction xs) auto

lemma deletes_none: "text_list d name (xs @ ys) \<Longrightarrow> deletes name xs ys k 0 d d"
  unfolding deletes_def by (rule exI [of _ ys]) simp

text \<open>Composing the effect of one step, which turns \<open>a\<close> into \<open>bs\<close>, with the effect of the rest.\<close>

lemma deletes_step:
  assumes rest: "deletes name (xs @ bs) zs k' n' e d'"
    and e: "edits (xs @ a # ys) d e" "\<forall>b \<in> set xs. shown (d_heap e ! b) = shown (d_heap d ! b)"
      "set bs \<union> set zs \<subseteq> insert a (set ys \<union> {length (d_heap d)..})"
    and eq: "vis (d_heap e) bs @ take k' (vis (d_heap e) zs) @ drop (k' + n') (vis (d_heap e) zs) =
      take k (vis (d_heap d) (a # ys)) @ drop (k + n) (vis (d_heap d) (a # ys))"
  shows "deletes name xs (a # ys) k n d d'"
proof -
  obtain ws where ws: "text_list d' name ((xs @ bs) @ ws)"
    "\<forall>b \<in> set (xs @ bs). shown (d_heap d' ! b) = shown (d_heap e ! b)"
    "vis (d_heap d') ws = take k' (vis (d_heap e) zs) @ drop (k' + n') (vis (d_heap e) zs)"
    "edits ((xs @ bs) @ zs) e d'"
    using rest unfolding deletes_def by blast
  have "edits (xs @ a # ys) d d'"
    using e(3) by (intro edits_trans [OF e(1) ws(4)]) auto
  moreover have "vis (d_heap d') bs = vis (d_heap e) bs" using ws(2) by (intro shown_vis) auto
  ultimately show ?thesis
    unfolding deletes_def using ws e(2) eq by (intro exI [of _ "bs @ ws"]) auto
qed

lemma delete_loop_stop: "delete_loop tx index p pos 0 d = Some (Ret d)"
  by (subst delete_loop.simps) (simp split: option.split)

lemma delete_loop_body:
  "0 < rem \<Longrightarrow> delete_body tx index a pos rem d = Ret (pos', rem', d') \<Longrightarrow>
   delete_loop tx index (Some a) pos rem d = delete_loop tx index (it_Right (d_heap d' ! a)) pos' rem' d'"
  by (subst delete_loop.simps) simp

lemma delete_loop_skip:
  assumes "it_Deleted (d_heap d ! a)"
  shows "delete_loop tx index (Some a) pos rem d = delete_loop tx index (it_Right (d_heap d ! a)) pos rem d"
proof (cases "rem = 0")
  case False
  then show ?thesis
    using assms by (intro delete_loop_body) (simp_all add: delete_body_def word_neq_0_conv)
qed (simp add: delete_loop_stop)

text \<open>
  Deleting \<open>n\<close> runes from the start of a live item \<open>a\<close>, which the body does to the item itself or
  to the right part of a split: the document \<open>e\<close> and what is left to delete.
\<close>

definition delete_prefix :: "nat \<Rightarrow> addr \<Rightarrow> u64 \<Rightarrow> Doc \<Rightarrow> (u64 \<times> Doc) outcome" where
  "delete_prefix tx a n d =
    (if it_Length (d_heap d ! a) > n then
       obind (splitItemAt a n d) (\<lambda>(_, d1). Ret (n - n, mark_deleted tx a d1))
     else Ret (n - it_Length (d_heap d ! a), mark_deleted tx a d))"

lemma delete_body_live:
  assumes "\<not> it_Deleted (d_heap d ! a)" "\<not> pos + it_Length (d_heap d ! a) \<le> index"
  shows "delete_body tx index a pos n d =
    (if pos < index then
       obind (splitItemAt a (index - pos) d) (\<lambda>((_, right), d1).
       if \<not> it_Deleted (d_heap d1 ! right) then
         obind (delete_prefix tx right n d1) (\<lambda>(n', d2). Ret (pos + it_Length (d_heap d ! a), n', d2))
       else Ret (pos + it_Length (d_heap d ! a), n, d1))
     else obind (delete_prefix tx a n d) (\<lambda>(n', d2). Ret (pos + it_Length (d_heap d ! a), n', d2)))"
  using assms
  by (cases "splitItemAt a (index - pos) d")
    (simp_all add: delete_body_def delete_prefix_def Let_def obind_assoc case_prod_unfold)

lemma delete_prefix_text:
  assumes t: "text_list d name (xs @ a # ys)" and live: "\<not> it_Deleted (d_heap d ! a)"
    and n: "0 < n"
  obtains bs n' e where "delete_prefix tx a n d = Ret (n', e)"
    "text_list e name (xs @ a # bs @ ys)" "edits (xs @ a # ys) d e"
    "\<And>b. b \<in> set xs \<Longrightarrow> shown (d_heap e ! b) = shown (d_heap d ! b)"
    "vis (d_heap e) ys = vis (d_heap d) ys" "set bs \<subseteq> {length (d_heap d)..}"
    "vis (d_heap e) (a # bs) = drop (unat n) (shown (d_heap d ! a))"
    "unat n' = unat n - length (shown (d_heap d ! a))" "bs \<noteq> [] \<Longrightarrow> n' = 0" "it_Deleted (d_heap e ! a)"
proof -
  have l: "linked (d_heap d) (xs @ a # ys)" and dist: "distinct (xs @ a # ys)"
    and items: "\<forall>b \<in> set (xs @ a # ys). text_item (d_heap d ! b)"
    using t by (auto simp: text_list_def)
  have len: "unat (it_Length (d_heap d ! a)) = length (shown (d_heap d ! a))"
    using items live by (intro item_length) auto
  have ne: "b \<noteq> a" if "b \<in> set xs \<union> set ys" for b using dist that by auto
  show thesis
  proof (cases "n < it_Length (d_heap d ! a)")
    case True
    then have off: "0 < unat n" "unat n < length (shown (d_heap d ! a))"
      using n len by (simp_all add: word_less_nat_alt)
    obtain d1 where d1: "splitItemAt a n d = Ret ((Some a, length (d_heap d)), d1)"
      "length (d_heap d1) = Suc (length (d_heap d))"
      "text_list d1 name (xs @ a # length (d_heap d) # ys)"
      "shown (d_heap d1 ! length (d_heap d)) = drop (unat n) (shown (d_heap d ! a))"
      "\<And>b. b < length (d_heap d) \<Longrightarrow> b \<noteq> a \<Longrightarrow> agree (d_heap d1 ! b) (d_heap d ! b)"
      "only_heap d d1" "kept_outside (xs @ a # ys) d d1"
      using splitItemAt_text [OF t live off] by metis
    let ?e = "mark_deleted tx a d1" and ?r = "length (d_heap d)"
    note m = mark_deleted_text [OF d1(3), of tx]
    have same: "shown (d_heap ?e ! b) = shown (d_heap d ! b)" if "b \<in> set xs \<union> set ys" for b
      using d1(5) [of b] ne [OF that] linked_bound [OF l, of b] that
      by (auto simp: mark_deleted_other agree_shown)
    have "edits (xs @ a # ys) d ?e"
      by (rule edits_trans [OF only_heap_edits [OF d1(6,7)] m(6)]) auto
    moreover have "vis (d_heap ?e) ys = vis (d_heap d) ys" using same by (intro shown_vis) auto
    moreover have "?r \<noteq> a" using linked_bound [OF l, of a] by auto
    moreover have "delete_prefix tx a n d = Ret (0, ?e)" using True d1(1) by (simp add: delete_prefix_def)
    ultimately show thesis
      using m same d1(4) off by (intro that [of 0 ?e "[?r]"]) (simp_all add: mark_deleted_other)
  next
    case False
    let ?e = "mark_deleted tx a d"
    note m = mark_deleted_text [OF t, of tx]
    have le: "length (shown (d_heap d ! a)) \<le> unat n" using False len by (simp add: word_less_nat_alt not_less)
    have "unat (n - it_Length (d_heap d ! a)) = unat n - length (shown (d_heap d ! a))"
      using False len by (simp add: unat_minus_ok not_less)
    with False le m ne show thesis
      by (intro that [of "n - it_Length (d_heap d ! a)" ?e "[]"])
        (simp_all add: delete_prefix_def mark_deleted_other)
  qed
qed

lemma delete_after_prefix:
  assumes t: "text_list d name (xs @ a # ys)" and live: "\<not> it_Deleted (d_heap d ! a)"
    and n: "0 < n"
    and IH: "\<And>xs n e. text_list e name (xs @ ys) \<Longrightarrow> vis (d_heap e) ys = vis (d_heap d) ys \<Longrightarrow>
      \<exists>d'. delete_loop tx index (front ys) pos n e = Some (Ret d') \<and> deletes name xs ys 0 (unat n) e d'"
  obtains bs n' e d' where "delete_prefix tx a n d = Ret (n', e)" "text_list e name (xs @ a # bs)"
    "delete_loop tx index (it_Right (d_heap e ! a)) pos n' e = Some (Ret d')"
    "it_Deleted (d_heap e ! a)" "deletes name xs (a # ys) 0 (unat n) d d'"
proof -
  obtain bs n' e where p: "delete_prefix tx a n d = Ret (n', e)"
    "text_list e name (xs @ a # bs @ ys)" "edits (xs @ a # ys) d e"
    "\<And>b. b \<in> set xs \<Longrightarrow> shown (d_heap e ! b) = shown (d_heap d ! b)"
    "vis (d_heap e) ys = vis (d_heap d) ys" "set bs \<subseteq> {length (d_heap d)..}"
    "vis (d_heap e) (a # bs) = drop (unat n) (shown (d_heap d ! a))"
    "unat n' = unat n - length (shown (d_heap d ! a))" "bs \<noteq> [] \<Longrightarrow> n' = 0" "it_Deleted (d_heap e ! a)"
    using delete_prefix_text [OF t live n, of tx] by metis
  show thesis
  proof (cases "n' = 0")
    case True
    have le: "unat n \<le> length (shown (d_heap d ! a))" using p(8) True by simp
    have "deletes name (xs @ a # bs) ys 0 0 e e" using p(2) by (intro deletes_none) simp
    then have "deletes name xs (a # ys) 0 (unat n) d e"
      by (rule deletes_step) (use p le in auto)
    then show thesis using p True by (intro that [of n' e "bs @ ys" e]) (simp_all add: delete_loop_stop)
  next
    case False
    then have bs: "bs = []" using p(9) by blast
    have ge: "length (shown (d_heap d ! a)) \<le> unat n" using p(8) False by (metis diff_is_0_eq' nle_le unat_0 word_unat_eq_iff)
    obtain d' where d': "delete_loop tx index (front ys) pos n' e = Some (Ret d')"
      "deletes name (xs @ [a]) ys 0 (unat n') e d'"
      using IH [of e "xs @ [a]" n'] p(2,5) bs by auto
    have "deletes name xs (a # ys) 0 (unat n) d d'"
      by (rule deletes_step [OF d'(2)]) (use p ge bs in auto)
    moreover have "it_Right (d_heap e ! a) = front ys"
      using p(2) bs by (auto simp: text_list_def dest: linked_right)
    ultimately show thesis using p bs d'(1) by (intro that [of n' e ys d']) simp_all
  qed
qed

lemma delete_loop_text:
  assumes "text_list d name (xs @ ys)" "unat pos + length (vis (d_heap d) ys) < 2 ^ 64"
  shows "\<exists>d'. delete_loop tx index (front ys) pos n d = Some (Ret d') \<and>
    deletes name xs ys (unat index - unat pos) (unat n) d d'"
  using assms
proof (induction ys arbitrary: xs pos n d)
  case Nil
  then show ?case
    by (subst delete_loop.simps) (auto simp: deletes_def intro: exI [of _ "[]"])
next
  case (Cons a ys)
  let ?it = "d_heap d ! a" and ?stop = "pos + it_Length (d_heap d ! a)" and ?V = "vis (d_heap d) ys"
  note t = Cons.prems(1)
  have l: "linked (d_heap d) (xs @ a # ys)" and dist: "distinct (xs @ a # ys)"
    and items: "\<forall>b \<in> set (xs @ a # ys). text_item (d_heap d ! b)"
    using t by (auto simp: text_list_def)
  have next_a: "it_Right ?it = front ys" using linked_right [OF l] by simp
  show ?case
  proof (cases "n = 0")
    case True
    then show ?thesis using deletes_none [OF t] by (simp add: delete_loop_stop)
  next
    case False
    then have n: "0 < n" by (simp add: word_neq_0_conv)
    show ?thesis
    proof (cases "it_Deleted ?it")
      case True
      obtain d' where d': "delete_loop tx index (front ys) pos n d = Some (Ret d')"
        "deletes name (xs @ [a]) ys (unat index - unat pos) (unat n) d d'"
        using Cons.IH [of d "xs @ [a]" pos n] Cons.prems True by auto
      have "deletes name xs (a # ys) (unat index - unat pos) (unat n) d d'"
        by (rule deletes_step [OF d'(2)]) (use True in auto)
      with d'(1) True next_a show ?thesis by (simp add: delete_loop_skip)
    next
      case live: False
      have len: "unat (it_Length ?it) = length (shown ?it)"
        using items live by (intro item_length) auto
      then have e: "unat ?stop = unat pos + length (shown ?it)"
        using Cons.prems(2) by (simp add: unat_plus_ok)
      have small: "unat ?stop + length ?V < 2 ^ 64" using Cons.prems(2) e by simp
      show ?thesis
      proof (cases "?stop \<le> index")
        case True
        then have le: "unat pos + length (shown ?it) \<le> unat index"
          using e by (simp add: word_le_nat_alt)
        obtain d' where d': "delete_loop tx index (front ys) ?stop n d = Some (Ret d')"
          "deletes name (xs @ [a]) ys (unat index - unat ?stop) (unat n) d d'"
          using Cons.IH [of d "xs @ [a]" ?stop n] t small by auto
        have "deletes name xs (a # ys) (unat index - unat pos) (unat n) d d'"
          by (rule deletes_step [OF d'(2)]) (use le e in auto)
        moreover have "delete_loop tx index (Some a) pos n d = delete_loop tx index (front ys) ?stop n d"
          using delete_loop_body [OF n, of tx index a pos d ?stop n d] True live next_a
          by (simp add: delete_body_def)
        ultimately show ?thesis using d'(1) by simp
      next
        case ends: False
        then have past: "unat index \<le> unat ?stop" by (simp add: word_le_nat_alt)
        note body = delete_body_live [OF live ends, of tx n]
        have IH: "\<exists>d'. delete_loop tx index (front ys) ?stop m e = Some (Ret d') \<and>
            deletes name zs ys 0 (unat m) e d'"
          if "text_list e name (zs @ ys)" "vis (d_heap e) ys = ?V" for zs m e
          using Cons.IH [OF that(1), of ?stop m] that(2) small past by simp
        show ?thesis
        proof (cases "pos < index")
          case False
          obtain bs n' e d' where p: "delete_prefix tx a n d = Ret (n', e)" "text_list e name (xs @ a # bs)"
            "delete_loop tx index (it_Right (d_heap e ! a)) ?stop n' e = Some (Ret d')"
            "deletes name xs (a # ys) 0 (unat n) d d'"
            using delete_after_prefix [OF t live n IH] by metis
          have "delete_loop tx index (Some a) pos n d = Some (Ret d')"
            using delete_loop_body [OF n, of tx index a pos d ?stop n' e] False body p by simp
          then show ?thesis using p(4) False by (simp add: word_less_nat_alt)
        next
          case True
          then have k: "unat (index - pos) = unat index - unat pos" "unat pos < unat index"
            using unat_minus_ok [OF less_imp_le [OF True]] by (simp_all add: word_less_nat_alt)
          have "unat index < unat pos + length (shown ?it)"
            using ends e by (simp add: word_le_nat_alt)
          then have off: "0 < unat (index - pos)" "unat (index - pos) < length (shown ?it)"
            using k by simp_all
          obtain d1 where d1: "splitItemAt a (index - pos) d = Ret ((Some a, length (d_heap d)), d1)"
            "length (d_heap d1) = Suc (length (d_heap d))"
            "text_list d1 name (xs @ a # length (d_heap d) # ys)"
            "shown (d_heap d1 ! a) = take (unat (index - pos)) (shown ?it)"
            "shown (d_heap d1 ! length (d_heap d)) = drop (unat (index - pos)) (shown ?it)"
            "\<not> it_Deleted (d_heap d1 ! length (d_heap d))"
            "\<And>b. b < length (d_heap d) \<Longrightarrow> b \<noteq> a \<Longrightarrow> agree (d_heap d1 ! b) (d_heap d ! b)"
            "only_heap d d1" "kept_outside (xs @ a # ys) d d1"
            using splitItemAt_text [OF t live off] by metis
          let ?r = "length (d_heap d)"
          have same: "shown (d_heap d1 ! b) = shown (d_heap d ! b)" if "b \<in> set xs \<union> set ys" for b
            using d1(7) [of b] dist linked_bound [OF l, of b] that by (auto intro: agree_shown)
          have ys1: "vis (d_heap d1) ys = ?V" using same by (intro shown_vis) auto
          have t1: "text_list d1 name ((xs @ [a]) @ ?r # ys)" using d1(3) by simp
          obtain bs n' f d' where p: "delete_prefix tx ?r n d1 = Ret (n', f)"
            "text_list f name ((xs @ [a]) @ ?r # bs)"
            "delete_loop tx index (it_Right (d_heap f ! ?r)) ?stop n' f = Some (Ret d')"
            "it_Deleted (d_heap f ! ?r)" "deletes name (xs @ [a]) (?r # ys) 0 (unat n) d1 d'"
            using delete_after_prefix [OF t1 d1(6) n IH [folded ys1]] by metis
          have "linked (d_heap f) (xs @ a # ?r # bs)" using p(2) by (simp add: text_list_def)
          then have "it_Right (d_heap f ! a) = Some ?r" using linked_right by fastforce
          then have "delete_loop tx index (Some a) pos n d = Some (Ret d')"
            using delete_loop_body [OF n, of tx index a pos d ?stop n' f] True body d1(1,6) p(1,3,4)
            by (simp add: delete_loop_skip)
          moreover have "deletes name xs (a # ys) (unat index - unat pos) (unat n) d d'"
            by (rule deletes_step [OF p(5)])
              (use only_heap_edits [OF d1(8,9)] same d1(4,5) k off ys1 in \<open>auto simp: add.commute\<close>)
          ultimately show ?thesis by simp
        qed
      qed
    qed
  qed
qed

lemma text_Delete_text:
  assumes t: "text_list d name as" and small: "length (text_vis d as) < 2 ^ 64"
    and tx: "d_currentTx d = Some tx"
  obtains as' d' where "text_Delete name index n d = Ret d'" "text_list d' name as'"
    "text_vis d' as' = take (unat index) (text_vis d as) @ drop (unat index + unat n) (text_vis d as)"
    "edits as d d'"
proof (cases "n = 0")
  case True
  then show thesis using t by (intro that [of d as]) (simp_all add: text_Delete_def)
next
  case False
  obtain d' where "delete_loop tx index (front as) 0 n d = Some (Ret d')"
    "deletes name [] as (unat index) (unat n) d d'"
    using delete_loop_text [of d name "[]" as 0 tx index n] t small by (auto simp: text_vis_def)
  then show thesis
    using False tx text_list_start [OF t]
    by (auto simp: deletes_def text_Delete_def text_vis_def intro: that)
qed

end
