(* ===== verification/ArrayEdit.thy ===== *)
theory ArrayEdit
  imports ArrayType TextEdit
begin

text \<open>
  \<open>Push\<close>, \<open>Insert\<close> and \<open>Delete\<close> of an array refine the operations on the list of its values.
  \<open>Insert\<close> of several values finds the previous one through the struct store, so it also needs
  the store of the own client to be in order, which every step keeps.
\<close>

section \<open>The own client's slice of the store\<close>

definition own_items :: "Doc \<Rightarrow> addr list" where
  "own_items d = store_items (d_store d) (d_clientID d)"

text \<open>
  In clock order, and the addresses are allocated; \<open>room n\<close> clocks are left before the counter
  wraps.
\<close>

definition own_ok :: "Doc \<Rightarrow> nat \<Rightarrow> bool" where
  "own_ok d n \<longleftrightarrow> clocks_ok (d_heap d) (own_items d) \<and>
    (\<forall>a \<in> set (own_items d). a < length (d_heap d) \<and> Client (it_ID (d_heap d ! a)) = d_clientID d) \<and>
    unat (doc_getState d (d_clientID d)) + n < 2 ^ 64"

text \<open>A heap that keeps the identifiers and the lengths keeps the order of the slice.\<close>

definition same_clock :: "Item \<Rightarrow> Item \<Rightarrow> bool" where
  "same_clock i j \<longleftrightarrow> it_ID i = it_ID j \<and> it_Length i = it_Length j"

lemma clocks_ok_cong:
  "clocks_ok h as \<Longrightarrow> (\<And>a. a \<in> set as \<Longrightarrow> same_clock (h' ! a) (h ! a)) \<Longrightarrow> clocks_ok h' as"
  by (induction h as rule: clocks_ok.induct)
    (auto simp: item_end_def item_clock_def same_clock_def)

lemma clocks_ok_snoc:
  "clocks_ok h as \<Longrightarrow> item_end h a < 2 ^ 64 \<Longrightarrow> (as \<noteq> [] \<Longrightarrow> item_end h (last as) \<le> item_clock h a) \<Longrightarrow>
   clocks_ok h (as @ [a])"
  by (induction h as rule: clocks_ok.induct) auto

lemma getState_end:
  assumes "clocks_ok h (store_items s c)"
  shows "unat (getState h s c) = (if store_items s c = [] then 0 else item_end h (last (store_items s c)))"
  using clocks_ok_end [OF assms, of "last (store_items s c)"]
  by (auto simp: getState_def Let_def item_end_def item_clock_def unat_plus_ok)

lemma store_items_addItem:
  "store_items (addItem h s a) c =
    (if c = Client (it_ID (h ! a)) then store_items s c @ [a] else store_items s c)"
  by (simp add: store_items_def addItem_def Let_def update_conv')

text \<open>A new item of the own client at the current clock keeps the slice in order.\<close>

lemma own_ok_add:
  assumes ok: "own_ok d n" and a: "a < length (d_heap d')" "it_ID (d_heap d' ! a) = mkID (d_clientID d) (doc_getState d (d_clientID d))"
    and len: "unat (it_Length (d_heap d' ! a)) = m" "m \<le> n"
    and keep: "\<And>b. b < length (d_heap d) \<Longrightarrow> same_clock (d_heap d' ! b) (d_heap d ! b)"
    and more: "length (d_heap d) \<le> length (d_heap d')"
    and store: "d_store d' = addItem (d_heap d') (d_store d) a" and c: "d_clientID d' = d_clientID d"
  shows "own_ok d' (n - m)" "own_items d' = own_items d @ [a]"
    "unat (doc_getState d' (d_clientID d')) = unat (doc_getState d (d_clientID d)) + m"
proof -
  show items: "own_items d' = own_items d @ [a]"
    by (simp add: own_items_def store c store_items_addItem a)
  have old: "clocks_ok (d_heap d') (own_items d)" "clocks_ok (d_heap d) (own_items d)"
    using ok keep by (auto simp: own_ok_def intro!: clocks_ok_cong [of "d_heap d"])
  have st: "unat (doc_getState d (d_clientID d)) =
      (if own_items d = [] then 0 else item_end (d_heap d) (last (own_items d)))"
    using getState_end [of "d_heap d" "d_store d" "d_clientID d"] old(2)
    by (simp add: doc_getState_def own_items_def)
  have lst: "item_end (d_heap d') (last (own_items d)) = item_end (d_heap d) (last (own_items d))"
    if "own_items d \<noteq> []"
  proof -
    have "last (own_items d) < length (d_heap d)" using ok that by (simp add: own_ok_def)
    from keep [OF this] show ?thesis by (simp add: item_end_def item_clock_def same_clock_def)
  qed
  have clk: "item_clock (d_heap d') a = unat (doc_getState d (d_clientID d))" by (simp add: item_clock_def a)
  have room: "unat (doc_getState d (d_clientID d)) + n < 2 ^ 64" using ok by (simp add: own_ok_def)
  have new: "clocks_ok (d_heap d') (own_items d @ [a])"
    using old(1) clk room len st lst
    by (intro clocks_ok_snoc) (auto simp: item_end_def)
  then show state: "unat (doc_getState d' (d_clientID d')) = unat (doc_getState d (d_clientID d)) + m"
    using getState_end [of "d_heap d'" "d_store d'" "d_clientID d'"] items clk len
    by (simp add: doc_getState_def own_items_def item_end_def)
  have "b < length (d_heap d') \<and> Client (it_ID (d_heap d' ! b)) = d_clientID d'" if "b \<in> set (own_items d @ [a])" for b
  proof (cases "b = a")
    case True
    then show ?thesis using a c by simp
  next
    case False
    then have "b < length (d_heap d)" "Client (it_ID (d_heap d ! b)) = d_clientID d"
      using that ok by (auto simp: own_ok_def)
    then show ?thesis using keep [of b] more c by (simp add: same_clock_def)
  qed
  with new state room len show "own_ok d' (n - m)" by (simp add: own_ok_def items)
qed

text \<open>The item that was added last is found at its own clock.\<close>

lemma getItem_last:
  assumes "clocks_ok h (as @ [a])" "store_items s (Client ident) = as @ [a]" "covers h (Clock ident) a"
  shows "getItem h s ident = Some a"
proof -
  have ok: "clocks_ok h (store_items s (Client ident))" using assms by simp
  have cov: "covers h x b \<longleftrightarrow> item_clock h b \<le> unat x \<and> unat x < item_end h b" if "b \<in> set (as @ [a])" for b x
    using clocks_ok_end [OF assms(1) that] by (rule covers_unat)
  have "\<not> covers h (Clock ident) b" if b: "b \<in> set as" for b
  proof -
    obtain i where i: "i < length as" "as ! i = b" using b by (auto simp: in_set_conv_nth)
    have "item_end h b \<le> item_clock h a"
      using clocks_ok_nth [OF assms(1), of i "length as"] i by (simp add: nth_append)
    then show ?thesis using cov [of b "Clock ident"] cov [of a "Clock ident"] assms(3) b by auto
  qed
  then have "find (covers h (Clock ident)) (as @ [a]) = Some a"
    using assms(3) by (induction as) auto
  then show ?thesis by (simp add: getItem_find [OF ok] find_item_def assms(2))
qed

section \<open>Adding one value\<close>

lemma add_value_array:
  assumes t: "array_list d name (as1 @ as2)" and ok: "own_ok d (Suc n)"
  obtains a d' where "add_value tx name (rear as1) (front as2) v d = (a, d')"
    "array_list d' name (as1 @ a # as2)"
    "array_vals d' (as1 @ a # as2) = array_vals d as1 @ v # array_vals d as2"
    "array_vals d' as2 = array_vals d as2"
    "it_Right (d_heap d' ! a) = front as2" "own_ok d' n" "own_items d' = own_items d @ [a]"
    "doc_getItem d' (mkID (d_clientID d') (doc_getState d' (d_clientID d') - 1)) = Some a"
    "d_currentTx d' = d_currentTx d" "d_clientID d' = d_clientID d" "kept_outside (as1 @ as2) d d'"
    "\<And>m. m \<noteq> name \<Longrightarrow> gm_get (d_share d') m = gm_get (d_share d) m"
proof -
  let ?h = "d_heap d" and ?a = "length (d_heap d)" and ?all = "as1 @ as2"
  define clock where "clock = doc_getState d (d_clientID d)"
  define it where "it = array_item d name clock v (rear as1)"
  define d1 where "d1 = d\<lparr>d_heap := ?h @ [it]\<rparr>"
  define d2 where "d2 = link_item name None ?a (rear as1) (front as2) d1"
  define d' where "d' = tx_addItem tx ?a (store_add ?a d2)"
  have run: "add_value tx name (rear as1) (front as2) v d = (?a, d')"
    by (simp add: add_value_def alloc_def Let_def d'_def d2_def d1_def it_def clock_def)
  have l: "linked ?h ?all" and dist: "distinct ?all" using t by (auto simp: array_list_def)
  have below: "b < ?a" if "b \<in> set ?all" for b using linked_bound [OF l that] .
  have rear: "b \<in> set as1" if "rear as1 = Some b" for b
    using that by (auto simp: rear_def split: if_splits)
  have ends: "b < ?a \<and> front as2 \<noteq> Some b" if "rear as1 = Some b" for b
    using rear [OF that] below [of b] dist front_in [of as2 b] by auto
  have h1: "d_heap d1 = ?h @ [it]" by (simp add: d1_def)
  have "?a < length (d_heap d1)" "rear as1 \<noteq> Some ?a" "front as2 \<noteq> Some ?a"
    "\<And>b. rear as1 = Some b \<Longrightarrow> b < length (d_heap d1) \<and> front as2 \<noteq> Some b"
    "\<And>r. front as2 = Some r \<Longrightarrow> r < length (d_heap d1)"
    using ends below front_in [of as2] by (auto simp: h1 less_Suc_eq)
  note li = link_item_heap [OF this, where parent = name and sub = None, folded d2_def, unfolded h1]
  have h': "d_heap d' = d_heap d2" by (simp add: d'_def)
  have new: "d_heap d2 ! ?a = it\<lparr>it_Left := rear as1, it_Right := front as2\<rparr>"
    using li(2) [of ?a] by simp
  have old: "value_of (d_heap d2 ! b) = value_of (?h ! b)" "same_clock (d_heap d2 ! b) (?h ! b)"
    "rear as1 \<noteq> Some b \<Longrightarrow> it_Right (d_heap d2 ! b) = it_Right (?h ! b)"
    "b \<notin> set ?all \<Longrightarrow> d_heap d2 ! b = ?h ! b" if "b < ?a" for b
    using li(2) [of b] that rear front_in [of as2 b] by (auto simp: nth_append value_of_def same_clock_def)
  have vals: "vals (d_heap d2) as1 = vals ?h as1" "vals (d_heap d2) as2 = vals ?h as2"
    using old(1) below by (auto intro!: vals_cong)
  have len: "length (d_heap d2) = Suc ?a" using li(1) by simp
  have "linked (d_heap d2) (as1 @ ?a # as2)"
    by (rule insert_between [of ?h as1 "[]" as2]) (use l dist len new old(3) li(2) ends in \<open>auto simp: nth_append\<close>)
  moreover obtain obs where share: "gm_get (d_share d) name = Some (TArray (front ?all) obs)"
    using t by (auto simp: array_list_def)
  then have "gm_get (d_share d2) name = Some (TArray (front (as1 @ ?a # as2)) obs)"
    "m \<noteq> name \<Longrightarrow> gm_get (d_share d2) m = gm_get (d_share d) m" for m
    by (cases as1; simp add: d2_def d1_def rear_def setFirstItem_def share_put_def update_conv')+
  note share2 = this
  moreover have "distinct (as1 @ ?a # as2)" using dist below by fastforce
  ultimately have t': "array_list d' name (as1 @ ?a # as2)"
    by (auto simp: array_list_def h' d'_def)
  have it: "value_of (d_heap d2 ! ?a) = [v]" "it_ID (d_heap d2 ! ?a) = mkID (d_clientID d) clock"
    "it_Length (d_heap d2 ! ?a) = 1"
    by (simp_all add: new it_def array_item_def zero_Item_def value_of_def)
  have store: "d_store d' = addItem (d_heap d') (d_store d) ?a" "d_clientID d' = d_clientID d"
    "d_currentTx d' = d_currentTx d"
    by (simp_all add: d'_def store_add_def d2_def d1_def)
  have n1: "unat (it_Length (d_heap d' ! ?a)) = 1" by (simp add: h' it)
  have "?a < length (d_heap d')" "it_ID (d_heap d' ! ?a) = mkID (d_clientID d) (doc_getState d (d_clientID d))"
    "1 \<le> Suc n" "length (d_heap d) \<le> length (d_heap d')"
    "\<And>b. b < length (d_heap d) \<Longrightarrow> same_clock (d_heap d' ! b) (d_heap d ! b)"
    using len it(2) old(2) by (simp_all add: h' clock_def)
  note add = own_ok_add [OF ok this(1,2) n1 this(3,5,4) store(1,2)]
  have c': "clocks_ok (d_heap d') (own_items d @ [?a])" using add(1,2) by (simp add: own_ok_def)
  have "unat (doc_getState d' (d_clientID d') - 1) = unat clock"
    using add(3) by (subst unat_minus_ok) (simp_all add: word_le_nat_alt clock_def)
  then have "doc_getState d' (d_clientID d') - 1 = clock" by (simp add: word_unat_eq_iff)
  moreover have "covers (d_heap d') clock ?a"
    using clocks_ok_end [OF c', of ?a] n1 by (subst covers_unat) (simp_all add: item_end_def item_clock_def h' it(2))
  ultimately have found: "doc_getItem d' (mkID (d_clientID d') (doc_getState d' (d_clientID d') - 1)) = Some ?a"
    unfolding doc_getItem_def using add(2) by (intro getItem_last [OF c']) (simp_all add: own_items_def store(2))
  have "kept_outside ?all d d'"
    using len old(4) by (auto simp: kept_outside_def h')
  then show thesis
    using run t' add found it new store share2(2) vals
    by (intro that [of ?a d']) (simp_all add: array_vals_def h', simp_all add: d'_def it_def array_item_def)
qed

section \<open>Push and Insert\<close>

lemma push_loop_array:
  assumes "array_list d name as" "own_ok d (length vs + n)"
  shows "\<exists>as' d'. push_loop tx name (rear as) vs d = d' \<and> array_list d' name as' \<and>
    array_vals d' as' = array_vals d as @ vs \<and> own_ok d' n \<and>
    d_currentTx d' = d_currentTx d \<and> d_clientID d' = d_clientID d"
  using assms
proof (induction vs arbitrary: d as)
  case Nil
  then show ?case by auto
next
  case (Cons v vs)
  have t: "array_list d name (as @ [])" and ok: "own_ok d (Suc (length vs + n))" using Cons.prems by simp_all
  obtain a d1 where a: "add_value tx name (rear as) (front []) v d = (a, d1)"
    "array_list d1 name (as @ [a])" "array_vals d1 (as @ [a]) = array_vals d as @ [v]"
    "own_ok d1 (length vs + n)" "d_currentTx d1 = d_currentTx d" "d_clientID d1 = d_clientID d"
    using add_value_array [OF t ok, of tx v] by (metis append_Nil2 array_vals_def front_simps(1) vals_simps(1))
  then show ?case using Cons.IH [OF a(2,4)] by auto
qed

lemma array_Push_array:
  assumes "array_list d name as" "own_ok d (length vs + n)" "d_currentTx d = Some tx"
  obtains as' d' where "array_Push name vs d = Ret d'" "array_list d' name as'"
    "array_vals d' as' = array_vals d as @ vs" "own_ok d' n" "d_currentTx d' = Some tx"
    "d_clientID d' = d_clientID d"
proof -
  have "last_loop (d_heap d) (array_start d name) None = Some (rear as)"
    using assms(1) last_loop_list [of "d_heap d" as None] array_list_start [OF assms(1)]
    by (auto simp: array_list_def rear_def)
  then show thesis
    using push_loop_array [OF assms(1,2), of tx] assms(3) that by (auto simp: array_Push_def)
qed

lemma insert_loop_array:
  assumes "array_list d name (as1 @ as2)" "own_ok d (length vs + n)"
    and "(if first then left else doc_getItem d (mkID (d_clientID d) (doc_getState d (d_clientID d) - 1))) = rear as1"
  shows "\<exists>as' d'. insert_loop tx name first left (front as2) vs d = d' \<and> array_list d' name (as' @ as2) \<and>
    array_vals d' (as' @ as2) = array_vals d as1 @ vs @ array_vals d as2 \<and> own_ok d' n \<and>
    d_currentTx d' = d_currentTx d \<and> d_clientID d' = d_clientID d"
  using assms
proof (induction vs arbitrary: d as1 first)
  case Nil
  then show ?case by (auto simp: array_vals_def)
next
  case (Cons v vs)
  have ok: "own_ok d (Suc (length vs + n))" using Cons.prems(2) by simp
  obtain a d1 where a: "add_value tx name (rear as1) (front as2) v d = (a, d1)"
    "array_list d1 name (as1 @ a # as2)"
    "array_vals d1 (as1 @ a # as2) = array_vals d as1 @ v # array_vals d as2"
    "array_vals d1 as2 = array_vals d as2"
    "it_Right (d_heap d1 ! a) = front as2" "own_ok d1 (length vs + n)"
    "doc_getItem d1 (mkID (d_clientID d1) (doc_getState d1 (d_clientID d1) - 1)) = Some a"
    "d_currentTx d1 = d_currentTx d" "d_clientID d1 = d_clientID d"
    using add_value_array [OF Cons.prems(1) ok, of tx v] by metis
  have "array_vals d1 (as1 @ [a]) = array_vals d as1 @ [v]"
    using a(3,4) by (simp add: array_vals_def)
  moreover have "\<exists>as' d'. insert_loop tx name False left (front as2) vs d1 = d' \<and> array_list d' name (as' @ as2) \<and>
      array_vals d' (as' @ as2) = array_vals d1 (as1 @ [a]) @ vs @ array_vals d1 as2 \<and> own_ok d' n \<and>
      d_currentTx d' = d_currentTx d1 \<and> d_clientID d' = d_clientID d1"
    using a by (intro Cons.IH) simp_all
  ultimately show ?case using a Cons.prems(3) by (simp add: Let_def)
qed

text \<open>The item after which \<open>Insert\<close> works ends the first \<open>index\<close> values.\<close>

lemma find_index_loop_array:
  assumes "linked h as" "unat pos + length (vals h as) < 2 ^ 64" "pos < index"
  shows "\<exists>xs ys. as = xs @ ys \<and> length (vals h xs) = min (unat index - unat pos) (length (vals h as)) \<and>
    find_index_loop h index (front as) pos lst = Some (if xs = [] then lst else rear xs)"
  using assms
proof (induction as arbitrary: pos lst)
  case Nil
  then show ?case by (simp add: find_index_loop.simps)
next
  case (Cons a as)
  have lt: "unat pos < unat index" using Cons.prems(3) by (simp add: word_less_nat_alt)
  show ?case
  proof (cases "it_Deleted (h ! a)")
    case True
    have "\<exists>xs ys. as = xs @ ys \<and> length (vals h xs) = min (unat index - unat pos) (length (vals h as)) \<and>
        find_index_loop h index (front as) pos lst = Some (if xs = [] then lst else rear xs)"
      using Cons.prems True by (intro Cons.IH) (simp_all add: value_of_def)
    then obtain xs ys where x: "as = xs @ ys" "length (vals h xs) = min (unat index - unat pos) (length (vals h as))"
      "find_index_loop h index (front as) pos lst = Some (if xs = [] then lst else rear xs)" by blast
    have step: "find_index_loop h index (Some a) pos lst = find_index_loop h index (front as) pos lst"
      using True Cons.prems(1) by (subst find_index_loop.simps) simp
    show ?thesis
    proof (cases "xs = []")
      case None: True
      with True x step show ?thesis
        by (intro exI [of _ "[]"] exI [of _ "a # as"]) (simp add: value_of_def)
    next
      case False
      with True x step show ?thesis
        by (intro exI [of _ "a # xs"] exI [of _ ys]) (simp add: value_of_def rear_Cons)
    qed
  next
    case False
    then have up: "unat (pos + 1) = unat pos + 1"
      using Cons.prems(2) by (subst unat_plus_ok) (simp_all add: value_of_def)
    show ?thesis
    proof (cases "index \<le> pos + 1")
      case True
      then have "unat index = unat pos + 1" using up lt by (simp add: word_le_nat_alt)
      moreover have "find_index_loop h index (Some a) pos lst = Some (Some a)"
        using True False by (subst find_index_loop.simps) simp
      ultimately show ?thesis
        using False by (intro exI [of _ "[a]"] exI [of _ as]) (simp add: value_of_def rear_def)
    next
      case more: False
      then have gt: "unat (pos + 1) < unat index" unfolding not_le word_less_nat_alt .
      have "\<exists>xs ys. as = xs @ ys \<and> length (vals h xs) = min (unat index - unat (pos + 1)) (length (vals h as)) \<and>
          find_index_loop h index (front as) (pos + 1) (Some a) = Some (if xs = [] then Some a else rear xs)"
        using Cons.prems False up more by (intro Cons.IH) (simp_all add: value_of_def)
      then obtain xs ys where x: "as = xs @ ys"
        "length (vals h xs) = min (unat index - unat (pos + 1)) (length (vals h as))"
        "find_index_loop h index (front as) (pos + 1) (Some a) = Some (if xs = [] then Some a else rear xs)"
        by blast
      have "find_index_loop h index (Some a) pos lst = find_index_loop h index (front as) (pos + 1) (Some a)"
        using False more Cons.prems(1) by (subst find_index_loop.simps) simp
      then show ?thesis
        using x False up gt by (intro exI [of _ "a # xs"] exI [of _ ys]) (simp add: value_of_def rear_Cons)
    qed
  qed
qed

lemma array_Insert_array:
  assumes t: "array_list d name as" and ok: "own_ok d (length vs + n)" and tx: "d_currentTx d = Some tx"
    and small: "length (array_vals d as) < 2 ^ 64"
  obtains as' d' where "array_Insert name index vs d = Ret d'" "array_list d' name as'"
    "array_vals d' as' = take (unat index) (array_vals d as) @ vs @ drop (unat index) (array_vals d as)"
    "own_ok d' n" "d_currentTx d' = Some tx" "d_clientID d' = d_clientID d"
proof (cases "vs = []")
  case True
  then show thesis using t ok tx by (intro that [of d as]) (simp_all add: array_Insert_def)
next
  case False
  have l: "linked (d_heap d) as" using t by (simp add: array_list_def)
  obtain xs ys where x: "as = xs @ ys" "findItemAtIndex name index d = Ret (rear xs)"
    "length (array_vals d xs) = min (unat index) (length (array_vals d as))"
  proof (cases "index = 0")
    case True
    then show thesis by (intro that [of "[]" as]) (simp_all add: findItemAtIndex_def array_vals_def)
  next
    case False
    then have "\<exists>xs ys. as = xs @ ys \<and> length (vals (d_heap d) xs) = min (unat index - unat (0 :: u64)) (length (vals (d_heap d) as)) \<and>
        find_index_loop (d_heap d) index (front as) 0 None = Some (if xs = [] then None else rear xs)"
      using small by (intro find_index_loop_array l) (simp_all add: array_vals_def word_neq_0_conv)
    then obtain xs ys where "as = xs @ ys" "length (vals (d_heap d) xs) = min (unat index) (length (vals (d_heap d) as))"
      "find_index_loop (d_heap d) index (front as) 0 None = Some (if xs = [] then None else rear xs)"
      by auto
    with False show thesis
      by (intro that [of xs ys])
        (simp_all add: findItemAtIndex_def array_list_start [OF t] array_vals_def rear_def)
  qed
  have right: "(case rear xs of Some l \<Rightarrow> it_Right (d_heap d ! l) | None \<Rightarrow> array_start d name) = front ys"
  proof (cases xs rule: rev_cases)
    case Nil
    then show ?thesis using array_list_start [OF t] x(1) by simp
  next
    case (snoc zs b)
    then show ?thesis using linked_right [of "d_heap d" zs b ys] l x(1) by simp
  qed
  obtain as' d' where i: "insert_loop tx name True (rear xs) (front ys) vs d = d'"
    "array_list d' name (as' @ ys)" "array_vals d' (as' @ ys) = array_vals d xs @ vs @ array_vals d ys"
    "own_ok d' n" "d_currentTx d' = d_currentTx d" "d_clientID d' = d_clientID d"
    using insert_loop_array [OF _ ok, of name xs ys True "rear xs" tx] t x(1) by auto
  have "array_vals d as = array_vals d xs @ array_vals d ys" by (simp add: x(1) array_vals_def)
  then have "take (unat index) (array_vals d as) = array_vals d xs" "drop (unat index) (array_vals d as) = array_vals d ys"
    using x(3) by (auto simp: min_def split: if_splits)
  with i False tx x(2) right show thesis by (intro that [of d' "as' @ ys"]) (simp_all add: array_Insert_def)
qed

section \<open>Delete\<close>

lemma array_mark_heap [simp]:
  "b \<noteq> a \<Longrightarrow> d_heap (array_mark tx a d) ! b = d_heap d ! b"
  "a < length (d_heap d) \<Longrightarrow> d_heap (array_mark tx a d) ! a = (d_heap d ! a)\<lparr>it_Deleted := True\<rparr>"
  "length (d_heap (array_mark tx a d)) = length (d_heap d)" "d_share (array_mark tx a d) = d_share d"
  "d_currentTx (array_mark tx a d) = d_currentTx d" "d_clientID (array_mark tx a d) = d_clientID d"
  by (simp_all add: array_mark_def upd_item_def)

lemma array_mark_list: "array_list d name as \<Longrightarrow> array_list (array_mark tx a d) name as"
  unfolding array_list_def
proof (elim conjE, intro conjI)
  assume l: "linked (d_heap d) as"
  show "linked (d_heap (array_mark tx a d)) as"
  proof (rule linked_cong [OF l])
    fix b assume "b \<in> set as"
    then show "b < length (d_heap (array_mark tx a d)) \<and>
        it_Right (d_heap (array_mark tx a d) ! b) = it_Right (d_heap d ! b)"
      using linked_bound [OF l] by (cases "b = a") simp_all
  qed
qed simp_all

text \<open>The effect of the loop from position \<open>pos\<close>, with the range ending before \<open>endp\<close>.\<close>

lemma array_delete_loop_list:
  assumes "array_list d name (xs @ ys)" "unat pos + length (vals (d_heap d) ys) < 2 ^ 64"
    and "unat index + unat len < 2 ^ 64"
  shows "\<exists>d'. array_delete_loop tx index len (front ys) pos d = Some d' \<and> array_list d' name (xs @ ys) \<and>
    (\<forall>b \<in> set xs. value_of (d_heap d' ! b) = value_of (d_heap d ! b)) \<and>
    vals (d_heap d') ys = take (unat index - unat pos) (vals (d_heap d) ys) @
      drop (unat index + unat len - unat pos) (vals (d_heap d) ys) \<and>
    d_currentTx d' = d_currentTx d \<and> d_clientID d' = d_clientID d"
  using assms(1,2)
proof (induction ys arbitrary: xs pos d)
  case Nil
  then show ?case by (simp add: array_delete_loop.simps)
next
  case (Cons a ys)
  let ?it = "d_heap d ! a" and ?V = "vals (d_heap d) ys"
  have l: "linked (d_heap d) (xs @ a # ys)" and dist: "distinct (xs @ a # ys)"
    using Cons.prems(1) by (auto simp: array_list_def)
  have a: "it_Right ?it = front ys" "a < length (d_heap d)" using linked_right [OF l] by auto
  have endp: "unat (index + len) = unat index + unat len" using assms(3) by (simp add: unat_plus_ok)
  show ?case
  proof (cases "it_Deleted ?it")
    case True
    obtain d' where "array_delete_loop tx index len (front ys) pos d = Some d'" "array_list d' name ((xs @ [a]) @ ys)"
      "\<forall>b \<in> set (xs @ [a]). value_of (d_heap d' ! b) = value_of (d_heap d ! b)"
      "vals (d_heap d') ys = take (unat index - unat pos) ?V @ drop (unat index + unat len - unat pos) ?V"
      "d_currentTx d' = d_currentTx d" "d_clientID d' = d_clientID d"
      using Cons.IH [of d "xs @ [a]" pos] Cons.prems True by (auto simp: value_of_def)
    with True a show ?thesis by (subst array_delete_loop.simps) (simp add: value_of_def)
  next
    case live: False
    then have up: "unat (pos + 1) = unat pos + 1"
      using Cons.prems(2) by (subst unat_plus_ok) (simp_all add: value_of_def)
    show ?thesis
    proof (cases "index + len \<le> pos")
      case True
      then show ?thesis
        using live Cons.prems(1) endp by (subst array_delete_loop.simps) (simp add: word_le_nat_alt)
    next
      case False
      define d1 where "d1 = (if pos \<ge> index then array_mark tx a d else d)"
      have d1: "array_list d1 name ((xs @ [a]) @ ys)" "it_Right (d_heap d1 ! a) = front ys"
        "d_currentTx d1 = d_currentTx d" "d_clientID d1 = d_clientID d"
        "value_of (d_heap d1 ! a) = (if pos \<ge> index then [] else [it_Content ?it])"
        using a live array_mark_list [OF Cons.prems(1)] Cons.prems(1) by (simp_all add: d1_def value_of_def)
      have oth: "d_heap d1 ! b = d_heap d ! b" if "b \<noteq> a" for b using that by (simp add: d1_def)
      then have V: "vals (d_heap d1) ys = ?V"
      proof (intro vals_cong)
        fix b assume "b \<in> set ys"
        then have "b \<noteq> a" using dist by auto
        then show "value_of (d_heap d1 ! b) = value_of (d_heap d ! b)" by (simp add: oth)
      qed
      obtain d' where d': "array_delete_loop tx index len (front ys) (pos + 1) d1 = Some d'" "array_list d' name ((xs @ [a]) @ ys)"
        "\<forall>b \<in> set (xs @ [a]). value_of (d_heap d' ! b) = value_of (d_heap d1 ! b)"
        "vals (d_heap d') ys = take (unat index - unat (pos + 1)) ?V @ drop (unat index + unat len - unat (pos + 1)) ?V"
        "d_currentTx d' = d_currentTx d1" "d_clientID d' = d_clientID d1"
        using Cons.IH [OF d1(1), of "pos + 1"] Cons.prems(2) live up V by (auto simp: value_of_def)
      have "array_delete_loop tx index len (Some a) pos d = Some d'"
        using live False d'(1) d1(2) by (subst array_delete_loop.simps) (simp add: d1_def Let_def)
      moreover have "value_of (d_heap d' ! b) = value_of (d_heap d ! b)" if "b \<in> set xs" for b
      proof -
        have "b \<noteq> a" using that dist by auto
        then show ?thesis using d'(3) that oth by auto
      qed
      moreover have "vals (d_heap d') (a # ys) =
          take (unat index - unat pos) (value_of ?it @ ?V) @ drop (unat index + unat len - unat pos) (value_of ?it @ ?V)"
        using d'(3,4) d1(5) up live False endp
        by (cases "pos \<ge> index") (auto simp: value_of_def word_le_nat_alt take_Cons' drop_Cons' not_le)
      ultimately show ?thesis using d' d1 by auto
    qed
  qed
qed

lemma array_Delete_array:
  assumes t: "array_list d name as" and tx: "d_currentTx d = Some tx"
    and small: "length (array_vals d as) < 2 ^ 64" "unat index + unat len < 2 ^ 64"
  obtains d' where "array_Delete name index len d = Ret d'" "array_list d' name as"
    "array_vals d' as = take (unat index) (array_vals d as) @ drop (unat index + unat len) (array_vals d as)"
    "d_currentTx d' = Some tx" "d_clientID d' = d_clientID d"
proof (cases "len = 0")
  case True
  then show thesis using t tx by (intro that [of d]) (simp_all add: array_Delete_def)
next
  case False
  obtain d' where "array_delete_loop tx index len (front as) 0 d = Some d'" "array_list d' name as"
    "array_vals d' as = take (unat index) (array_vals d as) @ drop (unat index + unat len) (array_vals d as)"
    "d_currentTx d' = Some tx" "d_clientID d' = d_clientID d"
    using array_delete_loop_list [of d name "[]" as 0 index len tx] t small tx by (auto simp: array_vals_def)
  with False tx show thesis by (intro that [of d']) (simp_all add: array_Delete_def array_list_start [OF t])
qed

end
