(* ===== verification/IntegrateSpec.thy ===== *)
theory IntegrateSpec
  imports ArrayEdit
begin

text \<open>
  What integration promises. The scan for the position returns on every list, integrating a
  known item changes nothing, and an item of a text goes to the place that the pure function
  \<open>lss_insert\<close> on lists says.
\<close>

section \<open>The place of an item\<close>

text \<open>The items the scan passes.\<close>

definition passes :: "heap \<Rightarrow> Item \<Rightarrow> addr option \<Rightarrow> addr \<Rightarrow> bool" where
  "passes h item right b \<longleftrightarrow> Some b \<noteq> right \<and> \<not> lssIsBefore item (h ! b)"

lemma lss_scan_list:
  "linked h as \<Longrightarrow> lss_scan h item right left (front as) =
    Some (if takeWhile (passes h item right) as = [] then left else rear (takeWhile (passes h item right) as),
      front (dropWhile (passes h item right) as))"
proof (induction as arbitrary: left)
  case (Cons a as)
  then show ?case
    by (cases "passes h item right a"; subst lss_scan.simps)
      (auto simp: passes_def [of h item right a] rear_Cons)
qed (simp add: lss_scan.simps)

definition lss_insert :: "heap \<Rightarrow> Item \<Rightarrow> addr option \<Rightarrow> addr \<Rightarrow> addr list \<Rightarrow> addr list" where
  "lss_insert h item right a as =
    takeWhile (passes h item right) as @ a # dropWhile (passes h item right) as"

text \<open>Linking a new item into a text, between \<open>as1\<close> and \<open>as2\<close>.\<close>

lemma link_item_text:
  assumes t: "text_list d name (as1 @ as2)" and a: "a < length (d_heap d)" "a \<notin> set (as1 @ as2)"
    and item: "text_item (d_heap d ! a)"
  shows "text_list (link_item name sub a (rear as1) (front as2) d) name (as1 @ a # as2)"
    and "b < length (d_heap d) \<Longrightarrow>
      agree (d_heap (link_item name sub a (rear as1) (front as2) d) ! b) (d_heap d ! b) \<and>
      it_ID (d_heap (link_item name sub a (rear as1) (front as2) d) ! b) = it_ID (d_heap d ! b) \<and>
      it_OriginLeft (d_heap (link_item name sub a (rear as1) (front as2) d) ! b) = it_OriginLeft (d_heap d ! b)"
    and "length (d_heap (link_item name sub a (rear as1) (front as2) d)) = length (d_heap d)"
proof -
  let ?d' = "link_item name sub a (rear as1) (front as2) d" and ?h = "d_heap d" and ?all = "as1 @ as2"
  have l: "linked ?h ?all" and dist: "distinct ?all" and items: "\<forall>b \<in> set ?all. text_item (?h ! b)"
    using t by (auto simp: text_list_def)
  have below: "b < length ?h" if "b \<in> set ?all" for b using linked_bound [OF l that] .
  have rear: "b \<in> set as1" if "rear as1 = Some b" for b
    using that by (auto simp: rear_def split: if_splits)
  have "a < length ?h" "rear as1 \<noteq> Some a" "front as2 \<noteq> Some a"
    "\<And>b. rear as1 = Some b \<Longrightarrow> b < length ?h \<and> front as2 \<noteq> Some b"
    "\<And>r. front as2 = Some r \<Longrightarrow> r < length ?h"
    using a below dist rear by (fastforce dest: front_in)+
  note li = link_item_heap [OF this, where parent = name and sub = sub]
  show agree: "agree (d_heap ?d' ! b) (?h ! b) \<and> it_ID (d_heap ?d' ! b) = it_ID (?h ! b) \<and>
    it_OriginLeft (d_heap ?d' ! b) = it_OriginLeft (?h ! b)" if "b < length ?h" for b
    using li(2) [OF _ _ that] by (auto simp: agree_def)
  show len: "length (d_heap ?d') = length ?h" using li(1) by simp
  have right: "it_Right (d_heap ?d' ! b) =
      (if b = a then front as2 else if rear as1 = Some b then Some a else it_Right (?h ! b))" if "b < length ?h" for b
    using li(2) [OF _ _ that] by auto
  have "linked (d_heap ?d') (as1 @ a # as2)"
  proof (rule linked_graft [OF l])
    show "distinct as1" using dist by simp
    have "linked (d_heap ?d') as2"
    proof (rule linked_cong [OF linked_suffix [OF l]])
      fix b assume b: "b \<in> set as2"
      then have "b \<noteq> a" "rear as1 \<noteq> Some b" using a(2) dist rear by auto
      then show "b < length (d_heap ?d') \<and> it_Right (d_heap ?d' ! b) = it_Right (?h ! b)"
        using right [of b] below [of b] b len by simp
    qed
    then show "linked (d_heap ?d') (a # as2)" using right [OF a(1)] a(1) len by simp
    show "it_Right (d_heap ?d' ! b) = it_Right (?h ! b)" if "b \<in> set (butlast as1)" for b
    proof -
      have "b \<in> set as1" using that by (rule in_set_butlastD)
      moreover have "rear as1 \<noteq> Some b" using that dist by (cases as1 rule: rev_cases) auto
      ultimately show ?thesis using right [of b] below [of b] a(2) by auto
    qed
    show "it_Right (d_heap ?d' ! last as1) = front (a # as2)" if "as1 \<noteq> []"
      using that right [of "last as1"] below [of "last as1"] a(2) by (auto simp: rear_def)
  qed (simp add: len)
  moreover obtain obs where share: "gm_get (d_share d) name = Some (TText (front ?all) obs)"
    using t by (auto simp: text_list_def)
  then have "gm_get (d_share ?d') name = Some (TText (front (as1 @ a # as2)) obs)"
    by (cases as1) (simp_all add: rear_def setFirstItem_def share_put_def update_conv')
  moreover have "text_item (d_heap ?d' ! b)" if "b \<in> set (as1 @ a # as2)" for b
    using that items item agree [of b] below [of b] a(1) agree_text_item by fastforce
  ultimately show "text_list ?d' name (as1 @ a # as2)"
    using dist a(2) unfolding text_list_def by auto
qed

text \<open>Placing an item of a text: it goes where \<open>lss_insert\<close> says, after its left origin.\<close>

lemma place_item_text:
  assumes t: "text_list d name (xs @ ys)" and a: "a < length (d_heap d)" "a \<notin> set (xs @ ys)"
    and item: "text_item (d_heap d ! a)" "it_Parent (d_heap d ! a) = Some name"
    and left: "opt_getItem d (it_OriginLeft (d_heap d ! a)) = rear xs"
    and new: "new = xs @ lss_insert (d_heap d) (d_heap d ! a) (opt_getItem d (it_OriginRight (d_heap d ! a))) a ys"
  obtains d' where "place_item a d = Ret d'" "text_list d' name new"
    "\<And>b. b < length (d_heap d) \<Longrightarrow> agree (d_heap d' ! b) (d_heap d ! b) \<and>
      it_ID (d_heap d' ! b) = it_ID (d_heap d ! b) \<and> it_OriginLeft (d_heap d' ! b) = it_OriginLeft (d_heap d ! b)"
    "length (d_heap d') = length (d_heap d)" "d_store d' = d_store d" "d_ds d' = d_ds d"
proof -
  let ?h = "d_heap d" and ?it = "d_heap d ! a"
  define right where "right = opt_getItem d (it_OriginRight ?it)"
  define pre post where "pre = takeWhile (passes ?h ?it right) ys" and "post = dropWhile (passes ?h ?it right) ys"
  have l: "linked ?h (xs @ ys)" using t by (simp add: text_list_def)
  have ys: "ys = pre @ post" by (simp add: pre_def post_def)
  have after: "itemAfter d name (rear xs) (it_ParentSub ?it) = front ys"
  proof (cases xs rule: rev_cases)
    case Nil
    then show ?thesis using t by (auto simp: itemAfter_def firstItem_def text_list_def)
  next
    case (snoc zs b)
    then show ?thesis using linked_right [of ?h zs b ys] l by (simp add: itemAfter_def)
  qed
  have "lss_scan ?h ?it right (rear xs) (front ys) = Some (rear (xs @ pre), front post)"
    using lss_scan_list [OF linked_suffix [OF l], of ?it right "rear xs"]
    by (auto simp: pre_def [symmetric] post_def [symmetric] rear_def)
  then have run: "place_item a d = Ret (link_item name (it_ParentSub ?it) a (rear (xs @ pre)) (front post) d)"
    by (simp add: place_item_def resolveParent_def item(2) left after right_def [symmetric] Let_def)
  have t': "text_list d name ((xs @ pre) @ post)" using t by (simp add: ys)
  have a': "a \<notin> set ((xs @ pre) @ post)" using a(2) by (simp add: ys)
  note li = link_item_text [OF t' a(1) a' item(1), where sub = "it_ParentSub ?it"]
  have new': "new = (xs @ pre) @ a # post"
    by (simp add: new lss_insert_def right_def [symmetric] pre_def [symmetric] post_def [symmetric])
  show thesis
    using run li
    by (intro that [of "link_item name (it_ParentSub ?it) a (rear (xs @ pre)) (front post) d"])
      (simp_all add: new')
qed

section \<open>Integrating a known item\<close>

lemma integrateItem_known: "doc_getItem d (it_ID item) \<noteq> None \<Longrightarrow> integrateItem item d = Ret d"
  by (simp add: integrateItem_def)

lemma linked_heap_append: "linked h as \<Longrightarrow> linked (h @ hs) as"
  by (induction as) (auto simp: nth_append)

end
