(* ===== verification/MapType.thy ===== *)
theory MapType
  imports DocOps
begin

text \<open>
  \<open>map.go\<close>: a shared map keeps, per key, the item that is current; a key whose item is deleted
  is absent. The operations refine those of a partial function from keys to values.
\<close>

section \<open>The operations\<close>

definition map_entries :: "Doc \<Rightarrow> gostring \<Rightarrow> (gostring, addr) gomap" where
  "map_entries d name = (case gm_get (d_share d) name of Some (TMap entries _) \<Rightarrow> entries | _ \<Rightarrow> [])"

definition set_entry :: "gostring \<Rightarrow> gostring \<Rightarrow> addr \<Rightarrow> Doc \<Rightarrow> Doc" where
  "set_entry name key a d =
    (case gm_get (d_share d) name of
       Some (TMap entries obs) \<Rightarrow> share_put name (TMap (gm_set key a entries) obs) d
     | _ \<Rightarrow> d)"

definition map_Set :: "gostring \<Rightarrow> gostring \<Rightarrow> goany \<Rightarrow> Doc \<Rightarrow> Doc outcome" where
  "map_Set name key v d =
    (case d_currentTx d of
       None \<Rightarrow> Panic (PanicMsg ''yjs: Map.Set must be called inside Transact'')
     | Some tx \<Rightarrow>
         (let clock = doc_getState d (d_clientID d);
              d1 = (case gm_get (map_entries d name) key of
                      Some old \<Rightarrow> upd_item old (\<lambda>i. i\<lparr>it_Deleted := True\<rparr>) d
                    | None \<Rightarrow> d);
              (a, d2) = alloc (zero_Item\<lparr>it_ID := mkID (d_clientID d1) clock, it_Parent := Some name,
                it_ParentSub := Some key, it_Kind := contentAny, it_Content := v, it_Length := 1\<rparr>) d1;
              d3 = set_entry name key a (store_add a d2) in
          Ret (tx_addItem tx a d3)))"

definition map_Get :: "gostring \<Rightarrow> gostring \<Rightarrow> Doc \<Rightarrow> goany option" where
  "map_Get name key d =
    (case gm_get (map_entries d name) key of
       None \<Rightarrow> None
     | Some a \<Rightarrow> if it_Deleted (d_heap d ! a) then None else Some (it_Content (d_heap d ! a)))"

definition map_Delete :: "gostring \<Rightarrow> gostring \<Rightarrow> Doc \<Rightarrow> Doc outcome" where
  "map_Delete name key d =
    (case d_currentTx d of
       None \<Rightarrow> Panic (PanicMsg ''yjs: Map.Delete must be called inside Transact'')
     | Some tx \<Rightarrow>
         (case gm_get (map_entries d name) key of
            None \<Rightarrow> Ret d
          | Some a \<Rightarrow>
              if it_Deleted (d_heap d ! a) then Ret d
              else Ret (tx_addDeletedItem tx a (upd_item a (\<lambda>i. i\<lparr>it_Deleted := True\<rparr>) d))))"

definition map_Keys :: "gostring \<Rightarrow> Doc \<Rightarrow> gostring list" where
  "map_Keys name d = map fst (filter (\<lambda>(k, a). \<not> it_Deleted (d_heap d ! a)) (map_entries d name))"

section \<open>The invariant\<close>

text \<open>
  The map is registered with these entries, which have distinct keys, and no two keys share an
  item.
\<close>

definition map_rep :: "Doc \<Rightarrow> gostring \<Rightarrow> (gostring, addr) gomap \<Rightarrow> bool" where
  "map_rep d name E \<longleftrightarrow> (\<exists>obs. gm_get (d_share d) name = Some (TMap E obs)) \<and>
    gm_ok E \<and> distinct (map snd E) \<and> (\<forall>a \<in> set (map snd E). a < length (d_heap d))"

lemma map_rep_entries: "map_rep d name E \<Longrightarrow> map_entries d name = E"
  by (auto simp: map_rep_def map_entries_def)

lemma map_rep_bound: "map_rep d name E \<Longrightarrow> gm_get E k = Some a \<Longrightarrow> a < length (d_heap d)"
  by (auto simp: map_rep_def dest!: map_of_SomeD)

lemma map_rep_inj:
  assumes "map_rep d name E" "gm_get E k = Some a" "gm_get E k' = Some a"
  shows "k = k'"
proof -
  have "(k, a) \<in> set E" "(k', a) \<in> set E" using assms(2,3) by (auto dest: map_of_SomeD)
  moreover have "inj_on snd (set E)" using assms(1) by (simp add: map_rep_def distinct_map)
  ultimately have "(k, a) = (k', a)" by (metis inj_onD snd_conv)
  then show ?thesis by simp
qed

lemma snd_set_update: "set (map snd (gm_set k a m)) \<subseteq> insert a (set (map snd m))"
  by (induction m) auto

lemma distinct_snd_update:
  "distinct (map snd m) \<Longrightarrow> a \<notin> set (map snd m) \<Longrightarrow> distinct (map snd (gm_set k a m))"
proof (induction m)
  case (Cons p m)
  then show ?case using snd_set_update [of k a m] by (cases p) auto
qed simp

lemma set_entry_fields [simp]:
  "d_heap (set_entry name key a d) = d_heap d" "d_currentTx (set_entry name key a d) = d_currentTx d"
  by (auto simp: set_entry_def share_put_def split: option.split SharedType.split)

lemma set_entry_share:
  "gm_get (d_share d) name = Some (TMap E obs) \<Longrightarrow>
   gm_get (d_share (set_entry name key a d)) name = Some (TMap (gm_set key a E) obs)"
  by (simp add: set_entry_def share_put_def update_conv')

lemma map_Set_map:
  assumes rep: "map_rep d name E" and tx: "d_currentTx d = Some tx"
  obtains d' E' where "map_Set name key v d = Ret d'" "map_rep d' name E'"
    "(\<lambda>k. map_Get name k d') = (\<lambda>k. map_Get name k d)(key \<mapsto> v)" "d_currentTx d' = Some tx"
proof -
  let ?a = "length (d_heap d)" and ?E = "gm_set key (length (d_heap d)) E"
  note E = map_rep_entries [OF rep]
  obtain obs where obs: "gm_get (d_share d) name = Some (TMap E obs)" using rep by (auto simp: map_rep_def)
  define d1 where "d1 = (case gm_get E key of
      Some old \<Rightarrow> upd_item old (\<lambda>i. i\<lparr>it_Deleted := True\<rparr>) d | None \<Rightarrow> d)"
  define it where "it = zero_Item\<lparr>it_ID := mkID (d_clientID d1) (doc_getState d (d_clientID d)),
    it_Parent := Some name, it_ParentSub := Some key, it_Kind := contentAny, it_Content := v, it_Length := 1\<rparr>"
  define d2 where "d2 = store_add ?a (d1\<lparr>d_heap := d_heap d1 @ [it]\<rparr>)"
  define d' where "d' = tx_addItem tx ?a (set_entry name key ?a d2)"
  have h1: "length (d_heap d1) = ?a" "d_share d1 = d_share d" "d_currentTx d1 = d_currentTx d"
    by (simp_all add: d1_def split: option.split)
  have run: "map_Set name key v d = Ret d'"
    using tx h1 by (simp add: map_Set_def alloc_def Let_def d'_def d2_def d1_def it_def E)
  have h': "d_heap d' = d_heap d1 @ [it]" by (simp add: d'_def d2_def)
  have share: "gm_get (d_share d') name = Some (TMap ?E obs)"
    using set_entry_share [of d2 name E obs key ?a] obs h1 by (simp add: d'_def d2_def)
  have rep': "map_rep d' name ?E"
    using rep share h1 snd_set_update [of key ?a E]
    by (fastforce simp: map_rep_def h' gm.inv_put intro!: distinct_snd_update)
  moreover have "map_Get name k d' = ((\<lambda>k. map_Get name k d)(key \<mapsto> v)) k" for k
  proof (cases "k = key")
    case True
    then show ?thesis
      using h1 by (simp add: map_Get_def map_rep_entries [OF rep'] h' update_conv' nth_append it_def zero_Item_def)
  next
    case False
    have same: "d_heap d' ! b = d_heap d ! b" if "gm_get E k = Some b" for b
    proof -
      have "x \<noteq> b" if "gm_get E key = Some x" for x
        using map_rep_inj [OF rep \<open>gm_get E k = Some b\<close>, of key] that False by auto
      then show ?thesis
        using map_rep_bound [OF rep that] h1(1)
        by (auto simp: h' nth_append d1_def upd_item_def split: option.split)
    qed
    show ?thesis
      using False by (simp add: map_Get_def E map_rep_entries [OF rep'] update_conv' same split: option.split)
  qed
  moreover have "d_currentTx d' = Some tx" using tx h1 by (simp add: d'_def d2_def)
  ultimately show thesis using run by (intro that [of d' ?E]) auto
qed

lemma map_Delete_map:
  assumes rep: "map_rep d name E" and tx: "d_currentTx d = Some tx"
  obtains d' where "map_Delete name key d = Ret d'" "map_rep d' name E"
    "(\<lambda>k. map_Get name k d') = (\<lambda>k. map_Get name k d)(key := None)" "d_currentTx d' = Some tx"
proof (cases "map_Get name key d")
  case None
  then have "map_Delete name key d = Ret d"
    using tx by (auto simp: map_Delete_def map_Get_def split: option.splits if_splits)
  with None show thesis using rep tx by (intro that [of d]) auto
next
  case (Some v)
  note E = map_rep_entries [OF rep]
  obtain a where a: "gm_get E key = Some a" "\<not> it_Deleted (d_heap d ! a)"
    using Some by (auto simp: map_Get_def E split: option.splits if_splits)
  define d' where "d' = tx_addDeletedItem tx a (upd_item a (\<lambda>i. i\<lparr>it_Deleted := True\<rparr>) d)"
  have h': "d_heap d' = (d_heap d)[a := (d_heap d ! a)\<lparr>it_Deleted := True\<rparr>]" "d_share d' = d_share d"
    by (simp_all add: d'_def upd_item_def)
  have rep': "map_rep d' name E" using rep by (auto simp: map_rep_def h')
  moreover have "map_Get name k d' = ((\<lambda>k. map_Get name k d)(key := None)) k" for k
  proof (cases "gm_get E k")
    case (Some b)
    then show ?thesis
      using a map_rep_inj [OF rep, of k b key] map_rep_bound [OF rep]
      by (cases "b = a") (auto simp: map_Get_def E map_rep_entries [OF rep'] h')
  next
    case None
    then show ?thesis by (simp add: map_Get_def E map_rep_entries [OF rep'])
  qed
  moreover have "map_Delete name key d = Ret d'" using a tx by (simp add: map_Delete_def E d'_def)
  moreover have "d_currentTx d' = Some tx" using tx by (simp add: d'_def)
  ultimately show thesis by (intro that [of d']) auto
qed

lemma map_Keys_map:
  assumes "map_rep d name E"
  shows "set (map_Keys name d) = {k. map_Get name k d \<noteq> None}" "distinct (map_Keys name d)"
proof -
  have dist: "distinct (map fst E)" using assms by (simp add: map_rep_def gm_ok_def)
  then show "distinct (map_Keys name d)"
    by (simp add: map_Keys_def map_rep_entries [OF assms] distinct_map_filter)
  have "k \<in> set (map_Keys name d) \<longleftrightarrow> map_Get name k d \<noteq> None" for k
  proof (cases "gm_get E k")
    case None
    then have "\<And>b. (k, b) \<notin> set E" by (auto simp: map_of_eq_None_iff image_iff)
    with None show ?thesis by (auto simp: map_Keys_def map_Get_def map_rep_entries [OF assms])
  next
    case (Some a)
    then have "(k, b) \<in> set E \<longleftrightarrow> b = a" for b using dist by (metis map_of_eq_Some_iff option.inject)
    then show ?thesis using Some
      by (auto simp: map_Keys_def map_Get_def map_rep_entries [OF assms] image_iff)
  qed
  then show "set (map_Keys name d) = {k. map_Get name k d \<noteq> None}" by auto
qed

end
