(* ===== verification/Sequence.thy ===== *)
theory Sequence
  imports ArrayEdit
begin

text \<open>
  The contract that \<open>Text\<close> and \<open>Array\<close> share: a sequence of elements with insertion at an index
  and deletion of a range. The locale states it once, with \<open>rep n s xs\<close> for a state that shows
  \<open>xs\<close> and has room for \<open>n\<close> more elements, and proves that any script of edits acts as it does
  on lists. The two types interpret it.
\<close>

section \<open>Scripts of edits\<close>

datatype 'e edit = Ins u64 "'e list" | Del u64 u64

fun edit_list :: "'e edit \<Rightarrow> 'e list \<Rightarrow> 'e list" where
  "edit_list (Ins i ys) xs = take (unat i) xs @ ys @ drop (unat i) xs"
| "edit_list (Del i n) xs = take (unat i) xs @ drop (unat i + unat n) xs"

fun edit_room :: "'e edit \<Rightarrow> nat" where
  "edit_room (Ins i ys) = length ys"
| "edit_room (Del i n) = 0"

fun edit_fits :: "'e edit \<Rightarrow> bool" where
  "edit_fits (Ins i ys) \<longleftrightarrow> True"
| "edit_fits (Del i n) \<longleftrightarrow> unat i + unat n < 2 ^ 64"

definition edits_list :: "'e edit list \<Rightarrow> 'e list \<Rightarrow> 'e list" where
  "edits_list es xs = fold edit_list es xs"

definition edits_room :: "'e edit list \<Rightarrow> nat" where
  "edits_room es = sum_list (map edit_room es)"

fun edit_ok :: "('e \<Rightarrow> bool) \<Rightarrow> 'e edit \<Rightarrow> bool" where
  "edit_ok ok (Ins i ys) \<longleftrightarrow> list_all ok ys"
| "edit_ok ok (Del i n) \<longleftrightarrow> True"

lemma edit_ok_any [simp]: "edit_ok (\<lambda>_. True) e"
  by (cases e) (simp_all add: list_all_iff)

text \<open>A script runs with the insertion and the deletion of a type, until one of them fails.\<close>

fun run_edits :: "(u64 \<Rightarrow> 'e list \<Rightarrow> 's \<Rightarrow> 's outcome) \<Rightarrow> (u64 \<Rightarrow> u64 \<Rightarrow> 's \<Rightarrow> 's outcome)
    \<Rightarrow> 'e edit list \<Rightarrow> 's \<Rightarrow> 's outcome" where
  "run_edits ins del [] s = Ret s"
| "run_edits ins del (Ins i ys # es) s = obind (ins i ys s) (run_edits ins del es)"
| "run_edits ins del (Del i n # es) s = obind (del i n s) (run_edits ins del es)"

section \<open>The contract\<close>

locale sequence_type =
  fixes rep :: "nat \<Rightarrow> 's \<Rightarrow> 'e list \<Rightarrow> bool"
    and ins :: "u64 \<Rightarrow> 'e list \<Rightarrow> 's \<Rightarrow> 's outcome"
    and del :: "u64 \<Rightarrow> u64 \<Rightarrow> 's \<Rightarrow> 's outcome"
    and ok :: "'e \<Rightarrow> bool"
  assumes ins_rep: "rep (length ys + n) s xs \<Longrightarrow> list_all ok ys \<Longrightarrow>
      \<exists>s'. ins i ys s = Ret s' \<and> rep n s' (take (unat i) xs @ ys @ drop (unat i) xs)"
    and del_rep: "rep n s xs \<Longrightarrow> unat i + unat k < 2 ^ 64 \<Longrightarrow>
      \<exists>s'. del i k s = Ret s' \<and> rep n s' (take (unat i) xs @ drop (unat i + unat k) xs)"
begin

lemma run_rep:
  assumes "rep (edits_room es + n) s xs" "list_all edit_fits es" "list_all (edit_ok ok) es"
  shows "\<exists>s'. run_edits ins del es s = Ret s' \<and> rep n s' (edits_list es xs)"
  using assms
proof (induction es arbitrary: s xs)
  case Nil
  then show ?case by (simp add: edits_room_def edits_list_def)
next
  case (Cons e es)
  show ?case
  proof (cases e)
    case (Ins i ys)
    then have "rep (length ys + (edits_room es + n)) s xs" "list_all ok ys"
      using Cons.prems by (simp_all add: edits_room_def add.assoc)
    from ins_rep [OF this, of i] obtain s1 where s1: "ins i ys s = Ret s1"
      "rep (edits_room es + n) s1 (take (unat i) xs @ ys @ drop (unat i) xs)" by blast
    then show ?thesis
      using Cons.IH [OF s1(2)] Cons.prems Ins by (simp add: edits_list_def)
  next
    case (Del i k)
    then have "rep (edits_room es + n) s xs" "unat i + unat k < 2 ^ 64"
      using Cons.prems by (simp_all add: edits_room_def)
    from del_rep [OF this] obtain s1 where s1: "del i k s = Ret s1"
      "rep (edits_room es + n) s1 (take (unat i) xs @ drop (unat i + unat k) xs)" by blast
    then show ?thesis
      using Cons.IH [OF s1(2)] Cons.prems Del by (simp add: edits_list_def)
  qed
qed

end

section \<open>Text\<close>

definition text_rep :: "gostring \<Rightarrow> nat \<Rightarrow> Doc \<Rightarrow> rune list \<Rightarrow> bool" where
  "text_rep name n d xs \<longleftrightarrow> (\<exists>as. text_list d name as \<and> text_vis d as = xs) \<and> d_currentTx d \<noteq> None \<and>
    length xs + n < 2 ^ 64"

definition text_ins :: "gostring \<Rightarrow> u64 \<Rightarrow> rune list \<Rightarrow> Doc \<Rightarrow> Doc outcome" where
  "text_ins name i rs = text_Insert name i (string_of_runes rs)"

lemma text_ins_rep:
  assumes "text_rep name (length ys + n) d xs" "list_all valid_rune ys"
  shows "\<exists>d'. text_ins name i ys d = Ret d' \<and> text_rep name n d' (take (unat i) xs @ ys @ drop (unat i) xs)"
proof (cases "ys = []")
  case True
  then show ?thesis using assms by (simp add: text_ins_def text_Insert_def string_of_runes_def)
next
  case False
  obtain as tx where a: "text_list d name as" "text_vis d as = xs" "d_currentTx d = Some tx"
    and small: "length xs + (length ys + n) < 2 ^ 64"
    using assms(1) by (auto simp: text_rep_def)
  have ys: "runes_of (string_of_runes ys) = ys" using assms(2) by (rule runes_of_string_of_runes)
  then have "string_of_runes ys \<noteq> []" using False by auto
  moreover have "length (text_vis d as) < 2 ^ 64" "length (runes_of (string_of_runes ys)) < 2 ^ 64"
    using a(2) ys small by simp_all
  ultimately obtain as' d' where
    "text_Insert name i (string_of_runes ys) d = Ret d'" "text_list d' name as'"
    "text_vis d' as' = take (unat i) xs @ ys @ drop (unat i) xs" "d_currentTx d' = Some tx"
    using text_Insert_text [OF a(1) _ _ _ a(3)] a(2) ys by metis
  then show ?thesis using small by (auto simp: text_ins_def text_rep_def)
qed

lemma text_del_rep:
  assumes "text_rep name n d xs"
  shows "\<exists>d'. text_Delete name i k d = Ret d' \<and> text_rep name n d' (take (unat i) xs @ drop (unat i + unat k) xs)"
proof -
  obtain as tx where a: "text_list d name as" "text_vis d as = xs" "d_currentTx d = Some tx"
    and small: "length xs + n < 2 ^ 64"
    using assms(1) by (auto simp: text_rep_def)
  obtain as' d' where "text_Delete name i k d = Ret d'" "text_list d' name as'"
    "text_vis d' as' = take (unat i) xs @ drop (unat i + unat k) xs" "edits as d d'"
    using text_Delete_text [OF a(1) _ a(3)] a(2) small by (metis add_lessD1)
  then show ?thesis using small a(3) by (auto simp: text_rep_def edits_def)
qed

interpretation text_seq: sequence_type "text_rep name" "text_ins name" "text_Delete name" valid_rune for name
  by unfold_locales (blast intro: text_ins_rep text_del_rep)+

section \<open>Array\<close>

definition array_rep :: "gostring \<Rightarrow> nat \<Rightarrow> Doc \<Rightarrow> goany list \<Rightarrow> bool" where
  "array_rep name n d xs \<longleftrightarrow> (\<exists>as. array_list d name as \<and> array_vals d as = xs) \<and> d_currentTx d \<noteq> None \<and>
    own_ok d n \<and> length xs + n < 2 ^ 64"

text \<open>A delete sets the flags of items and leaves all else alone: the store, and what an item says.\<close>

definition flagless :: "Item \<Rightarrow> Item" where
  "flagless i = i\<lparr>it_Deleted := False\<rparr>"

lemma flagless_clock: "flagless i = flagless j \<Longrightarrow> same_clock i j"
  by (cases i; cases j) (simp add: flagless_def same_clock_def)

definition marks_only :: "Doc \<Rightarrow> Doc \<Rightarrow> bool" where
  "marks_only d d' \<longleftrightarrow> d_store d' = d_store d \<and> d_clientID d' = d_clientID d \<and>
    length (d_heap d') = length (d_heap d) \<and> (\<forall>b. flagless (d_heap d' ! b) = flagless (d_heap d ! b))"

lemma marks_only_refl [simp]: "marks_only d d"
  by (simp add: marks_only_def)

lemma marks_only_trans: "marks_only d e \<Longrightarrow> marks_only e f \<Longrightarrow> marks_only d f"
  by (simp add: marks_only_def)

lemma marks_only_clock: "marks_only d d' \<Longrightarrow> same_clock (d_heap d' ! b) (d_heap d ! b)"
  by (simp add: marks_only_def flagless_clock)

lemma mark_only: "marks_only d (tx_addDeletedItem tx a (upd_item a (\<lambda>i. i\<lparr>it_Deleted := True\<rparr>) d))"
proof (cases "a < length (d_heap d)")
  case True
  then show ?thesis by (simp add: marks_only_def upd_item_def flagless_def nth_list_update)
next
  case False
  then show ?thesis by (simp add: marks_only_def upd_item_def list_update_beyond)
qed

lemma array_mark_only: "marks_only d (array_mark tx a d)"
  by (simp add: array_mark_def mark_only)

lemma array_delete_loop_marks:
  assumes "array_delete_loop tx index len p pos d = Some d'"
  shows "marks_only d d'"
proof (rule array_delete_loop.raw_induct [where P = "\<lambda>tx index len p pos d d'. marks_only d d'", OF _ assms])
  fix loop tx index len p pos d d'
  assume IH: "\<And>tx index len p pos d d'. loop tx index len p pos d = Some d' \<Longrightarrow> marks_only d d'"
    and "(case p of None \<Rightarrow> Some d
      | Some a \<Rightarrow>
          if it_Deleted (d_heap d ! a) then loop tx index len (it_Right (d_heap d ! a)) pos d
          else if pos \<ge> index + len then Some d
          else (let d1 = (if pos \<ge> index then array_mark tx a d else d)
                in loop tx index len (it_Right (d_heap d1 ! a)) (pos + 1) d1)) = Some d'"
  then show "marks_only d d'"
    by (auto simp: Let_def split: option.splits if_splits dest: IH intro: marks_only_trans [OF array_mark_only IH])
qed

lemma own_ok_marks:
  assumes "own_ok d n" "marks_only d d'"
  shows "own_ok d' n"
proof -
  have items: "own_items d' = own_items d" using assms(2) by (simp add: own_items_def marks_only_def)
  have same: "same_clock (d_heap d' ! a) (d_heap d ! a)" for a by (rule marks_only_clock [OF assms(2)])
  have "doc_getState d' (d_clientID d') = doc_getState d (d_clientID d)"
    using items same [of "last (own_items d)"] assms(2)
    by (auto simp: doc_getState_def getState_def own_items_def marks_only_def same_clock_def Let_def last_conv_nth)
  then show ?thesis
    using assms items same clocks_ok_cong [of "d_heap d" "own_items d" "d_heap d'"]
    by (auto simp: own_ok_def same_clock_def marks_only_def)
qed

lemma array_ins_rep:
  assumes "array_rep name (length ys + n) d xs"
  shows "\<exists>d'. array_Insert name i ys d = Ret d' \<and> array_rep name n d' (take (unat i) xs @ ys @ drop (unat i) xs)"
proof -
  obtain as tx where a: "array_list d name as" "array_vals d as = xs" "d_currentTx d = Some tx"
    "own_ok d (length ys + n)" and small: "length xs + (length ys + n) < 2 ^ 64"
    using assms(1) by (auto simp: array_rep_def)
  obtain as' d' where "array_Insert name i ys d = Ret d'" "array_list d' name as'"
    "array_vals d' as' = take (unat i) xs @ ys @ drop (unat i) xs" "own_ok d' n" "d_currentTx d' = Some tx"
    using array_Insert_array [OF a(1,4,3)] a(2) small by (metis add_lessD1)
  then show ?thesis using small by (auto simp: array_rep_def)
qed

lemma array_del_rep:
  assumes "array_rep name n d xs" "unat i + unat k < 2 ^ 64"
  shows "\<exists>d'. array_Delete name i k d = Ret d' \<and> array_rep name n d' (take (unat i) xs @ drop (unat i + unat k) xs)"
proof -
  obtain as tx where a: "array_list d name as" "array_vals d as = xs" "d_currentTx d = Some tx" "own_ok d n"
    and small: "length xs + n < 2 ^ 64"
    using assms(1) by (auto simp: array_rep_def)
  obtain d' where d': "array_Delete name i k d = Ret d'" "array_list d' name as"
    "array_vals d' as = take (unat i) xs @ drop (unat i + unat k) xs" "d_currentTx d' = Some tx"
    using array_Delete_array [OF a(1,3) _ assms(2)] a(2) small by (metis add_lessD1)
  have "marks_only d d'"
    using d'(1) a(3) by (auto simp: array_Delete_def split: if_splits option.splits intro: array_delete_loop_marks)
  then have "own_ok d' n" using a(4) own_ok_marks by blast
  then show ?thesis using d' small by (auto simp: array_rep_def)
qed

interpretation array_seq: sequence_type "array_rep name" "array_Insert name" "array_Delete name" "\<lambda>_. True" for name
  by unfold_locales (blast intro: array_ins_rep array_del_rep)+

end
