(* ===== verification/TypeProperties.thy ===== *)
theory TypeProperties
  imports IntegrateSpec MapType Sequence
begin

text \<open>
  The properties of the store, the shared types and integration (\<open>store.go\<close>, \<open>text.go\<close>,
  \<open>array.go\<close>, \<open>map.go\<close>, \<open>integrate.go\<close>), each with a concrete document on which its hypotheses
  hold.
\<close>

section \<open>Sample documents\<close>

text \<open>A document inside a transaction whose text \<open>t\<close> is \<open>"ab"\<close>, with a deleted item after it.\<close>

definition nm :: gostring where "nm = [0x74]"

definition item_ab :: Item where
  "item_ab = zero_Item\<lparr>it_ID := mkID 1 0, it_Right := Some 1, it_Parent := Some nm, it_Kind := contentString,
     it_Content := GString [0x61, 0x62], it_Length := 2\<rparr>"

definition item_dead :: Item where
  "item_dead = zero_Item\<lparr>it_ID := mkID 2 0, it_Left := Some 0, it_Parent := Some nm, it_Kind := contentString,
     it_Content := GString [0x7a], it_Length := 1, it_OriginLeft := Some (mkID 1 1), it_Deleted := True\<rparr>"

definition sample_text :: Doc where
  "sample_text = (snd (begin_tx GNil (new_doc 1)))\<lparr>d_heap := [item_ab, item_dead],
     d_store := [(1, [0]), (2, [1])], d_share := [(nm, TText (Some 0) [])]\<rparr>"

lemma runes_samples [simp]: "runes_of [0x61, 0x62] = [0x61, 0x62]" "runes_of [0x78] = [0x78]"
  by (simp_all add: runes_of_ascii)

lemma sample_text_list: "text_list sample_text nm [0, 1]"
  by (simp add: text_list_def sample_text_def item_ab_def item_dead_def zero_Item_def text_item_def item_runes_def)

lemma sample_text_simps [simp]:
  "d_currentTx sample_text = Some 0" "text_vis sample_text [0, 1] = [0x61, 0x62]"
  by (simp_all add: sample_text_def begin_tx_def new_doc_def text_vis_def shown_def item_ab_def item_dead_def
      zero_Item_def item_runes_def)

section \<open>Text\<close>

text \<open>
  C2. \<open>Text.Insert\<close> inserts: from any well-formed text, in a transaction, it returns, keeps
  the text well formed, and the runes shown afterwards are those before with the new ones at
  the index (at the end when the index is beyond it); the other shared types are untouched.
  \<open>String\<close> then reads that text.
\<close>
theorem text_insert_correct:
  assumes "text_list d name as" and "d_currentTx d = Some tx"
    and "length (text_vis d as) < 2 ^ 64" and "s \<noteq> []" and "rune_count s < 2 ^ 64"
  shows "\<exists>as' d'. text_Insert name index s d = Ret d' \<and> text_list d' name as' \<and>
    text_vis d' as' = take (unat index) (text_vis d as) @ runes_of s @ drop (unat index) (text_vis d as) \<and>
    text_String name d' = Ret (string_of_runes (text_vis d' as')) \<and>
    (\<forall>n. n \<noteq> name \<longrightarrow> gm_get (d_share d') n = gm_get (d_share d) n)"
proof -
  obtain as' d' where "text_Insert name index s d = Ret d'" "text_list d' name as'"
    "text_vis d' as' = take (unat index) (text_vis d as) @ runes_of s @ drop (unat index) (text_vis d as)"
    "\<And>n. n \<noteq> name \<Longrightarrow> gm_get (d_share d') n = gm_get (d_share d) n"
    using text_Insert_text [OF assms(1,3,4) _ assms(2)] assms(5) by (metis rune_count_def)
  then show ?thesis using text_String_list by blast
qed

theorem text_insert_correct_witness:
  "\<exists>as' d'. text_Insert nm 1 [0x78] sample_text = Ret d' \<and> text_list d' nm as' \<and>
    text_vis d' as' = [0x61, 0x78, 0x62]"
  using text_insert_correct [OF sample_text_list, of 0 "[0x78]" 1]
  by (auto simp: rune_count_def take_Cons' drop_Cons' simp del: One_nat_def)

text \<open>
  C3. \<open>Text.Delete\<close> deletes: from any well-formed text it returns, keeps the text well formed,
  and removes exactly the runes from the index on, as many as asked for or as there are,
  splitting items at the two ends of the range.
\<close>
theorem text_delete_correct:
  assumes "text_list d name as" and "d_currentTx d = Some tx" and "length (text_vis d as) < 2 ^ 64"
  shows "\<exists>as' d'. text_Delete name index len d = Ret d' \<and> text_list d' name as' \<and>
    text_vis d' as' = take (unat index) (text_vis d as) @ drop (unat index + unat len) (text_vis d as) \<and>
    text_String name d' = Ret (string_of_runes (text_vis d' as')) \<and> d_share d' = d_share d"
proof -
  obtain as' d' where "text_Delete name index len d = Ret d'" "text_list d' name as'"
    "text_vis d' as' = take (unat index) (text_vis d as) @ drop (unat index + unat len) (text_vis d as)"
    "edits as d d'"
    using text_Delete_text [OF assms(1,3,2)] by metis
  then show ?thesis using text_String_list by (auto simp: edits_def)
qed

theorem text_delete_correct_witness:
  "\<exists>as' d'. text_Delete nm 1 5 sample_text = Ret d' \<and> text_list d' nm as' \<and> text_vis d' as' = [0x61]"
  using text_delete_correct [OF sample_text_list, of 0 1 5] by (auto simp: take_Cons' simp del: One_nat_def)

text \<open>
  Splitting an item inside its content changes nothing that a reader can see: the list
  gains one item, the two halves show the two parts of what the item showed, and every other
  item reads as before.
\<close>
theorem split_preserves_text:
  assumes "text_list d name (xs @ a # ys)" and "\<not> it_Deleted (d_heap d ! a)"
    and "0 < unat off" and "unat off < length (shown (d_heap d ! a))"
  shows "\<exists>r d'. splitItemAt a off d = Ret ((Some a, r), d') \<and> text_list d' name (xs @ a # r # ys) \<and>
    text_vis d' (xs @ a # r # ys) = text_vis d (xs @ a # ys) \<and>
    shown (d_heap d' ! a) = take (unat off) (shown (d_heap d ! a)) \<and>
    shown (d_heap d' ! r) = drop (unat off) (shown (d_heap d ! a))"
proof -
  obtain d' where d': "splitItemAt a off d = Ret ((Some a, length (d_heap d)), d')"
    "text_list d' name (xs @ a # length (d_heap d) # ys)"
    "shown (d_heap d' ! a) = take (unat off) (shown (d_heap d ! a))"
    "shown (d_heap d' ! length (d_heap d)) = drop (unat off) (shown (d_heap d ! a))"
    "\<And>b. b < length (d_heap d) \<Longrightarrow> b \<noteq> a \<Longrightarrow> agree (d_heap d' ! b) (d_heap d ! b)"
    using splitItemAt_text [OF assms] by metis
  have "linked (d_heap d) (xs @ a # ys)" "distinct (xs @ a # ys)" using assms(1) by (auto simp: text_list_def)
  then have "agree (d_heap d' ! b) (d_heap d ! b)" if "b \<in> set xs \<union> set ys" for b
    using linked_bound [of "d_heap d" "xs @ a # ys" b] d'(5) [of b] that by auto
  then have "vis (d_heap d') xs = vis (d_heap d) xs" "vis (d_heap d') ys = vis (d_heap d) ys"
    by (intro vis_cong; simp)+
  then show ?thesis using d' by (auto simp: text_vis_def)
qed

section \<open>Transactions\<close>

text \<open>
  Every operation that changes a shared type panics when no transaction is open, with the
  message that names it, and does so before it touches the document.
\<close>
theorem edits_need_transaction:
  assumes "d_currentTx d = None"
  shows "(s \<noteq> [] \<longrightarrow> text_Insert name i s d = Panic (PanicMsg ''yjs: Text.Insert must be called inside Transact'')) \<and>
    (n \<noteq> 0 \<longrightarrow> text_Delete name i n d = Panic (PanicMsg ''yjs: Text.Delete must be called inside Transact'')) \<and>
    array_Push name vs d = Panic (PanicMsg ''yjs: Array.Push must be called inside Transact'') \<and>
    (vs \<noteq> [] \<longrightarrow> array_Insert name i vs d = Panic (PanicMsg ''yjs: Array.Insert must be called inside Transact'')) \<and>
    (n \<noteq> 0 \<longrightarrow> array_Delete name i n d = Panic (PanicMsg ''yjs: Array.Delete must be called inside Transact'')) \<and>
    map_Set name k v d = Panic (PanicMsg ''yjs: Map.Set must be called inside Transact'') \<and>
    map_Delete name k d = Panic (PanicMsg ''yjs: Map.Delete must be called inside Transact'')"
  using assms
  by (simp add: text_Insert_def text_Delete_def array_Push_def array_Insert_def array_Delete_def map_Set_def map_Delete_def)

text \<open>
  C15. A whole script of edits on a text, any number of insertions and deletions in one
  transaction, does what it does on a list of runes: it runs to its end, and \<open>String\<close> then
  reads the list that the script makes of the text before.
\<close>
theorem text_script_correct:
  assumes "text_rep name (edits_room es) d xs" and "list_all edit_fits es" and "list_all (edit_ok valid_rune) es"
  shows "\<exists>d'. run_edits (text_ins name) (text_Delete name) es d = Ret d' \<and>
    text_String name d' = Ret (string_of_runes (edits_list es xs))"
proof -
  obtain d' where d': "run_edits (text_ins name) (text_Delete name) es d = Ret d'" "text_rep name 0 d' (edits_list es xs)"
    using text_seq.run_rep [where es = es and n = 0 and s = d] assms by auto
  then show ?thesis using text_String_list by (auto simp: text_rep_def)
qed

theorem text_script_correct_witness:
  "\<exists>d'. run_edits (text_ins nm) (text_Delete nm) [Ins 1 [0x78], Del 0 1, Ins 9 [0x61]] sample_text = Ret d' \<and>
    text_String nm d' = Ret (string_of_runes [0x78, 0x62, 0x61])"
proof -
  have "text_rep nm (edits_room [Ins 1 [0x78], Del 0 1, Ins 9 [0x61]]) sample_text [0x61, 0x62]"
    using sample_text_list sample_text_simps(2) unfolding text_rep_def edits_room_def by (auto simp del: One_nat_def)
  from text_script_correct [OF this] show ?thesis
    by (simp add: edits_list_def valid_rune_def take_Cons' drop_Cons' del: One_nat_def)
qed

section \<open>Array\<close>

definition sample_array :: Doc where
  "sample_array = (snd (begin_tx GNil (new_doc 1)))\<lparr>
     d_heap := [zero_Item\<lparr>it_ID := mkID 1 0, it_Parent := Some nm, it_Kind := contentAny,
       it_Content := GBool True, it_Length := 1\<rparr>],
     d_store := [(1, [0])], d_share := [(nm, TArray (Some 0) [])]\<rparr>"

lemma sample_array_list: "array_list sample_array nm [0]"
  by (simp add: array_list_def sample_array_def zero_Item_def)

lemma sample_array_simps [simp]:
  "d_currentTx sample_array = Some 0" "array_vals sample_array [0] = [GBool True]"
  by (simp_all add: sample_array_def begin_tx_def new_doc_def array_vals_def value_of_def zero_Item_def)

lemma sample_array_own: "n < 2 ^ 32 \<Longrightarrow> own_ok sample_array n"
  by (simp add: own_ok_def own_items_def sample_array_def begin_tx_def new_doc_def store_items_def item_end_def
      item_clock_def zero_Item_def doc_getState_def getState_def)

text \<open>
  C16. \<open>Array.Insert\<close> inserts its values, in order, at the index (at the end when the index is
  beyond it), and leaves the client's clock counter and its slice of the store in order.
\<close>
theorem array_insert_correct:
  assumes "array_list d name as" and "own_ok d (length vs + n)" and "d_currentTx d = Some tx"
    and "length (array_vals d as) < 2 ^ 64"
  shows "\<exists>as' d'. array_Insert name index vs d = Ret d' \<and> array_list d' name as' \<and>
    array_vals d' as' = take (unat index) (array_vals d as) @ vs @ drop (unat index) (array_vals d as) \<and>
    array_ToSlice name d' = Ret (array_vals d' as') \<and> own_ok d' n"
  using array_Insert_array [OF assms] array_ToSlice_list by metis

theorem array_insert_correct_witness:
  "\<exists>as' d'. array_Insert nm 0 [GNil, GInt 7] sample_array = Ret d' \<and> array_list d' nm as' \<and>
    array_vals d' as' = [GNil, GInt 7, GBool True]"
  using array_insert_correct [OF sample_array_list sample_array_own, of "[GNil, GInt 7]" 5 0 0] by fastforce

text \<open>
  C18. \<open>Array.Push\<close> appends its values in order, and leaves the client's clock counter and
  slice of the store in order.
\<close>
theorem array_push_correct:
  assumes "array_list d name as" and "own_ok d (length vs + n)" and "d_currentTx d = Some tx"
  shows "\<exists>as' d'. array_Push name vs d = Ret d' \<and> array_list d' name as' \<and>
    array_vals d' as' = array_vals d as @ vs \<and> array_ToSlice name d' = Ret (array_vals d' as') \<and> own_ok d' n"
  using array_Push_array [OF assms] array_ToSlice_list by metis

theorem array_push_correct_witness:
  "\<exists>as' d'. array_Push nm [GNil, GInt 7] sample_array = Ret d' \<and> array_list d' nm as' \<and>
    array_vals d' as' = [GBool True, GNil, GInt 7]"
  using array_push_correct [OF sample_array_list sample_array_own, of "[GNil, GInt 7]" 5 0] by fastforce

text \<open>
  C17. \<open>Array.Delete\<close> removes exactly the values of the range, as many as there are, when the
  end of the range does not wrap around.
\<close>
theorem array_delete_correct:
  assumes "array_list d name as" and "d_currentTx d = Some tx"
    and "length (array_vals d as) < 2 ^ 64" and "unat index + unat len < 2 ^ 64"
  shows "\<exists>d'. array_Delete name index len d = Ret d' \<and> array_list d' name as \<and>
    array_vals d' as = take (unat index) (array_vals d as) @ drop (unat index + unat len) (array_vals d as)"
  using array_Delete_array [OF assms] by metis

theorem array_delete_correct_witness:
  "\<exists>d'. array_Delete nm 0 3 sample_array = Ret d' \<and> array_list d' nm [0] \<and> array_vals d' [0] = []"
  using array_delete_correct [OF sample_array_list, of 0 0 3] by fastforce

text \<open>
  The readers of an array agree: \<open>ToSlice\<close> is the list of values, \<open>Len\<close> its length, and
  \<open>Get\<close> the value at an index, absent exactly beyond the end.
\<close>
lemma array_read_correct:
  assumes "array_list d name as" and "length (array_vals d as) < 2 ^ 64"
  shows "\<exists>xs. array_ToSlice name d = Ret xs \<and> array_Len name d = Ret (of_nat (length xs)) \<and>
    (\<forall>i. array_Get name i d = Ret (if unat i < length xs then Some (xs ! unat i) else None))"
  using array_ToSlice_list [OF assms(1)] array_Len_list [OF assms(1)] array_Get_list [OF assms] by auto



section \<open>Map\<close>

definition sample_map :: Doc where
  "sample_map = (snd (begin_tx GNil (new_doc 1)))\<lparr>
     d_heap := [zero_Item\<lparr>it_ID := mkID 1 0, it_Parent := Some nm, it_ParentSub := Some [0x61],
       it_Kind := contentAny, it_Content := GBool True, it_Length := 1\<rparr>],
     d_store := [(1, [0])], d_share := [(nm, TMap [([0x61], 0)] [])]\<rparr>"

lemma sample_map_rep: "map_rep sample_map nm [([0x61], 0)]"
  by (simp add: map_rep_def sample_map_def begin_tx_def new_doc_def)

lemma sample_map_tx [simp]: "d_currentTx sample_map = Some 0"
  by (simp add: sample_map_def begin_tx_def new_doc_def)

text \<open>
  C19. A shared map is a map: after \<open>Set\<close> the key has the value and every other key what it
  had, whether the key was there, absent, or deleted before; and the map stays well formed.
\<close>
theorem map_set_correct:
  assumes "map_rep d name E" and "d_currentTx d = Some tx"
  shows "\<exists>d' E'. map_Set name key v d = Ret d' \<and> map_rep d' name E' \<and>
    (\<lambda>k. map_Get name k d') = (\<lambda>k. map_Get name k d)(key \<mapsto> v)"
  using map_Set_map [OF assms] by metis

theorem map_set_correct_witness:
  "\<exists>d' E'. map_Set nm [0x61] (GInt 5) sample_map = Ret d' \<and> map_rep d' nm E' \<and> map_Get nm [0x61] d' = Some (GInt 5)"
  using map_set_correct [OF sample_map_rep, of 0 "[0x61]" "GInt 5"] by (metis fun_upd_same sample_map_tx)

text \<open>
  C20. \<open>Map.Delete\<close> removes the key and nothing else, \<open>Keys\<close> lists exactly the keys that
  \<open>Get\<close> finds, and lists none twice.
\<close>
theorem map_delete_and_keys_correct:
  assumes "map_rep d name E" and "d_currentTx d = Some tx"
  shows "(\<exists>d'. map_Delete name key d = Ret d' \<and> map_rep d' name E \<and>
      (\<lambda>k. map_Get name k d') = (\<lambda>k. map_Get name k d)(key := None)) \<and>
    set (map_Keys name d) = {k. map_Get name k d \<noteq> None} \<and> distinct (map_Keys name d)"
  using map_Delete_map [OF assms] map_Keys_map [OF assms(1)] by metis

theorem map_delete_and_keys_correct_witness:
  "\<exists>d'. map_Delete nm [0x61] sample_map = Ret d' \<and> map_Get nm [0x61] d' = None"
  using map_delete_and_keys_correct [OF sample_map_rep, of 0 "[0x61]"] by (metis fun_upd_same sample_map_tx)

section \<open>The store\<close>

text \<open>
  C33. On a client's slice that is in clock order, the binary search of \<open>getItem\<close> finds the
  item whose clocks cover the identifier, exactly as a scan of the slice would, and none when
  there is none.
\<close>
theorem getItem_correct:
  assumes "clocks_ok h (store_items s (Client ident))"
  shows "getItem h s ident = find_item h s ident"
  using assms by (rule getItem_find)

theorem getItem_correct_witness:
  "getItem [item_ab, item_dead] [(1, [0]), (2, [1])] (mkID 1 1) =
    find_item [item_ab, item_dead] [(1, [0]), (2, [1])] (mkID 1 1)"
  by (rule getItem_correct) (simp add: store_items_def item_end_def item_clock_def item_ab_def zero_Item_def)

section \<open>Integration\<close>

text \<open>
  Receiving an item twice is the same as receiving it once: when the store already covers
  an item's identifier, integrating it changes nothing.
\<close>
lemma integrate_idempotent:
  assumes "clocks_ok (d_heap d) (store_items (d_store d) (Client (it_ID item)))"
    and "a \<in> set (store_items (d_store d) (Client (it_ID item)))"
    and "covers (d_heap d) (Clock (it_ID item)) a"
  shows "integrateItem item d = Ret d"
proof (rule integrateItem_known)
  have "find_item (d_heap d) (d_store d) (it_ID item) \<noteq> None"
    using assms(2,3) by (auto simp: find_item_def find_None_iff)
  then show "doc_getItem d (it_ID item) \<noteq> None"
    using getItem_find [OF assms(1)] by (simp add: doc_getItem_def)
qed

text \<open>
  C12. A remote item of a text goes exactly where the pure placement function puts it: the scan
  ends, the list stays well formed, the item stands after its left origin behind the items
  that precede it in the tie-break order, and every other item keeps its content and order.
\<close>
theorem integration_position:
  assumes "text_list d name (xs @ ys)" and "a < length (d_heap d)" and "a \<notin> set (xs @ ys)"
    and "text_item (d_heap d ! a)" and "it_Parent (d_heap d ! a) = Some name"
    and "opt_getItem d (it_OriginLeft (d_heap d ! a)) = rear xs"
  shows "\<exists>d'. place_item a d = Ret d' \<and>
    text_list d' name (xs @ lss_insert (d_heap d) (d_heap d ! a) (opt_getItem d (it_OriginRight (d_heap d ! a))) a ys) \<and>
    (\<forall>b < length (d_heap d). shown (d_heap d' ! b) = shown (d_heap d ! b))"
  using place_item_text [OF assms(1-5) assms(6) refl] agree_shown by metis

definition sample_arrival :: Doc where
  "sample_arrival = sample_text\<lparr>d_heap := d_heap sample_text @
     [zero_Item\<lparr>it_ID := mkID 9 0, it_Parent := Some nm, it_Kind := contentString, it_Content := GString [0x61, 0x62],
        it_Length := 2\<rparr>]\<rparr>"

theorem integration_position_witness:
  "\<exists>d'. place_item 2 sample_arrival = Ret d' \<and> text_list d' nm [2, 0, 1]"
proof -
  have at: "d_heap sample_arrival = [item_ab, item_dead, d_heap sample_arrival ! 2]" "d_share sample_arrival = d_share sample_text"
    by (simp_all add: sample_arrival_def sample_text_def)
  have new: "d_heap sample_arrival ! 2 = zero_Item\<lparr>it_ID := mkID 9 0, it_Parent := Some nm,
      it_Kind := contentString, it_Content := GString [0x61, 0x62], it_Length := 2\<rparr>"
    by (simp add: sample_arrival_def sample_text_def)
  have "text_list sample_arrival nm ([] @ [0, 1])"
    using sample_text_list by (simp add: text_list_def at(2) sample_arrival_def) (simp add: sample_text_def)
  moreover have "lss_insert (d_heap sample_arrival) (d_heap sample_arrival ! 2) None 2 [0, 1] = [2, 0, 1]"
    by (simp add: lss_insert_def passes_def new lssIsBefore_def compareIDs_def zero_Item_def)
      (simp add: sample_arrival_def sample_text_def item_ab_def zero_Item_def)
  ultimately show ?thesis
    using integration_position [of sample_arrival nm "[]" "[0, 1]" 2] at(1)
    by (simp add: new zero_Item_def text_item_def item_runes_def opt_getItem_def)
      (auto simp: sample_arrival_def sample_text_def)
qed

end
