(* ===== verification/Chains.thy ===== *)
theory Chains
  imports TextSpec
begin

text \<open>
  What keeps the loops along \<open>Right\<close> finite, whatever a peer sends: from every item the pointers
  lead, after finitely many steps, to nil. New items are linked in front of a place that lies
  behind their left neighbour, and that never closes a cycle.
\<close>

section \<open>Finite chains\<close>

definition chain_from :: "heap \<Rightarrow> addr option \<Rightarrow> bool" where
  "chain_from h p \<longleftrightarrow> (\<exists>as. linked h as \<and> front as = p)"

definition chained :: "heap \<Rightarrow> bool" where
  "chained h \<longleftrightarrow> (\<forall>a < length h. chain_from h (Some a))"

text \<open>No item points to \<open>a\<close>; and \<open>p\<close> is a place on the chain behind \<open>l\<close>.\<close>

definition detached :: "heap \<Rightarrow> addr \<Rightarrow> bool" where
  "detached h a \<longleftrightarrow> (\<forall>b < length h. it_Right (h ! b) \<noteq> Some a)"

definition behind :: "heap \<Rightarrow> addr \<Rightarrow> addr option \<Rightarrow> bool" where
  "behind h l p \<longleftrightarrow> (\<exists>xs ys. linked h (l # xs @ ys) \<and> front ys = p)"

lemma front_eq_Some: "front as = Some a \<longleftrightarrow> (\<exists>bs. as = a # bs)"
  by (cases as) auto

lemma front_eq_None: "front as = None \<longleftrightarrow> as = []"
  by (cases as) auto

lemma linked_unique: "linked h as \<Longrightarrow> linked h bs \<Longrightarrow> front as = front bs \<Longrightarrow> as = bs"
proof (induction as arbitrary: bs)
  case Nil
  then show ?case by (cases bs) auto
next
  case (Cons a as)
  then obtain bs' where bs: "bs = a # bs'" by (cases bs) auto
  then have "as = bs'" using Cons.prems by (intro Cons.IH) auto
  then show ?case by (simp add: bs)
qed

lemma linked_distinct: "linked h as \<Longrightarrow> distinct as"
proof (induction as)
  case (Cons a as)
  have "a \<notin> set as"
  proof
    assume "a \<in> set as"
    then obtain xs ys where as: "as = xs @ a # ys" by (meson split_list)
    then have "linked h (a # ys)" using Cons.prems linked_suffix [of h "a # xs" "a # ys"] by simp
    then have "a # as = a # ys" using Cons.prems by (intro linked_unique [of h]) auto
    then show False by (simp add: as)
  qed
  then show ?case using Cons by simp
qed simp

lemma linked_detached: "linked h (a # as) \<Longrightarrow> detached h b \<Longrightarrow> b \<notin> set as"
proof (induction as arbitrary: a)
  case (Cons c as)
  then have "c \<noteq> b" by (auto simp: detached_def)
  then show ?case using Cons by auto
qed simp

lemma chain_from_None [simp]: "chain_from h None"
  unfolding chain_from_def by (rule exI [of _ "[]"]) simp

lemma chain_from_Some: "chain_from h (Some a) \<longleftrightarrow> (\<exists>as. linked h (a # as))"
  unfolding chain_from_def by (metis front_eq_Some)

lemma chained_from: "chained h \<Longrightarrow> (\<And>a. p = Some a \<Longrightarrow> a < length h) \<Longrightarrow> chain_from h p"
  by (cases p) (auto simp: chained_def)

lemma chain_from_bound: "chain_from h (Some a) \<Longrightarrow> a < length h"
  by (auto simp: chain_from_Some)

lemma chained_right: "chained h \<Longrightarrow> a < length h \<Longrightarrow> chain_from h (it_Right (h ! a))"
  unfolding chained_def chain_from_Some by (auto simp: chain_from_def) metis

lemma chained_right_bound: "chained h \<Longrightarrow> a < length h \<Longrightarrow> it_Right (h ! a) = Some b \<Longrightarrow> b < length h"
  using chained_right chain_from_bound by metis

lemma behind_right: "chained h \<Longrightarrow> l < length h \<Longrightarrow> behind h l (it_Right (h ! l))"
  unfolding behind_def chained_def chain_from_Some
  by (metis append_Nil linked.simps(2))

lemma behind_neq: "behind h l p \<Longrightarrow> p \<noteq> Some l"
  unfolding behind_def using linked_distinct by (fastforce simp: front_eq_Some)

lemma behind_detached: "behind h l p \<Longrightarrow> detached h a \<Longrightarrow> p \<noteq> Some a"
  unfolding behind_def using linked_detached by (fastforce simp: front_eq_Some)

lemma behind_chain: "behind h l p \<Longrightarrow> chain_from h p"
  unfolding behind_def chain_from_def by (metis append_Cons linked_suffix)

section \<open>What keeps the chains finite\<close>

lemma linked_replace:
  "linked h (us @ l # vs) \<Longrightarrow> linked h' (l # zs) \<Longrightarrow> length h \<le> length h' \<Longrightarrow>
   (\<And>u. u \<in> set us \<Longrightarrow> it_Right (h' ! u) = it_Right (h ! u)) \<Longrightarrow> linked h' (us @ l # zs)"
proof (induction us)
  case (Cons u us)
  have "front (us @ l # zs) = front (us @ l # vs)" by (cases us) simp_all
  then show ?case using Cons by auto
qed simp

text \<open>Linking a detached item \<open>a\<close> after \<open>l\<close>, in front of a place behind \<open>l\<close>.\<close>

lemma chained_link:
  assumes ch: "chained h" and a: "a < length h" "detached h a" "l \<noteq> a" and p: "behind h l p"
    and len: "length h' = length h" and ra: "it_Right (h' ! a) = p" and rl: "it_Right (h' ! l) = Some a"
    and keep: "\<And>b. b < length h \<Longrightarrow> b \<noteq> a \<Longrightarrow> b \<noteq> l \<Longrightarrow> it_Right (h' ! b) = it_Right (h ! b)"
  shows "chained h'"
proof -
  obtain xs ys where l: "linked h (l # xs @ ys)" "front ys = p" using p by (auto simp: behind_def)
  have cong: "linked h' zs" if "linked h zs" "a \<notin> set zs" "l \<notin> set zs" for zs
    by (rule linked_cong [OF that(1)]) (use linked_bound [OF that(1)] that keep len in auto)
  have "linked h' ys"
    using linked_suffix [of h "l # xs" ys] linked_distinct [OF l(1)] linked_detached [OF l(1) a(2)] l(1)
    by (intro cong) auto
  then have aly: "linked h' (a # ys)" using a(1) ra l(2) len by simp
  have l_bound: "l < length h" using l(1) by simp
  then have ll: "linked h' (l # a # ys)" using aly rl len by simp
  have "\<exists>zs. linked h' (b # zs)" if b: "b < length h" for b
  proof (cases "b = a")
    case False
    obtain zs where zs: "linked h (b # zs)" using ch b by (auto simp: chained_def chain_from_Some)
    then have a_notin: "a \<notin> set (b # zs)" using linked_detached [OF zs a(2)] False by auto
    show ?thesis
    proof (cases "l \<in> set (b # zs)")
      case True
      then obtain us vs where us: "b # zs = us @ l # vs" "l \<notin> set us" by (meson split_list_first)
      have "linked h' (us @ l # a # ys)"
      proof (rule linked_replace [OF _ ll])
        show "linked h (us @ l # vs)" using zs us by simp
        then show "it_Right (h' ! u) = it_Right (h ! u)" if "u \<in> set us" for u
          using that us(2) a_notin linked_bound [of h "us @ l # vs" u] us(1) by (intro keep) auto
      qed (simp add: len)
      then have "linked h' (b # tl (us @ l # a # ys))" using us(1) by (cases us) auto
      then show ?thesis by blast
    next
      case False
      then show ?thesis using cong [OF zs a_notin] by blast
    qed
  qed (use aly in blast)
  then show ?thesis by (simp add: chained_def chain_from_Some len)
qed

text \<open>Linking a detached item in front of a place, with nothing before it.\<close>

lemma chained_attach:
  assumes ch: "chained h" and a: "a < length h" "detached h a" and p: "chain_from h p" "p \<noteq> Some a"
    and len: "length h' = length h" and ra: "it_Right (h' ! a) = p"
    and keep: "\<And>b. b < length h \<Longrightarrow> b \<noteq> a \<Longrightarrow> it_Right (h' ! b) = it_Right (h ! b)"
  shows "chained h'"
proof -
  have cong: "linked h' zs" if "linked h zs" "a \<notin> set zs" for zs
    by (rule linked_cong [OF that(1)]) (use linked_bound [OF that(1)] that keep len in auto)
  have free: "a \<notin> set zs" if "linked h zs" "front zs \<noteq> Some a" for zs
    using that linked_detached [OF _ a(2)] by (cases zs) auto
  obtain ys where ys: "linked h ys" "front ys = p" using p(1) by (auto simp: chain_from_def)
  then have "linked h' (a # ys)" using cong free p(2) a(1) ra len by simp
  moreover have "\<exists>zs. linked h' (b # zs)" if b: "b < length h" "b \<noteq> a" for b
  proof -
    obtain zs where zs: "linked h (b # zs)" using ch b by (auto simp: chained_def chain_from_Some)
    then have "a \<notin> set (b # zs)" using b(2) by (intro free) simp_all
    from cong [OF zs this] show ?thesis by blast
  qed
  ultimately have "\<exists>zs. linked h' (b # zs)" if "b < length h" for b using that by blast
  then show ?thesis by (simp add: chained_def chain_from_Some len)
qed

lemma chained_same:
  "chained h \<Longrightarrow> length h' = length h \<Longrightarrow> (\<And>b. b < length h \<Longrightarrow> it_Right (h' ! b) = it_Right (h ! b)) \<Longrightarrow> chained h'"
  unfolding chained_def chain_from_def by (metis linked_cong linked_bound)

lemma chained_snoc:
  assumes "chained h" "chain_from h (it_Right it)"
  shows "chained (h @ [it])"
proof -
  have grow: "linked (h @ [it]) zs" if "linked h zs" for zs
    by (rule linked_cong [OF that]) (use linked_bound [OF that] in \<open>fastforce simp: nth_append\<close>)
  obtain ys where "linked h ys" "front ys = it_Right it" using assms(2) by (auto simp: chain_from_def)
  then have "linked (h @ [it]) (length h # ys)" using grow by simp
  moreover have "\<exists>zs. linked (h @ [it]) (b # zs)" if "b < length h" for b
    using assms(1) that grow unfolding chained_def chain_from_Some by metis
  ultimately show ?thesis by (auto simp only: chained_def chain_from_Some length_append_singleton less_Suc_eq)
qed

lemma detached_snoc:
  "chained h \<Longrightarrow> it_Right it \<noteq> Some (length h) \<Longrightarrow> detached (h @ [it]) (length h)"
  using chained_right_bound by (fastforce simp: detached_def nth_append less_Suc_eq)

text \<open>Skipping deleted items stays on the chain.\<close>

lemma skip_deleted_chain:
  assumes "chain_from h p"
  obtains xs ys where "linked h (xs @ ys)" "front (xs @ ys) = p" "skip_deleted_right h p = Some (front ys)"
proof -
  obtain as where as: "linked h as" "front as = p" using assms by (auto simp: chain_from_def)
  let ?P = "\<lambda>a. it_Deleted (h ! a)"
  have "linked h (takeWhile ?P as @ dropWhile ?P as)" using as by simp
  moreover have "front (takeWhile ?P as @ dropWhile ?P as) = p" using as by simp
  ultimately show thesis
    using that skip_deleted_right_list [OF as(1)] as(2) by metis
qed

end
