(* ===== verification/Wellformed.thy ===== *)
theory Wellformed
  imports Chains IntegrateSpec
begin

text \<open>
  The invariant of every document that this code can be brought to by the updates of peers: the
  lists are finite, every address that the store or a shared type holds is allocated, and an
  item's content has the Go type that its kind promises. With it, applying an update always
  ends, in a document with the invariant, with an error, or with the panic of \<open>make\<close>.
\<close>

section \<open>The invariant\<close>

definition typed :: "Item \<Rightarrow> bool" where
  "typed it \<longleftrightarrow> (it_Kind it = contentString \<longrightarrow> (\<exists>s. it_Content it = GString s)) \<and>
    (it_Kind it = contentBinary \<longrightarrow> (\<exists>b. it_Content it = GBytes b)) \<and>
    (it_Kind it = contentType \<longrightarrow> (\<exists>n. it_Content it = GUint64 n))"

fun starts :: "SharedType \<Rightarrow> addr set" where
  "starts (TText s _) = set_option s"
| "starts (TMap m _) = {a. \<exists>k. gm_get m k = Some a}"
| "starts (TArray s _) = set_option s"
| "starts (TXml s) = set_option s"

definition share_ok :: "Doc \<Rightarrow> bool" where
  "share_ok d \<longleftrightarrow> (\<forall>n st. gm_get (d_share d) n = Some st \<longrightarrow> (\<forall>a \<in> starts st. a < length (d_heap d)))"

definition store_ok :: "Doc \<Rightarrow> bool" where
  "store_ok d \<longleftrightarrow> gm_ok (d_store d) \<and> (\<forall>c. \<forall>a \<in> set (store_items (d_store d) c). a < length (d_heap d))"

definition txs_ok :: "Doc \<Rightarrow> bool" where
  "txs_ok d \<longleftrightarrow> (\<forall>t \<in> set (d_txs d). \<forall>a \<in> set (tx_pendingItems t @ tx_pendingDeletes t). a < length (d_heap d))"

definition doc_wf :: "Doc \<Rightarrow> bool" where
  "doc_wf d \<longleftrightarrow> chained (d_heap d) \<and> list_all typed (d_heap d) \<and> share_ok d \<and> store_ok d \<and> txs_ok d"

lemma doc_wf_new: "doc_wf (new_doc c)"
  by (simp add: doc_wf_def chained_def share_ok_def store_ok_def txs_ok_def new_doc_def newStructStore_def store_items_def)

text \<open>The fields that the invariant does not read.\<close>

lemma doc_wf_cong:
  "doc_wf d \<Longrightarrow> d_heap d' = d_heap d \<Longrightarrow> d_share d' = d_share d \<Longrightarrow> d_store d' = d_store d \<Longrightarrow>
   d_txs d' = d_txs d \<Longrightarrow> doc_wf d'"
  by (simp add: doc_wf_def share_ok_def store_ok_def txs_ok_def)

text \<open>Changing items without moving their \<open>Right\<close> pointers.\<close>

lemma doc_wf_heap:
  assumes "doc_wf d" "chained (d_heap d')" "length (d_heap d) \<le> length (d_heap d')" "list_all typed (d_heap d')"
    "d_share d' = d_share d" "d_store d' = d_store d" "d_txs d' = d_txs d"
  shows "doc_wf d'"
  using assms
  by (auto simp: doc_wf_def share_ok_def store_ok_def txs_ok_def intro: order.strict_trans2 [of _ "length (d_heap d)"])

lemma doc_wf_upd:
  assumes "doc_wf d" "\<And>it. it_Right (f it) = it_Right it" "\<And>it. typed it \<Longrightarrow> typed (f it)"
  shows "doc_wf (upd_item a f d)"
proof (rule doc_wf_heap [OF assms(1)])
  have r: "it_Right (d_heap (upd_item a f d) ! b) = it_Right (d_heap d ! b)" if "b < length (d_heap d)" for b
    using that assms(2) by (cases "b = a") (simp_all add: upd_item_def)
  show "chained (d_heap (upd_item a f d))"
    by (rule chained_same [of "d_heap d"]) (use assms(1) r in \<open>auto simp: doc_wf_def\<close>)
  have "typed (d_heap (upd_item a f d) ! b)" if "b < length (d_heap d)" for b
    using that assms by (cases "b = a") (simp_all add: upd_item_def doc_wf_def list_all_length)
  then show "list_all typed (d_heap (upd_item a f d))" by (simp add: list_all_length)
qed simp_all

lemma doc_wf_alloc:
  assumes "doc_wf d" "chain_from (d_heap d) (it_Right it)" "typed it"
  shows "doc_wf (snd (alloc it d))"
  by (rule doc_wf_heap [OF assms(1)])
    (use assms chained_snoc in \<open>auto simp: alloc_def doc_wf_def\<close>)

lemma doc_wf_store_add:
  assumes "doc_wf d" "a < length (d_heap d)"
  shows "doc_wf (store_add a d)"
  using assms by (auto simp: doc_wf_def share_ok_def store_ok_def txs_ok_def store_add_def store_items_def addItem_def Let_def
      update_conv' gm.inv_put split: option.splits if_splits)

lemma doc_wf_share:
  assumes "doc_wf d" "\<And>a. a \<in> starts st \<Longrightarrow> a < length (d_heap d)"
  shows "doc_wf (share_put name st d)"
  using assms by (auto simp: doc_wf_def share_ok_def store_ok_def txs_ok_def share_put_def update_conv')

text \<open>A transaction notes an item.\<close>

lemma note_changed_pending [simp]:
  "tx_pendingItems (note_changed it t) = tx_pendingItems t" "tx_pendingDeletes (note_changed it t) = tx_pendingDeletes t"
  by (simp_all add: note_changed_def split: option.split)

lemma set_update_cases: "x \<in> set (xs[i := y]) \<Longrightarrow> x \<in> set xs \<or> (i < length xs \<and> x = y)"
  by (metis list_update_beyond not_le set_update_subset_insert insertE subsetD)

lemma doc_wf_tx:
  assumes "doc_wf d" "a < length (d_heap d)"
  shows "doc_wf (tx_addItem t a d)" "doc_wf (tx_addDeletedItem t a d)"
proof -
  have "b < length (d_heap d)" if "t < length (d_txs d)"
    "b \<in> set (tx_pendingItems (d_txs d ! t)) \<union> set (tx_pendingDeletes (d_txs d ! t))" for b
    using assms(1) that nth_mem [OF that(1)] by (auto simp: doc_wf_def txs_ok_def)
  then have "txs_ok (tx_addItem t a d)" "txs_ok (tx_addDeletedItem t a d)"
    using assms by (auto simp: doc_wf_def txs_ok_def tx_addItem_def tx_addDeletedItem_def Let_def dest!: set_update_cases)
  then show "doc_wf (tx_addItem t a d)" "doc_wf (tx_addDeletedItem t a d)"
    using assms by (simp_all add: doc_wf_def share_ok_def store_ok_def)
qed

lemma share_start: "doc_wf d \<Longrightarrow> gm_get (d_share d) n = Some st \<Longrightarrow> a \<in> starts st \<Longrightarrow> a < length (d_heap d)"
  by (auto simp: doc_wf_def share_ok_def)

lemma share_map_start: "doc_wf d \<Longrightarrow> gm_get (d_share d) n = Some (TMap m obs) \<Longrightarrow> gm_get m k = Some a \<Longrightarrow> a < length (d_heap d)"
  by (erule share_start) auto

lemma firstItem_bound: "doc_wf d \<Longrightarrow> firstItem d p sub = Some a \<Longrightarrow> a < length (d_heap d)"
  by (auto simp: firstItem_def split: option.splits SharedType.splits dest!: share_start)

lemma doc_wf_setFirst:
  assumes "doc_wf d" "a < length (d_heap d)"
  shows "doc_wf (setFirstItem p a sub d)"
  using assms
  by (auto simp: setFirstItem_def update_conv' split: option.split SharedType.split if_splits
      intro!: doc_wf_share dest: share_map_start)

lemma sort_search_le: "sort_search n f \<le> n"
  using sort_search_loop_bounds [of 0 n f] by (simp add: sort_search_def)

lemma getItem_bound:
  assumes "doc_wf d" "doc_getItem d i = Some a"
  shows "a < length (d_heap d)"
proof -
  let ?items = "store_items (d_store d) (Client i)"
  obtain k where "a = ?items ! (k - 1)" "k \<noteq> 0" "k \<le> length ?items"
    using assms(2) sort_search_le by (auto simp: doc_getItem_def getItem_def Let_def split: if_splits)
  then have "a \<in> set ?items" by simp
  then show ?thesis using assms(1) by (auto simp: doc_wf_def store_ok_def)
qed

lemma opt_getItem_bound: "doc_wf d \<Longrightarrow> opt_getItem d i = Some a \<Longrightarrow> a < length (d_heap d)"
  by (auto simp: opt_getItem_def getItem_bound split: option.splits)

section \<open>Linking and placing\<close>

definition link_ok :: "heap \<Rightarrow> addr \<Rightarrow> addr option \<Rightarrow> addr option \<Rightarrow> bool" where
  "link_ok h a left p \<longleftrightarrow> a < length h \<and> detached h a \<and>
    (case left of Some l \<Rightarrow> l \<noteq> a \<and> behind h l p | None \<Rightarrow> chain_from h p \<and> p \<noteq> Some a)"

lemma doc_wf_link:
  assumes wf: "doc_wf d" and ok: "link_ok (d_heap d) a left p"
  shows "doc_wf (link_item parent sub a left p d)"
proof -
  let ?h = "d_heap d" and ?d' = "link_item parent sub a left p d"
  have l: "l < length ?h" if "left = Some l" for l
    using ok that by (auto simp: link_ok_def behind_def)
  have r: "r < length ?h" if "p = Some r" for r
    using ok that chain_from_bound behind_chain by (fastforce simp: link_ok_def split: option.splits)
  have "a < length ?h" "left \<noteq> Some a" "p \<noteq> Some a" "\<And>b. left = Some b \<Longrightarrow> b < length ?h \<and> p \<noteq> Some b"
    using ok l by (auto simp: link_ok_def split: option.splits dest: behind_detached behind_neq)
  note li = link_item_heap [OF this r, where parent = parent and sub = sub, simplified]
  have right: "it_Right (d_heap ?d' ! b) = (if b = a then p else if left = Some b then Some a else it_Right (?h ! b))"
    if "b < length ?h" for b
    using li(2) [OF that] by auto
  have "chained (d_heap ?d')"
  proof (cases left)
    case None
    then have p: "chain_from ?h p" "p \<noteq> Some a" "a < length ?h" "detached ?h a" using ok by (simp_all add: link_ok_def)
    show ?thesis
      by (rule chained_attach [OF _ p(3,4,1,2) li(1)]) (use wf right p(3) None in \<open>simp_all add: doc_wf_def\<close>)
  next
    case (Some b)
    then have p: "b \<noteq> a" "behind ?h b p" "a < length ?h" "detached ?h a" using ok by (simp_all add: link_ok_def)
    show ?thesis
      by (rule chained_link [OF _ p(3,4,1,2) li(1)])
        (use wf right p(1,3) l Some in \<open>simp_all add: doc_wf_def\<close>)
  qed
  moreover have "typed (d_heap ?d' ! b)" if "b < length ?h" for b
    using wf li(2) [OF that] that by (auto simp: doc_wf_def list_all_length typed_def)
  ultimately have wf': "doc_wf (d\<lparr>d_heap := d_heap ?d'\<rparr>)"
    using li(1) by (intro doc_wf_heap [OF wf]) (simp_all add: list_all_length)
  show ?thesis
    using li(3) wf' doc_wf_setFirst [OF wf', of a parent sub] ok li(1)
    by (cases left) (simp_all add: link_ok_def)
qed

lemma behind_front: "linked h (l # as) \<Longrightarrow> behind h l (front as)"
  unfolding behind_def by (rule exI [of _ "[]"], rule exI [of _ as]) simp

lemma lss_scan_behind:
  assumes "linked h (l # as)"
  obtains l' p where "lss_scan h item right (Some l) (front as) = Some (Some l', p)" "behind h l' p" "l' \<in> set (l # as)"
proof -
  let ?P = "passes h item right"
  have as: "takeWhile ?P as @ dropWhile ?P as = as" by simp
  show thesis
  proof (cases "takeWhile ?P as" rule: rev_cases)
    case Nil
    then have "dropWhile ?P as = as" using as by simp
    then show thesis
      using that [of l "front as"] behind_front [OF assms] assms lss_scan_list [of h as item right "Some l"] Nil by simp
  next
    case (snoc us b)
    then have "linked h ((l # us) @ b # dropWhile ?P as)" using assms as by simp
    then have "linked h (b # [] @ dropWhile ?P as)" by (simp del: linked.simps) (metis append_Cons linked_suffix)
    then have "behind h b (front (dropWhile ?P as))" unfolding behind_def by blast
    moreover have "b \<in> set as" using as snoc by (metis in_set_conv_decomp append_assoc append_Cons)
    ultimately show thesis
      using that [of b "front (dropWhile ?P as)"] assms lss_scan_list [of h as item right "Some l"] snoc by simp
  qed
qed

text \<open>An item that nothing points to yet, and that is not its own left origin.\<close>

definition placeable :: "Doc \<Rightarrow> addr \<Rightarrow> bool" where
  "placeable d a \<longleftrightarrow> a < length (d_heap d) \<and> detached (d_heap d) a \<and>
    (\<forall>n st. gm_get (d_share d) n = Some st \<longrightarrow> a \<notin> starts st) \<and>
    (it_Parent (d_heap d ! a) = None \<or> opt_getItem d (it_OriginLeft (d_heap d ! a)) \<noteq> Some a)"

lemma firstItem_starts:
  "firstItem d p sub = Some a \<Longrightarrow> \<exists>st. gm_get (d_share d) p = Some st \<and> a \<in> starts st"
  by (auto simp: firstItem_def split: option.splits SharedType.splits)

lemma doc_wf_place:
  assumes wf: "doc_wf d" and a: "placeable d a"
  shows "\<exists>d'. place_item a d = Ret d' \<and> doc_wf d'"
proof -
  let ?h = "d_heap d" and ?it = "d_heap d ! a"
  define right where "right = opt_getItem d (it_OriginRight ?it)"
  show ?thesis
  proof (cases "it_Parent ?it")
    case None
    then show ?thesis using wf by (simp add: place_item_def resolveParent_def Let_def)
  next
    case (Some parent)
    have chains: "chained ?h" using wf by (simp add: doc_wf_def)
    define left where "left = opt_getItem d (it_OriginLeft ?it)"
    have "\<exists>left' p. lss_scan ?h ?it right left (itemAfter d parent left (it_ParentSub ?it)) = Some (left', p) \<and>
        link_ok ?h a left' p"
    proof (cases left)
      case None
      have first: "chain_from ?h (firstItem d parent (it_ParentSub ?it))"
        using chains firstItem_bound [OF wf] by (intro chained_from) auto
      then obtain as where as: "linked ?h as" "front as = firstItem d parent (it_ParentSub ?it)"
        by (auto simp: chain_from_def)
      have fa: "front as \<noteq> Some a" using as(2) firstItem_starts [of d parent _ a] a by (auto simp: placeable_def)
      then have a_as: "a \<notin> set as" using as(1) linked_detached [of ?h _ _ a] a by (cases as) (auto simp: placeable_def)
      show ?thesis
      proof (cases as)
        case Nil
        then show ?thesis
          using a None as(2) by (simp add: itemAfter_def lss_scan.simps link_ok_def placeable_def)
      next
        case (Cons b bs)
        show ?thesis
        proof (cases "passes ?h ?it right b")
          case True
          from as(1) Cons obtain l' p where s: "lss_scan ?h ?it right (Some b) (front bs) = Some (Some l', p)"
            "behind ?h l' p" "l' \<in> set (b # bs)"
            using lss_scan_behind by blast
          have "lss_scan ?h ?it right None (Some b) = Some (Some l', p)"
            using s(1) True as(1) Cons by (subst lss_scan.simps) (simp add: passes_def)
          then show ?thesis
            using s a a_as Cons None as(2) by (auto simp: itemAfter_def link_ok_def placeable_def)
        next
          case False
          then have "lss_scan ?h ?it right None (Some b) = Some (None, Some b)"
            by (subst lss_scan.simps) (auto simp: passes_def)
          then show ?thesis
            using a fa first Cons None as(2) [symmetric] by (simp add: itemAfter_def link_ok_def placeable_def)
        qed
      qed
    next
      case l: (Some l)
      have "l < length ?h" using opt_getItem_bound [OF wf] l by (simp add: left_def)
      then obtain as where as: "linked ?h (l # as)" using chains by (auto simp: chained_def chain_from_Some)
      from lss_scan_behind [OF this] obtain l' p where s: "lss_scan ?h ?it right (Some l) (front as) = Some (Some l', p)"
        "behind ?h l' p" "l' \<in> set (l # as)" by blast
      have "l \<noteq> a" using a l Some by (auto simp: placeable_def left_def)
      then have "l' \<noteq> a" using s(3) linked_detached [OF as, of a] a by (auto simp: placeable_def)
      then show ?thesis using s as l a by (simp add: itemAfter_def link_ok_def placeable_def)
    qed
    then show ?thesis
      using doc_wf_link [OF wf] Some
      by (auto simp: place_item_def resolveParent_def Let_def left_def [symmetric] right_def [symmetric])
  qed
qed

section \<open>Integrating a remote item\<close>

text \<open>What the decoder promises of an item: unlinked, and a parent by name only without a left origin.\<close>

definition arriving :: "Item \<Rightarrow> bool" where
  "arriving it \<longleftrightarrow> typed it \<and> it_Right it = None \<and> it_Parent it = None \<and>
    (it_OriginLeft it = None \<or> it_parentName it = [])"

lemma typed_fields:
  "typed it \<Longrightarrow> typed (it\<lparr>it_Deleted := b\<rparr>)" "typed it \<Longrightarrow> typed (it\<lparr>it_Parent := p\<rparr>)"
  by (simp_all add: typed_def)

lemma resolve_by_name_wf: "doc_wf d \<Longrightarrow> doc_wf (resolve_by_name a d)"
  by (auto simp: resolve_by_name_def Let_def lazy_type_def newText_def newMap_def newArray_def typed_fields
      intro!: doc_wf_upd doc_wf_share split: option.split)

lemma inherit_parent_wf: "doc_wf d \<Longrightarrow> doc_wf (inherit_parent a d)"
  by (auto simp: inherit_parent_def Let_def typed_fields intro!: doc_wf_upd split: option.split)

lemma getItem_same_ids:
  assumes "\<And>b. it_ID (h' ! b) = it_ID (h ! b) \<and> it_Length (h' ! b) = it_Length (h ! b)"
  shows "getItem h' s i = getItem h s i"
  using assms by (simp add: getItem_def Let_def)

lemma nth_update_beyond: "\<not> b < length xs \<Longrightarrow> xs[a := y] ! b = xs ! b"
  by (induction xs arbitrary: a b) (auto simp: nth_Cons' split: nat.split)

lemma upd_item_field:
  assumes "\<And>it. g (f it) = g it"
  shows "g (d_heap (upd_item a f d) ! b) = g (d_heap d ! b)"
  using assms
  by (cases "a = b"; cases "b < length (d_heap d)") (simp_all add: upd_item_def nth_update_beyond)

lemma upd_item_lookup:
  assumes "\<And>it. it_ID (f it) = it_ID it \<and> it_Length (f it) = it_Length it"
  shows "opt_getItem (upd_item a f d) i = opt_getItem d i"
proof -
  have "it_ID (d_heap (upd_item a f d) ! b) = it_ID (d_heap d ! b) \<and>
      it_Length (d_heap (upd_item a f d) ! b) = it_Length (d_heap d ! b)" for b
    using assms by (simp add: upd_item_field)
  then show ?thesis
    by (auto simp: opt_getItem_def doc_getItem_def split: option.split intro!: getItem_same_ids)
qed

lemma detached_same:
  "detached h a \<Longrightarrow> length h' = length h \<Longrightarrow> (\<And>b. b < length h \<Longrightarrow> it_Right (h' ! b) = it_Right (h ! b)) \<Longrightarrow> detached h' a"
  by (simp add: detached_def)

lemma upd_item_detached:
  "detached (d_heap d) a \<Longrightarrow> (\<And>it. it_Right (f it) = it_Right it) \<Longrightarrow> detached (d_heap (upd_item b f d)) a"
  by (erule detached_same) (simp_all add: upd_item_field)

text \<open>The new item stays out of every list until it is placed.\<close>

definition loose :: "Doc \<Rightarrow> addr \<Rightarrow> bool" where
  "loose d a \<longleftrightarrow> a < length (d_heap d) \<and> detached (d_heap d) a \<and>
    (\<forall>n st. gm_get (d_share d) n = Some st \<longrightarrow> a \<notin> starts st)"

lemma loose_upd: "loose d a \<Longrightarrow> (\<And>it. it_Right (f it) = it_Right it) \<Longrightarrow> loose (upd_item b f d) a"
  using upd_item_detached by (simp add: loose_def)

lemma loose_share: "loose d a \<Longrightarrow> a \<notin> starts st \<Longrightarrow> loose (share_put n st d) a"
  by (auto simp: loose_def share_put_def update_conv')

lemma resolve_by_name_loose: "loose d a \<Longrightarrow> loose (resolve_by_name b d) a"
  by (auto simp: resolve_by_name_def Let_def lazy_type_def newText_def newMap_def newArray_def
      intro!: loose_upd loose_share split: option.split)

lemma inherit_parent_loose: "loose d a \<Longrightarrow> loose (inherit_parent b d) a"
  by (auto simp: inherit_parent_def Let_def intro!: loose_upd split: option.split)

lemma integrateItem_wf:
  assumes wf: "doc_wf d" and it: "arriving it"
  shows "\<exists>d'. integrateItem it d = Ret d' \<and> doc_wf d'"
proof (cases "doc_getItem d (it_ID it)")
  case None
  let ?a = "length (d_heap d)"
  define d2 where "d2 = store_add ?a (snd (alloc it d))"
  define d3 where "d3 = (if isDeleted (d_ds d2) (it_ID it) then upd_item ?a (\<lambda>i. i\<lparr>it_Deleted := True\<rparr>) d2 else d2)"
  define d4 where "d4 = resolve_by_name ?a d3"
  define d5 where "d5 = inherit_parent ?a d4"
  have run: "integrateItem it d = place_item ?a d5"
    by (simp add: integrateItem_def None d2_def d3_def d4_def d5_def alloc_def Let_def)
  have wf2: "doc_wf d2"
    unfolding d2_def using wf it
    by (intro doc_wf_store_add doc_wf_alloc) (simp_all add: arriving_def alloc_def)
  then have wf3: "doc_wf d3" by (auto simp: d3_def typed_fields intro!: doc_wf_upd)
  then have wf5: "doc_wf d5" unfolding d5_def d4_def by (intro inherit_parent_wf resolve_by_name_wf)
  have chained: "chained (d_heap d)" using wf by (simp add: doc_wf_def)
  have "loose d2 ?a"
    using it detached_snoc [OF chained, of it] share_start [OF wf]
    by (fastforce simp: d2_def loose_def alloc_def arriving_def)
  then have loose3: "loose d3 ?a" by (auto simp: d3_def intro!: loose_upd)
  then have loose5: "loose d5 ?a" unfolding d5_def d4_def by (intro inherit_parent_loose resolve_by_name_loose)
  have at3: "it_Parent (d_heap d3 ! ?a) = None" "it_OriginLeft (d_heap d3 ! ?a) = it_OriginLeft it"
    "it_parentName (d_heap d3 ! ?a) = it_parentName it"
    using it by (simp_all add: d3_def d2_def alloc_def upd_item_def arriving_def)
  have "it_Parent (d_heap d5 ! ?a) = None \<or> opt_getItem d5 (it_OriginLeft (d_heap d5 ! ?a)) \<noteq> Some ?a"
  proof (cases "it_OriginLeft it")
    case None
    have "it_OriginLeft (d_heap d4 ! ?a) = None"
      using at3 None loose3 by (auto simp: d4_def resolve_by_name_def Let_def upd_item_def share_put_def loose_def split: option.split)
    then have "it_OriginLeft (d_heap d5 ! ?a) = None"
      by (auto simp: d5_def inherit_parent_def Let_def)
    then show ?thesis by (simp add: opt_getItem_def)
  next
    case (Some i)
    then have "it_parentName it = []" using it by (simp add: arriving_def)
    then have d4: "d4 = d3" using at3 by (simp add: d4_def resolve_by_name_def Let_def)
    show ?thesis
    proof (cases "opt_getItem d3 (it_OriginLeft it) = Some ?a")
      case True
      then show ?thesis using at3 by (simp add: d5_def d4 inherit_parent_def Let_def)
    next
      case False
      have "opt_getItem d5 j = opt_getItem d3 j" for j
        by (auto simp: d5_def d4 inherit_parent_def Let_def upd_item_lookup split: option.split)
      moreover have "it_OriginLeft (d_heap d5 ! ?a) = it_OriginLeft it"
        using at3 loose3 by (auto simp: d5_def d4 inherit_parent_def Let_def upd_item_def loose_def split: option.split)
      ultimately show ?thesis using False by simp
    qed
  qed
  then have "placeable d5 ?a" using loose5 by (simp add: placeable_def loose_def)
  then show ?thesis using doc_wf_place [OF wf5] run by simp
qed (use wf in \<open>auto simp: integrateItem_known\<close>)

section \<open>Splitting and deleting\<close>

lemma split_off_wf:
  assumes wf: "doc_wf d" and a: "a < length (d_heap d)"
    and ri: "it_Right ri = it_Right (d_heap d ! a)" "typed ri" and f: "typed (f (d_heap d ! a))"
  shows "doc_wf (snd (split_off a f ri d))" "fst (split_off a f ri d) = length (d_heap d)"
    and "length (d_heap (snd (split_off a f ri d))) = Suc (length (d_heap d))"
proof -
  let ?h = "d_heap d" and ?d' = "snd (split_off a f ri d)" and ?r = "length (d_heap d)"
  have chained: "chained ?h" using wf by (simp add: doc_wf_def)
  have right: "it_Right (?h ! a) \<noteq> Some a" "\<And>n. it_Right (?h ! a) = Some n \<Longrightarrow> n < ?r"
    using behind_neq behind_right [OF chained a] chained_right_bound [OF chained a] by auto
  note so = split_off_heap [OF a refl right, where f = f and ri = ri, simplified]
  show "fst (split_off a f ri d) = ?r" "length (d_heap ?d') = Suc ?r" using so(1,3) by simp_all
  let ?h1 = "?h @ [ri]"
  have ch1: "chained ?h1" using chained_snoc [OF chained] chained_right [OF chained a] ri(1) by simp
  have "it_Right ri \<noteq> Some ?r" using right(2) [of ?r] ri(1) by auto
  then have det: "detached ?h1 ?r" by (rule detached_snoc [OF chained])
  have "behind ?h1 a (it_Right (?h ! a))"
    using behind_right [OF ch1, of a] a by (simp add: nth_append)
  then have "chained (d_heap ?d')"
    using so a ri(1)
    by (intro chained_link [OF ch1 _ det _ _, where l = a]) (auto simp: nth_append less_Suc_eq)
  moreover have "typed (d_heap ?d' ! b)" if "b < Suc ?r" for b :: nat
  proof -
    consider "b = a" | "b = ?r" | "b < ?r" "b \<noteq> a" using \<open>b < Suc ?r\<close> by linarith
    then show ?thesis
    proof cases
      case 3
      then show ?thesis using so(6) [of b] wf by (auto simp: doc_wf_def list_all_length typed_def)
    qed (use so f ri(2) in \<open>auto simp: typed_def\<close>)
  qed
  then have "list_all typed (d_heap ?d')" by (simp add: list_all_length so(3))
  moreover have "d_share ?d' = d_share d" "d_store ?d' = d_store d" "d_txs ?d' = d_txs d" by (subst so(2), simp)+
  ultimately show "doc_wf ?d'" using so(3) by (intro doc_wf_heap [OF wf]) simp_all
qed

lemma insert_sorted_set: "set (insert_sorted h a as) = insert a (set as)"
  by (induction as) auto

lemma insertIntoStore_wf:
  assumes "doc_wf d" "a < length (d_heap d)"
  shows "doc_wf (insertIntoStore a d)"
proof -
  have "x < length (d_heap d)" if "x \<in> set (store_items (d_store (insertIntoStore a d)) c)" for x c
  proof -
    have "store_items (d_store (insertIntoStore a d)) c =
        (if c = Client (it_ID (d_heap d ! a)) then insert_sorted (d_heap d) a (store_items (d_store d) c)
         else store_items (d_store d) c)"
      by (simp add: insertIntoStore_def Let_def store_items_def update_conv')
    then show ?thesis using that assms by (auto simp: doc_wf_def store_ok_def insert_sorted_set split: if_splits)
  qed
  then show ?thesis
    using assms by (simp add: doc_wf_def store_ok_def share_ok_def txs_ok_def) (simp add: insertIntoStore_def Let_def gm.inv_put)
qed

lemma strContent_typed: "typed it \<Longrightarrow> \<exists>s. strContent it = Ret s"
  by (auto simp: strContent_def typed_def)

lemma doc_wf_typed: "doc_wf d \<Longrightarrow> a < length (d_heap d) \<Longrightarrow> typed (d_heap d ! a)"
  by (simp add: doc_wf_def list_all_length)

lemma splitAtClock_wf:
  assumes wf: "doc_wf d"
  shows "\<exists>d'. splitAtClock c k d = Ret d' \<and> doc_wf d'"
proof (cases "doc_getItem d (mkID c k)")
  case None
  then show ?thesis using wf by (simp add: splitAtClock_def)
next
  case (Some a)
  let ?it = "d_heap d ! a"
  have a: "a < length (d_heap d)" by (rule getItem_bound [OF wf Some])
  obtain s where s: "strContent ?it = Ret s" using strContent_typed doc_wf_typed [OF wf a] by blast
  define off where "off = k - Clock (it_ID ?it)"
  define ls rs where "ls = string_of_runes (take (unat off) (runes_of s))"
    and "rs = string_of_runes (drop (unat off) (runes_of s))"
  define f where "f = (\<lambda>i::Item. i\<lparr>it_Content := GString ls, it_Length := off\<rparr>)"
  define ri where "ri = zero_Item\<lparr>it_ID := mkID c k, it_Left := Some a, it_Right := it_Right ?it,
    it_Parent := it_Parent ?it, it_Kind := contentString, it_Content := GString rs,
    it_Length := of_nat (length (runes_of rs)), it_OriginLeft := Some (mkID c (k - 1))\<rparr>"
  have run: "splitAtClock c k d =
    (if Clock (it_ID ?it) = k \<or> it_Kind ?it \<noteq> contentString \<or> off \<ge> of_nat (length (runes_of s)) then Ret d
     else Ret (insertIntoStore (fst (split_off a f ri d)) (snd (split_off a f ri d))))"
    by (simp add: splitAtClock_def Some s Let_def off_def ls_def rs_def f_def ri_def split_beta)
  show ?thesis
  proof (cases "it_Kind ?it = contentString")
    case True
    have "typed (f ?it)" "typed ri" "it_Right ri = it_Right ?it"
      using True by (simp_all add: typed_def f_def ri_def)
    note so = split_off_wf [where f = f, OF wf a this(3,2,1)]
    have "doc_wf (insertIntoStore (fst (split_off a f ri d)) (snd (split_off a f ri d)))"
      using so by (intro insertIntoStore_wf) simp_all
    then show ?thesis using wf by (simp add: run)
  qed (simp add: run wf)
qed

lemma mark_range_wf:
  "doc_wf d \<Longrightarrow> list_all (\<lambda>a. a < length (d_heap d)) as \<Longrightarrow> doc_wf (mark_range tx k e as d)"
proof (induction tx k e as d rule: mark_range.induct)
  case (2 tx k e a as d)
  have "doc_wf (upd_item a (\<lambda>i. i\<lparr>it_Deleted := True\<rparr>) d)"
    by (rule doc_wf_upd [OF 2(3)]) (simp_all add: typed_fields)
  then show ?case using 2 by (simp add: Let_def doc_wf_tx)
qed simp

lemma store_items_bound: "doc_wf d \<Longrightarrow> list_all (\<lambda>a. a < length (d_heap d)) (store_items (d_store d) c)"
  by (simp add: doc_wf_def store_ok_def list_all_iff)

lemma applyDeleteRange_wf:
  assumes "doc_wf d"
  shows "\<exists>d'. applyDeleteRange tx c k n d = Ret d' \<and> doc_wf d'"
proof -
  obtain d1 where d1: "splitAtClock c k d = Ret d1" "doc_wf d1" using splitAtClock_wf [OF assms] by blast
  obtain d2 where "splitAtClock c (k + n) d1 = Ret d2" "doc_wf d2" using splitAtClock_wf [OF d1(2)] by blast
  then show ?thesis using d1 by (simp add: applyDeleteRange_def Let_def mark_range_wf store_items_bound)
qed

section \<open>Applying an update\<close>

lemma ofold_wf:
  assumes "\<And>x d. x \<in> set xs \<Longrightarrow> doc_wf d \<Longrightarrow> \<exists>d'. f x d = Ret d' \<and> doc_wf d'" "doc_wf d"
  shows "\<exists>d'. ofold f xs d = Ret d' \<and> doc_wf d'"
  using assms
proof (induction xs arbitrary: d)
  case (Cons x xs)
  obtain d1 where "f x d = Ret d1" "doc_wf d1" using Cons.prems by fastforce
  then show ?case using Cons.IH [of d1] Cons.prems(1) by simp
qed simp

lemma apply_ds_wf:
  assumes "doc_wf d"
  shows "\<exists>d'. apply_ds t ds d = Ret d' \<and> doc_wf d'"
  unfolding apply_ds_def
proof (rule ofold_wf [OF _ assms])
  fix e d assume "doc_wf d"
  then show "\<exists>d'. (case e of (c, ranges) \<Rightarrow> ofold (\<lambda>r. applyDeleteRange t c (dr_clock r) (dr_len r)) ranges) d = Ret d' \<and> doc_wf d'"
    by (cases e) (auto intro: ofold_wf applyDeleteRange_wf)
qed

lemma fireObservers_wf: "doc_wf d \<Longrightarrow> doc_wf (fireObservers t d)"
  by (erule doc_wf_cong) (simp_all add: fireObservers_def Let_def)

lemma begin_tx_wf: "doc_wf d \<Longrightarrow> doc_wf (snd (begin_tx origin d))"
  by (auto simp: doc_wf_def share_ok_def store_ok_def txs_ok_def begin_tx_def)

lemma apply_decoded_wf:
  assumes wf: "doc_wf d" and items: "list_all arriving items"
  shows "\<exists>d'. apply_decoded items ds origin d = Ret d' \<and> doc_wf d'"
proof -
  let ?d1 = "snd (begin_tx origin d)"
  let ?d2 = "?d1\<lparr>d_ds := accumulate_ds ds (d_ds ?d1)\<rparr>"
  have "doc_wf ?d2" by (rule doc_wf_cong [OF begin_tx_wf [OF wf]]) simp_all
  then obtain d3 where d3: "ofold integrateItem items ?d2 = Ret d3" "doc_wf d3"
    using ofold_wf [of items integrateItem] integrateItem_wf items by (metis list_all_iff)
  obtain d4 where d4: "apply_ds (fst (begin_tx origin d)) (d_ds d3) d3 = Ret d4" "doc_wf d4"
    using apply_ds_wf [OF d3(2)] by blast
  have "doc_wf (fireObservers (fst (begin_tx origin d)) (d4\<lparr>d_currentTx := None\<rparr>))"
    by (rule fireObservers_wf, rule doc_wf_cong [OF d4(2)]) simp_all
  then show ?thesis using d3 d4 by (simp add: apply_decoded_def split_beta Let_def)
qed

end
