(* ===== verification/Totality.thy ===== *)
theory Totality
  imports Wellformed UpdateRoundtrip ArrayType
begin

text \<open>
  From bytes to documents: what the decoder promises of its items, so that \<open>ApplyUpdate\<close> on a
  well-formed document has only the endings of the decoder; and what the document promises of
  its items, so that \<open>EncodeStateAsUpdate\<close> never panics on them.
\<close>

section \<open>What the decoder promises\<close>

definition content_typed :: "EncodedItem \<Rightarrow> bool" where
  "content_typed ei \<longleftrightarrow> (ei_ContentRef ei = 4 \<longrightarrow> (\<exists>s. ei_ContentData ei = GString s)) \<and>
    (ei_ContentRef ei = 3 \<longrightarrow> (\<exists>b. ei_ContentData ei = GBytes b)) \<and>
    (ei_ContentRef ei = 7 \<longrightarrow> (\<exists>n. ei_ContentData ei = GUint64 n))"

definition decoded_ok :: "EncodedItem \<Rightarrow> bool" where
  "decoded_ok ei \<longleftrightarrow> content_typed ei \<and> (ei_OriginLeft ei \<noteq> None \<longrightarrow> \<not> ei_ParentIsYKey ei)"

text \<open>A condition on the value that an outcome returns, when it returns one.\<close>

definition ensures :: "('a \<Rightarrow> bool) \<Rightarrow> 'a outcome \<Rightarrow> bool" where
  "ensures P m \<longleftrightarrow> (\<forall>x. m = Ret x \<longrightarrow> P x)"

named_theorems ensures_intros \<open>conditions on what an outcome returns\<close>

lemma ensures_basic [ensures_intros]: "P x \<Longrightarrow> ensures P (Ret x)" "ensures P (Err e)" "ensures P (Panic p)"
  by (simp_all add: ensures_def)

lemma ensures_if [ensures_intros]: "(b \<Longrightarrow> ensures P m) \<Longrightarrow> (\<not> b \<Longrightarrow> ensures P m') \<Longrightarrow> ensures P (if b then m else m')"
  by simp

lemma ensures_obind [ensures_intros]: "(\<And>x. m = Ret x \<Longrightarrow> ensures P (f x)) \<Longrightarrow> ensures P (obind m f)"
  by (cases m) (simp_all add: ensures_def)

lemma ensures_prod [ensures_intros]: "(\<And>a b. x = (a, b) \<Longrightarrow> ensures P (f a b)) \<Longrightarrow> ensures P (case x of (a, b) \<Rightarrow> f a b)"
  by (cases x) simp

lemma ensures_let [ensures_intros]: "ensures P (f x) \<Longrightarrow> ensures P (let y = x in f y)"
  by simp

lemma ensures_wrap [ensures_intros]: "ensures P m \<Longrightarrow> ensures P (owrap c ix m)"
  by (cases m) (simp_all add: ensures_def)

lemma ensures_bind: "ensures Q m \<Longrightarrow> (\<And>x. Q x \<Longrightarrow> ensures P (f x)) \<Longrightarrow> ensures P (obind m f)"
  by (cases m) (simp_all add: ensures_def)

lemma readItemContent_typed:
  "ensures (\<lambda>((item', n), rest). content_typed item' \<and> ei_OriginLeft item' = ei_OriginLeft item \<and>
      ei_ParentIsYKey item' = ei_ParentIsYKey item) (readItemContent bs item)"
  unfolding readItemContent_def Let_def
  by (intro ensures_intros) (simp_all add: content_typed_def)

lemma readParentInfo_left:
  "ensures (\<lambda>(item', rest). ei_OriginLeft item' = ei_OriginLeft item) (readParentInfo bs item)"
  unfolding readParentInfo_def by (intro ensures_intros) simp_all

text \<open>Once an item has a left origin, no parent is read by name.\<close>

definition no_key :: "bool \<Rightarrow> EncodedItem \<times> byte list \<Rightarrow> bool" where
  "no_key left x \<longleftrightarrow> \<not> ei_ParentIsYKey (fst x) \<and> (ei_OriginLeft (fst x) \<noteq> None \<longrightarrow> left)"

definition key_free :: "EncodedItem \<times> byte list \<Rightarrow> bool" where
  "key_free x \<longleftrightarrow> (ei_OriginLeft (fst x) \<noteq> None \<longrightarrow> \<not> ei_ParentIsYKey (fst x))"

lemma readParentInfo_key_free: "no_key False x \<Longrightarrow> ensures key_free (readParentInfo bs (fst x))"
  unfolding ensures_def using readParentInfo_left [where item = "fst x" and bs = bs]
  by (fastforce simp: ensures_def no_key_def key_free_def)

lemma readItemContent_key_free:
  assumes "key_free x"
  shows "ensures (\<lambda>((item, n), rest). decoded_ok item) (readItemContent bs (fst x))"
  using readItemContent_typed [where item = "fst x" and bs = bs] assms
  by (fastforce simp: ensures_def key_free_def decoded_ok_def)

lemma ensures_mono: "ensures Q m \<Longrightarrow> (\<And>x. Q x \<Longrightarrow> P x) \<Longrightarrow> ensures P m"
  by (simp add: ensures_def)

text \<open>The steps of \<open>readEncodedItem\<close> after the info byte, one per optional field.\<close>

lemma ensures_prod_app [ensures_intros]:
  "(\<And>a b. x = (a, b) \<Longrightarrow> ensures P (f a b c)) \<Longrightarrow> ensures P ((case x of (a, b) \<Rightarrow> f a b) c)"
  by (cases x) simp

lemma read_origins_no_key:
  "no_key False (item, bs) \<Longrightarrow>
   ensures (no_key l) (if l then obind m (\<lambda>(eid, b). Ret (item\<lparr>ei_OriginLeft := Some eid\<rparr>, b)) else Ret (item, bs))"
  "no_key l0 (item, bs) \<Longrightarrow>
   ensures (no_key l0) (if r then obind m' (\<lambda>(eid, b). Ret (item\<lparr>ei_OriginRight := Some eid\<rparr>, b)) else Ret (item, bs))"
  by (intro ensures_intros; simp add: no_key_def)+

lemma read_parent_key_free:
  "no_key l (item, bs) \<Longrightarrow>
   ensures key_free (if \<not> l \<and> \<not> r then readParentInfo bs' item else Ret (item, bs))"
  using readParentInfo_key_free [of "(item, bs)" bs']
  by (cases "l") (auto simp: ensures_def no_key_def key_free_def)

lemma read_sub_key_free:
  "key_free (item, bs) \<Longrightarrow>
   ensures key_free (if b then obind m (\<lambda>(sub, b). Ret (item\<lparr>ei_ParentSub := Some sub\<rparr>, b)) else Ret (item, bs))"
  by (intro ensures_intros; simp add: key_free_def)

lemma readEncodedItem_ok:
  "ensures (\<lambda>((item, n), rest). decoded_ok item) (readEncodedItem bs c k)"
  unfolding readEncodedItem_def Let_def
  apply (rule ensures_obind, rule ensures_prod)
  apply (rule ensures_obind)
  apply (rule ensures_if)
   apply (intro ensures_intros; simp add: decoded_ok_def content_typed_def zero_item_def)
  apply (rule ensures_if)
   apply (intro ensures_intros; simp add: decoded_ok_def content_typed_def zero_item_def)
  apply (rule ensures_bind [OF read_origins_no_key(1)], simp add: no_key_def zero_item_def)
  apply (rule ensures_prod, simp only:)
  apply (rule ensures_bind [OF read_origins_no_key(2)], assumption)
  apply (rule ensures_prod, simp only:)
  apply (rule ensures_bind [OF read_parent_key_free], assumption)
  apply (rule ensures_prod, simp only:)
  apply (rule ensures_bind [OF read_sub_key_free], assumption)
  apply (rule ensures_prod, simp only:)
  apply (rule ensures_bind [OF ensures_wrap [OF readItemContent_key_free [where x = "(i, b)" for i b, simplified]]], assumption)
  apply (intro ensures_intros)
  apply (simp add: decoded_ok_def content_typed_def)
  done

lemma read_structs_ok: "ensures (\<lambda>x. list_all decoded_ok (fst x)) (read_structs ci si n c k bs)"
proof (induction n arbitrary: si k bs)
  case (Suc n)
  show ?case
    unfolding read_structs.simps
    apply (rule ensures_bind [OF ensures_wrap [OF readEncodedItem_ok]])
    apply (rule ensures_prod, rule ensures_prod_app)
    apply (rule ensures_bind [OF Suc.IH])
    apply (intro ensures_intros)
    apply simp
    done
qed (simp add: ensures_basic)

lemma read_clients_ok: "ensures (\<lambda>x. list_all decoded_ok (fst x)) (read_clients ci n bs)"
proof (induction n arbitrary: ci bs)
  case (Suc n)
  show ?case
    unfolding read_clients.simps
    apply (rule ensures_obind, rule ensures_prod)
    apply (rule ensures_obind, rule ensures_prod)
    apply (rule ensures_obind, rule ensures_prod)
    apply (rule ensures_bind [OF read_structs_ok], rule ensures_prod)
    apply (rule ensures_bind [OF Suc.IH], rule ensures_prod)
    apply (intro ensures_intros)
    apply simp
    done
qed (simp add: ensures_basic)

lemma readUpdateV1_ok: "ensures (\<lambda>x. list_all decoded_ok (u_Items (fst x))) (readUpdateV1 bs)"
  unfolding readUpdateV1_def
  apply (rule ensures_obind, rule ensures_prod)
  apply (rule ensures_bind [OF read_clients_ok], rule ensures_prod)
  apply (intro ensures_intros)
  apply simp
  done

lemma DecodeUpdateV1_ok: "ensures (\<lambda>u. list_all decoded_ok (u_Items u)) (DecodeUpdateV1 bs)"
  unfolding DecodeUpdateV1_def
  by (rule ensures_bind [OF readUpdateV1_ok]) (auto intro: ensures_intros)

lemma encodedToItem_arriving: "decoded_ok ei \<Longrightarrow> encodedToItem ei = Some it \<Longrightarrow> arriving it"
  by (auto simp: encodedToItem_def Let_def decoded_ok_def content_typed_def arriving_def typed_def zero_Item_def
      split: if_splits goany.splits)

lemma decoded_arriving: "ensures (\<lambda>x. list_all arriving (fst x)) (decodeUpdateV1 bs)"
  unfolding decodeUpdateV1_def
  by (rule ensures_bind [OF DecodeUpdateV1_ok], rule ensures_basic)
    (auto simp: update_items_def List.map_filter_def list_all_iff intro: encodedToItem_arriving)

section \<open>Applying any bytes\<close>

text \<open>How a call on a well-formed document ends.\<close>

fun safe_end :: "Doc outcome \<Rightarrow> bool" where
  "safe_end (Ret d) \<longleftrightarrow> doc_wf d"
| "safe_end (Err e) \<longleftrightarrow> True"
| "safe_end (Panic p) \<longleftrightarrow> p = MakeSliceLen"
| "safe_end Diverge \<longleftrightarrow> False"

lemma ApplyUpdate_safe:
  assumes "doc_wf d"
  shows "safe_end (ApplyUpdate bs origin d)"
proof (cases "decodeUpdateV1 bs")
  case (Ret x)
  then have "list_all arriving (fst x)" using decoded_arriving [of bs] by (simp add: ensures_def)
  then show ?thesis
    using apply_decoded_wf [OF assms, of "fst x" "snd x" origin] Ret by (auto simp: ApplyUpdate_def split_beta)
next
  case (Panic p)
  then show ?thesis
    using tame_DecodeUpdateV1 [of bs] by (auto simp: ApplyUpdate_def decodeUpdateV1_def tame_def outcome_simps)
next
  case Diverge
  then show ?thesis
    using tame_DecodeUpdateV1 [of bs] by (auto simp: decodeUpdateV1_def tame_def outcome_simps)
qed (simp add: ApplyUpdate_def)

section \<open>Encoding any document\<close>

lemma itemToEncoded_fields:
  "ei_ContentRef (itemToEncoded it) = it_Kind it" "ei_ContentData (itemToEncoded it) = it_Content it"
  by (simp_all add: itemToEncoded_def contentKindToRef_def Let_def split: option.split)

lemma writeItemContent_typed: "typed it \<Longrightarrow> ret_or_err (writeItemContent (itemToEncoded it))"
  by (auto simp: writeItemContent_def itemToEncoded_fields typed_def Let_def split: goany.split)

lemma writeEncodedItem_typed: "typed it \<Longrightarrow> ret_or_err (writeEncodedItem (itemToEncoded it))"
  by (auto simp: writeEncodedItem_def intro!: ret_or_err_obind writeItemContent_typed)

lemma write_seq_ok: "(\<And>x. x \<in> set xs \<Longrightarrow> ret_or_err (wr x)) \<Longrightarrow> ret_or_err (write_seq wr xs)"
  by (induction xs) (auto intro!: ret_or_err_obind)

text \<open>Grouping by client only rearranges the structs.\<close>

lemma group_by_client_set:
  "g \<in> set (group_by_client items) \<Longrightarrow> set (snd g) \<subseteq> set items"
proof -
  have "g \<in> set (fold (\<lambda>item m. ds_append (ei_ClientID item) item m) items m) \<Longrightarrow> gm_ok m \<Longrightarrow>
      (\<And>g. g \<in> set m \<Longrightarrow> set (snd g) \<subseteq> S) \<Longrightarrow> set items \<subseteq> S \<Longrightarrow> set (snd g) \<subseteq> S" for m S
  proof (induction items arbitrary: m)
    case (Cons it items)
    let ?m = "ds_append (ei_ClientID it) it m"
    have ok: "gm_ok ?m" using Cons.prems(2) by (simp add: ds_append_def gm.inv_put)
    have "set (snd g) \<subseteq> S" if "g \<in> set ?m" for g
    proof -
      have "gm_get ?m (fst g) = Some (snd g)" using that ok by (simp add: gm_ok_def)
      then show ?thesis
        using Cons.prems(2,4) Cons.prems(3) [OF map_of_SomeD, of "fst g"]
        by (cases g; cases "gm_get m (fst g)") (auto simp: ds_append_def update_conv' split: if_splits)
    qed
    then show ?case using Cons.IH [OF _ ok] Cons.prems by simp
  qed simp
  from this [of "[]" "set items"]
  show "g \<in> set (group_by_client items) \<Longrightarrow> set (snd g) \<subseteq> set items"
    by (simp add: group_by_client_def)
qed

lemma EncodeUpdateV1_typed:
  assumes "\<And>ei. ei \<in> set (u_Items u) \<Longrightarrow> ret_or_err (writeEncodedItem ei)"
  shows "ret_or_err (EncodeUpdateV1 u)"
proof -
  have "ret_or_err (write_group g)" if "g \<in> set (sort_desc (group_by_client (u_Items u)))" for g
    using that group_by_client_set [of g "u_Items u"] assms
    by (auto simp: write_group_def Let_def intro!: ret_or_err_obind write_seq_ok)
  then show ?thesis
    by (auto simp: EncodeUpdateV1_def writeUpdateV1_def Let_def intro!: ret_or_err_obind write_seq_ok)
qed

lemma items_since_sub: "set (items_since h n items) \<subseteq> set items"
  by (simp add: items_since_def set_drop_subset)

lemma state_update_items:
  assumes "doc_wf d" "ei \<in> set (u_Items (state_update d sv))"
  shows "\<exists>it. typed it \<and> ei = itemToEncoded it"
proof -
  obtain c items a where a: "(c, items) \<in> set (d_store d)" "a \<in> set items" "ei = itemToEncoded (d_heap d ! a)"
    using assms(2) items_since_sub by (fastforce simp: state_update_def)
  then have "a \<in> set (store_items (d_store d) c)"
    using assms(1) by (simp add: store_items_def gm_ok_def doc_wf_def store_ok_def)
  then have "a < length (d_heap d)" using assms(1) by (auto simp: doc_wf_def store_ok_def)
  then show ?thesis using doc_wf_typed [OF assms(1)] a(3) by blast
qed

text \<open>The bytes of a document: a value or an error.\<close>

lemma EncodeStateAsUpdate_wf:
  assumes "doc_wf d"
  shows "ret_or_err (EncodeStateAsUpdate d sv)"
proof -
  have "ret_or_err (EncodeUpdateV1 (state_update d m))" for m
    using state_update_items [OF assms] writeEncodedItem_typed by (intro EncodeUpdateV1_typed) fastforce
  then show ?thesis
    by (auto simp: EncodeStateAsUpdate_def intro!: ret_or_err_obind DecodeStateVectorV1_ret_or_err)
qed

section \<open>Reading any document\<close>

lemma string_loop_typed:
  "linked h as \<Longrightarrow> list_all typed h \<Longrightarrow> \<exists>out'. string_loop h (front as) out = Some (Ret out')"
proof (induction as arbitrary: out)
  case (Cons a as)
  then have "typed (h ! a)" by (simp add: list_all_length)
  then obtain s where "strContent (h ! a) = Ret s" using strContent_typed by blast
  then show ?case using Cons by (subst string_loop.simps) auto
qed (simp add: string_loop.simps)

lemma loops_linked:
  assumes "linked h as"
  shows "\<exists>n'. len_loop h (front as) n = Some (Ret n')"
    and "\<exists>n'. count_loop h (front as) n = Some n'"
    and "\<exists>out'. slice_loop h (front as) out = Some out'"
    and "\<exists>v. get_loop h index (front as) n = Some v"
  using assms
  by (induction as arbitrary: n out)
    (subst len_loop.simps count_loop.simps slice_loop.simps get_loop.simps; simp)+

lemma start_chains:
  assumes wf: "doc_wf d" and p: "p = text_start d name \<or> p = array_start d name \<or> p = xml_start d name"
  obtains as where "linked (d_heap d) as" "front as = p"
proof -
  have "a < length (d_heap d)" if "p = Some a" for a
    using p that
    by (auto simp: text_start_def array_start_def xml_start_def split: option.splits SharedType.splits
        dest!: share_start [OF wf, where a = a])
  then have "chain_from (d_heap d) p" using wf by (intro chained_from) (simp_all add: doc_wf_def)
  then show thesis using that by (auto simp: chain_from_def)
qed

lemma readers_return:
  assumes "doc_wf d"
  shows "returns (text_String name d)" "returns (text_Len name d)" "returns (array_Len name d)"
    "returns (array_ToSlice name d)" "returns (array_Get name i d)" "returns (xml_Len name d)"
proof -
  have typed: "list_all typed (d_heap d)" using assms by (simp add: doc_wf_def)
  obtain as where as: "linked (d_heap d) as" "front as = text_start d name" using start_chains [OF assms, of "text_start d name"] by blast
  show "returns (text_String name d)"
    using string_loop_typed [OF as(1) typed, of "[]"] as(2) by (auto simp: returns_def text_String_def)
  show "returns (text_Len name d)"
    using loops_linked(1) [OF as(1), of 0] as(2) by (auto simp: returns_def text_Len_def)
  obtain bs where bs: "linked (d_heap d) bs" "front bs = array_start d name" using start_chains [OF assms, of "array_start d name"] by blast
  show "returns (array_Len name d)" "returns (array_ToSlice name d)" "returns (array_Get name i d)"
    using loops_linked(2) [OF bs(1), of 0] loops_linked(3) [OF bs(1), of "[]"] loops_linked(4) [OF bs(1), of i 0] bs(2)
    by (auto simp: returns_def array_Len_def array_ToSlice_def array_Get_def)
  obtain cs where "linked (d_heap d) cs" "front cs = xml_start d name" using start_chains [OF assms, of "xml_start d name"] by blast
  then show "returns (xml_Len name d)" using loops_linked(2) [of "d_heap d" cs 0] by (auto simp: returns_def xml_Len_def)
qed

end
