(* ===== verification/LocalEdits.thy ===== *)
theory LocalEdits
  imports Totality MapType TextEdit
begin

text \<open>
  Local edits on any well-formed document, whatever peers have put into it: every call ends,
  and a call that returns leaves a well-formed document. What is left are panics: outside a
  transaction, and when a split falls where an item's text has no rune boundary to offer.
\<close>

section \<open>How an edit ends\<close>

definition keeps_tx :: "Doc \<Rightarrow> Doc \<Rightarrow> bool" where
  "keeps_tx d d' \<longleftrightarrow> d_currentTx d' = d_currentTx d \<and> length (d_txs d') = length (d_txs d)"

text \<open>The panic with a message is the one for a call outside a transaction.\<close>

fun edit_end :: "Doc \<Rightarrow> Doc outcome \<Rightarrow> bool" where
  "edit_end d (Ret d') \<longleftrightarrow> doc_wf d' \<and> keeps_tx d d'"
| "edit_end d (Err e) \<longleftrightarrow> False"
| "edit_end d (Panic p) \<longleftrightarrow> p = SliceBounds \<or> d_currentTx d = None \<and> (\<exists>m. p = PanicMsg m)"
| "edit_end d Diverge \<longleftrightarrow> False"

lemma keeps_tx_refl [simp]: "keeps_tx d d"
  by (simp add: keeps_tx_def)

lemma keeps_tx_trans: "keeps_tx d d1 \<Longrightarrow> keeps_tx d1 d2 \<Longrightarrow> keeps_tx d d2"
  by (simp add: keeps_tx_def)

lemma keeps_tx_steps [simp]:
  "keeps_tx d (upd_item a f d') = keeps_tx d d'" "keeps_tx d (store_add a d') = keeps_tx d d'"
  "keeps_tx d (tx_addItem t a d') = keeps_tx d d'" "keeps_tx d (tx_addDeletedItem t a d') = keeps_tx d d'"
  "keeps_tx d (link_item name sub a left p d') = keeps_tx d d'" "keeps_tx d (snd (alloc it d')) = keeps_tx d d'"
  "keeps_tx d (set_entry name key a d') = keeps_tx d d'"
  by (auto simp: keeps_tx_def alloc_def set_entry_def share_put_def split: option.splits SharedType.splits)

lemma edit_end_trans: "keeps_tx d d1 \<Longrightarrow> edit_end d1 m \<Longrightarrow> edit_end d m"
  by (cases m) (auto simp: keeps_tx_def)

section \<open>Places in a chain\<close>

text \<open>A pair of neighbours between which a new item can go.\<close>

definition gap :: "heap \<Rightarrow> addr option \<Rightarrow> addr option \<Rightarrow> bool" where
  "gap h left p \<longleftrightarrow> (case left of Some l \<Rightarrow> behind h l p | None \<Rightarrow> chain_from h p)"

lemma behind_append: "behind h l p \<Longrightarrow> behind (h @ hs) l p"
  unfolding behind_def by (metis linked_heap_append)

lemma chain_from_append: "chain_from h p \<Longrightarrow> chain_from (h @ hs) p"
  unfolding chain_from_def by (metis linked_heap_append)

lemma gap_append: "gap h left p \<Longrightarrow> gap (h @ hs) left p"
  by (auto simp: gap_def behind_append chain_from_append split: option.splits)

lemma gap_bound: "gap h left p \<Longrightarrow> p = Some r \<Longrightarrow> r < length h"
  using chain_from_bound behind_chain by (fastforce simp: gap_def split: option.splits)

lemma gap_left_bound: "gap h (Some l) p \<Longrightarrow> l < length h"
  by (auto simp: gap_def behind_def)

lemma behind_nil: "chained h \<Longrightarrow> l < length h \<Longrightarrow> behind h l None"
  unfolding behind_def chained_def chain_from_Some by (metis append_Nil2 front_simps(1))

text \<open>A new item goes into a gap.\<close>

lemma doc_wf_insert:
  assumes wf: "doc_wf d" and g: "gap (d_heap d) left p" and it: "typed it" "it_Right it = None"
  shows "doc_wf (link_item name sub (length (d_heap d)) left p (snd (alloc it d)))"
    and "doc_wf (link_item name sub (length (d_heap d)) left p (store_add (length (d_heap d)) (snd (alloc it d))))"
proof -
  let ?a = "length (d_heap d)" and ?h = "d_heap d"
  have ch: "chained ?h" using wf by (simp add: doc_wf_def)
  have "p \<noteq> Some ?a" "left \<noteq> Some ?a" using gap_bound [OF g] gap_left_bound [of ?h _ p] g by auto
  then have ok: "link_ok (?h @ [it]) ?a left p"
    using gap_append [OF g, of "[it]"] detached_snoc [OF ch, of it] it
    by (auto simp: link_ok_def gap_def split: option.splits)
  have wf1: "doc_wf (snd (alloc it d))" using doc_wf_alloc [OF wf] it by simp
  then show "doc_wf (link_item name sub ?a left p (snd (alloc it d)))"
    using ok by (intro doc_wf_link) (simp_all add: alloc_def)
  have "doc_wf (store_add ?a (snd (alloc it d)))" using wf1 by (intro doc_wf_store_add) (simp_all add: alloc_def)
  then show "doc_wf (link_item name sub ?a left p (store_add ?a (snd (alloc it d))))"
    using ok by (intro doc_wf_link) (simp_all add: alloc_def)
qed

section \<open>Texts\<close>

lemma splitItemAt_wf:
  assumes wf: "doc_wf d" and a: "a < length (d_heap d)" and off: "off \<noteq> 0"
  obtains "splitItemAt a off d = Panic SliceBounds"
  | d' where "splitItemAt a off d = Ret ((Some a, length (d_heap d)), d')" "doc_wf d'"
    "length (d_heap d') = Suc (length (d_heap d))" "keeps_tx d d'"
    "it_Right (d_heap d' ! a) = Some (length (d_heap d))"
    "it_Right (d_heap d' ! length (d_heap d)) = it_Right (d_heap d ! a)"
    "\<And>b. b < length (d_heap d) \<Longrightarrow> b \<noteq> a \<Longrightarrow> it_Right (d_heap d' ! b) = it_Right (d_heap d ! b)"
proof -
  let ?it = "d_heap d ! a"
  obtain s where s: "strContent ?it = Ret s" using strContent_typed doc_wf_typed [OF wf a] by blast
  define ls rs where "ls = string_of_runes (take (unat off) (runes_of s))"
    and "rs = string_of_runes (drop (unat off) (runes_of s))"
  define n where "n = (of_nat (length (runes_of ls)) :: u64)"
  define f where "f = (\<lambda>i::Item. i\<lparr>it_Content := GString ls, it_Length := n\<rparr>)"
  define ri where "ri = zero_Item\<lparr>it_ID := mkID (Client (it_ID ?it)) (Clock (it_ID ?it) + n), it_Left := Some a,
    it_Right := it_Right ?it, it_Parent := it_Parent ?it, it_Kind := contentString, it_Content := GString rs,
    it_Length := of_nat (length (runes_of rs)), it_OriginLeft := Some (mkID (Client (it_ID ?it)) (Clock (it_ID ?it) + n - 1))\<rparr>"
  have run: "splitItemAt a off d = (if unat off > length (runes_of s) then Panic SliceBounds
      else Ret ((Some a, fst (split_off a f ri d)), store_add (fst (split_off a f ri d)) (snd (split_off a f ri d))))"
    using off by (simp add: splitItemAt_def s Let_def ls_def rs_def n_def f_def ri_def split_beta)
  show thesis
  proof (cases "unat off > length (runes_of s)")
    case False
    then have "it_Kind ?it = contentString" using s off by (auto simp: strContent_def unat_eq_0 split: if_splits)
    then have ok: "typed (f ?it)" "typed ri" "it_Right ri = it_Right ?it" by (simp_all add: typed_def f_def ri_def)
    note so = split_off_wf [where f = f, OF wf a ok(3,2,1)]
    have ch: "chained (d_heap d)" using wf by (simp add: doc_wf_def)
    have right: "it_Right ?it \<noteq> Some a" "\<And>m. it_Right ?it = Some m \<Longrightarrow> m < length (d_heap d)"
      using behind_neq behind_right [OF ch a] chained_right_bound [OF ch a] by auto
    note sh = split_off_heap [OF a refl right, where f = f and ri = ri, simplified]
    have "d_txs (snd (split_off a f ri d)) = d_txs d" "d_currentTx (snd (split_off a f ri d)) = d_currentTx d"
      by (subst sh(2), simp)+
    then have "keeps_tx d (store_add (length (d_heap d)) (snd (split_off a f ri d)))" by (simp add: keeps_tx_def)
    moreover have "doc_wf (store_add (length (d_heap d)) (snd (split_off a f ri d)))"
      using so by (intro doc_wf_store_add) simp_all
    ultimately show thesis
      using that(2) [of "store_add (length (d_heap d)) (snd (split_off a f ri d))"] run so False sh(4,5,6) ok(3)
      by simp
  qed (use run that(1) in simp)
qed

lemma find_pos_loop_chain:
  assumes "linked h as" "pos < index"
  shows "\<exists>r. find_pos_loop h index (front as) pos left = Some r \<and>
    (case r of After a \<Rightarrow> a \<in> set as | Inside a off \<Rightarrow> a \<in> set as \<and> off \<noteq> 0
     | AtEnd l \<Rightarrow> l = left \<or> (\<exists>b \<in> set as. l = Some b))"
  using assms
proof (induction as arbitrary: pos left)
  case (Cons a as)
  let ?stop = "pos + it_Length (h ! a)"
  consider "it_Deleted (h ! a)" | "\<not> it_Deleted (h ! a)" "?stop = index" | "\<not> it_Deleted (h ! a)" "?stop > index"
    | "\<not> it_Deleted (h ! a)" "?stop < index"
    by fastforce
  then show ?case
  proof cases
    case 1
    then show ?thesis using Cons.IH [of pos left] Cons.prems
      by (subst find_pos_loop.simps) (fastforce split: position.splits)
  next
    case 2
    then show ?thesis by (subst find_pos_loop.simps) simp
  next
    case 3
    then show ?thesis using Cons.prems(2) by (subst find_pos_loop.simps) auto
  next
    case 4
    then show ?thesis using Cons.IH [of ?stop "Some a"] Cons.prems
      by (subst find_pos_loop.simps) (fastforce split: position.splits)
  qed
qed (simp add: find_pos_loop.simps)

lemma skip_gap:
  assumes "gap h left p"
  obtains q where "skip_deleted_right h p = Some q" "gap h left q"
proof (cases left)
  case None
  then have "chain_from h p" using assms by (simp add: gap_def)
  then obtain xs ys where "linked h (xs @ ys)" "skip_deleted_right h p = Some (front ys)"
    using skip_deleted_chain by metis
  then show thesis using that None linked_suffix by (fastforce simp: gap_def chain_from_def)
next
  case (Some l)
  then obtain us vs where uv: "linked h (l # us @ vs)" "front vs = p" using assms by (auto simp: gap_def behind_def)
  then have "linked h vs" by (metis append_Cons linked_suffix)
  then have "skip_deleted_right h p = Some (front (dropWhile (\<lambda>a. it_Deleted (h ! a)) vs))"
    using skip_deleted_right_list uv(2) by blast
  moreover have "linked h (l # (us @ takeWhile (\<lambda>a. it_Deleted (h ! a)) vs) @ dropWhile (\<lambda>a. it_Deleted (h ! a)) vs)"
    using uv(1) by simp
  then have "behind h l (front (dropWhile (\<lambda>a. it_Deleted (h ! a)) vs))" unfolding behind_def by blast
  ultimately show thesis using that Some by (simp add: gap_def)
qed

lemma findPositionAt_wf:
  assumes wf: "doc_wf d"
  obtains "findPositionAt name index d = Panic SliceBounds"
  | left p d' where "findPositionAt name index d = Ret ((left, p), d')" "doc_wf d'" "gap (d_heap d') left p" "keeps_tx d d'"
proof -
  let ?h = "d_heap d"
  have ch: "chained ?h" using wf by (simp add: doc_wf_def)
  obtain as where as: "linked ?h as" "front as = text_start d name"
    using start_chains [OF wf, of "text_start d name"] by blast
  show thesis
  proof (cases "index = 0")
    case True
    have "gap ?h None (text_start d name)" using as by (auto simp: gap_def chain_from_def)
    then obtain q where "skip_deleted_right ?h (text_start d name) = Some q" "gap ?h None q" by (rule skip_gap)
    then show thesis using that(2) True wf by (simp add: findPositionAt_def)
  next
    case False
    then obtain r where r: "find_pos_loop ?h index (text_start d name) 0 None = Some r"
      "case r of After a \<Rightarrow> a \<in> set as | Inside a off \<Rightarrow> a \<in> set as \<and> off \<noteq> 0
       | AtEnd l \<Rightarrow> l = None \<or> (\<exists>b \<in> set as. l = Some b)"
      using find_pos_loop_chain [OF as(1), of 0 index None] as(2) by (auto simp: word_gt_0)
    show thesis
    proof (cases r)
      case (After a)
      then have "gap ?h (Some a) (it_Right (?h ! a))"
        using r(2) behind_right [OF ch] linked_bound [OF as(1)] by (simp add: gap_def)
      then obtain q where "skip_deleted_right ?h (it_Right (?h ! a)) = Some q" "gap ?h (Some a) q" by (rule skip_gap)
      then show thesis using that(2) False r(1) After wf by (simp add: findPositionAt_def)
    next
      case (Inside a off)
      then have a: "a < length ?h" "off \<noteq> 0" using r(2) linked_bound [OF as(1)] by auto
      show thesis
      proof (cases rule: splitItemAt_wf [OF wf a])
        case 1
        then show thesis using that(1) False r(1) Inside by (simp add: findPositionAt_def)
      next
        case (2 d')
        have "behind (d_heap d') a (it_Right (d_heap d' ! a))"
          using 2(2,3) a(1) by (intro behind_right) (simp_all add: doc_wf_def)
        then show thesis using that(2) False r(1) Inside 2 by (simp add: findPositionAt_def gap_def)
      qed
    next
      case (AtEnd l)
      then have "gap ?h l None"
        using r(2) behind_nil [OF ch] linked_bound [OF as(1)] by (auto simp: gap_def)
      then show thesis using that(2) False r(1) AtEnd wf by (simp add: findPositionAt_def)
    qed
  qed
qed

lemma link_item_txs [simp]: "length (d_heap (link_item name sub a left p d)) = length (d_heap d)"
  by (auto simp: link_item_def Let_def split: option.split)

lemma text_Insert_end:
  assumes wf: "doc_wf d"
  shows "edit_end d (text_Insert name index s d)"
proof (cases "s = [] \<or> d_currentTx d = None")
  case True
  then show ?thesis using wf by (auto simp: text_Insert_def)
next
  case False
  then obtain tx where tx: "s \<noteq> []" "d_currentTx d = Some tx" by auto
  show ?thesis
  proof (cases rule: findPositionAt_wf [OF wf, of name index])
    case 1
    then show ?thesis using tx by (simp add: text_Insert_def Let_def)
  next
    case (2 left p d1)
    define it where "it = zero_Item\<lparr>it_ID := mkID (d_clientID d1) (doc_getState d (d_clientID d)),
      it_OriginLeft := (case left of None \<Rightarrow> None
        | Some l \<Rightarrow> Some (mkID (Client (it_ID (d_heap d1 ! l))) (Clock (it_ID (d_heap d1 ! l)) + it_Length (d_heap d1 ! l) - 1))),
      it_OriginRight := None, it_Parent := Some name, it_Kind := contentString, it_Content := GString s,
      it_Length := of_nat (length (runes_of s))\<rparr>"
    let ?a = "length (d_heap d1)"
    define d4 where "d4 = link_item name None ?a left p (store_add ?a (snd (alloc it d1)))"
    have run: "text_Insert name index s d = Ret (tx_addItem tx ?a d4)"
      using tx 2(1) by (simp add: text_Insert_def Let_def alloc_def it_def d4_def)
    have "doc_wf d4"
      unfolding d4_def using 2 by (intro doc_wf_insert) (simp_all add: it_def typed_def zero_Item_def)
    moreover have "length (d_heap d4) = Suc ?a" by (simp add: d4_def alloc_def)
    moreover have "keeps_tx d (tx_addItem tx ?a d4)" using 2 by (simp add: d4_def alloc_def keeps_tx_def)
    ultimately show ?thesis by (simp add: run doc_wf_tx)
  qed
qed

lemma mark_deleted_wf:
  "doc_wf d \<Longrightarrow> a < length (d_heap d) \<Longrightarrow> doc_wf (mark_deleted tx a d)"
  unfolding mark_deleted_def by (intro doc_wf_tx doc_wf_upd) (simp_all add: typed_fields)

lemma mark_deleted_fields [simp]:
  "it_Right (d_heap (mark_deleted tx a d) ! b) = it_Right (d_heap d ! b)"
  "length (d_heap (mark_deleted tx a d)) = length (d_heap d)" "keeps_tx e (mark_deleted tx a d) = keeps_tx e d"
  "a < length (d_heap d) \<Longrightarrow> it_Deleted (d_heap (mark_deleted tx a d) ! a)"
  unfolding mark_deleted_def by (simp_all add: upd_item_field [where g = it_Right]) (simp add: upd_item_def)

text \<open>
  One iteration on the item \<open>a\<close>: afterwards nothing is left to delete, or the pointers are as
  they were, or a deleted right part has come between \<open>a\<close> and its neighbour.
\<close>

definition body_step :: "addr \<Rightarrow> Doc \<Rightarrow> u64 \<Rightarrow> Doc \<Rightarrow> bool" where
  "body_step a d remaining d' \<longleftrightarrow> doc_wf d' \<and> keeps_tx d d' \<and> length (d_heap d) \<le> length (d_heap d') \<and>
    (remaining = 0 \<or>
     (\<forall>b < length (d_heap d). b \<noteq> a \<longrightarrow> it_Right (d_heap d' ! b) = it_Right (d_heap d ! b)) \<and>
     (it_Right (d_heap d' ! a) = it_Right (d_heap d ! a) \<or>
      (\<exists>r < length (d_heap d'). it_Right (d_heap d' ! a) = Some r \<and> it_Deleted (d_heap d' ! r) \<and>
        it_Right (d_heap d' ! r) = it_Right (d_heap d ! a))))"

lemma body_step_same: "doc_wf d \<Longrightarrow> body_step a d n d"
  by (simp add: body_step_def)

lemma body_step_mark: "doc_wf d \<Longrightarrow> a < length (d_heap d) \<Longrightarrow> body_step a d n (mark_deleted tx a d)"
  by (simp add: body_step_def mark_deleted_wf)

lemma delete_body_end:
  assumes wf: "doc_wf d" and a: "a < length (d_heap d)" and rem: "remaining > 0"
  obtains "delete_body tx index a pos remaining d = Panic SliceBounds"
  | pos' remaining' d' where "delete_body tx index a pos remaining d = Ret (pos', remaining', d')"
    "body_step a d remaining' d'"
proof -
  let ?it = "d_heap d ! a" and ?e = "pos + it_Length (d_heap d ! a)"
  have rem0: "remaining \<noteq> 0" using rem by auto
  consider (skip) "it_Deleted ?it \<or> ?e \<le> index" | (inside) "\<not> it_Deleted ?it" "\<not> ?e \<le> index" "pos < index"
    | (long) "\<not> it_Deleted ?it" "\<not> ?e \<le> index" "\<not> pos < index" "it_Length ?it > remaining"
    | (whole) "\<not> it_Deleted ?it" "\<not> ?e \<le> index" "\<not> pos < index" "\<not> it_Length ?it > remaining"
    by blast
  then show thesis
  proof cases
    case skip
    then show thesis
      by (cases "it_Deleted ?it") (rule that(2) [OF _ body_step_same [OF wf]], simp add: delete_body_def Let_def)+
  next
    case inside
    then have "index - pos \<noteq> 0" by auto
    show thesis
    proof (cases rule: splitItemAt_wf [OF wf a \<open>index - pos \<noteq> 0\<close>])
      case 1
      then show thesis using that(1) inside by (simp add: delete_body_def Let_def)
    next
      case (2 d1)
      let ?r = "length (d_heap d)"
      have r: "?r < length (d_heap d1)" using 2(3) by simp
      show thesis
      proof (cases "it_Deleted (d_heap d1 ! ?r)")
        case True
        have "body_step a d remaining d1" using 2 True by (auto simp: body_step_def)
        then show thesis using that(2) inside 2 True by (simp add: delete_body_def Let_def)
      next
        case live: False
        show thesis
        proof (cases "it_Length (d_heap d1 ! ?r) > remaining")
          case True
          show thesis
          proof (cases rule: splitItemAt_wf [OF 2(2) r rem0])
            case 1
            then show thesis using that(1) inside 2 live True by (simp add: delete_body_def Let_def)
          next
            case (2 d2)
            have "body_step a d 0 (mark_deleted tx ?r d2)"
              using 2 r \<open>length (d_heap d1) = Suc (length (d_heap d))\<close> keeps_tx_trans [OF \<open>keeps_tx d d1\<close>]
              by (simp add: body_step_def mark_deleted_wf)
            then show thesis
              using that(2) inside \<open>splitItemAt a (index - pos) d = _\<close> 2 live True by (simp add: delete_body_def Let_def)
          qed
        next
          case False
          have "body_step a d n (mark_deleted tx ?r d1)" for n
            using 2 r by (auto simp: body_step_def mark_deleted_wf)
          then show thesis using that(2) inside 2 live False by (simp add: delete_body_def Let_def)
        qed
      qed
    qed
  next
    case long
    show thesis
    proof (cases rule: splitItemAt_wf [OF wf a rem0])
      case 1
      then show thesis using that(1) long by (simp add: delete_body_def Let_def)
    next
      case (2 d1)
      have "body_step a d 0 (mark_deleted tx a d1)" using 2 a by (simp add: body_step_def mark_deleted_wf)
      then show thesis using that(2) long 2 by (simp add: delete_body_def Let_def)
    qed
  next
    case whole
    then show thesis using that(2) body_step_mark [OF wf a] by (simp add: delete_body_def Let_def)
  qed
qed

lemma delete_loop_end:
  assumes "doc_wf d" "linked (d_heap d) as"
  shows "\<exists>m. delete_loop tx index (front as) pos remaining d = Some m \<and> edit_end d m"
  using assms
proof (induction as arbitrary: d pos remaining)
  case Nil
  then show ?case by (simp add: delete_loop.simps)
next
  case (Cons a as)
  show ?case
  proof (cases "remaining > 0")
    case False
    then show ?thesis using Cons.prems by (simp add: delete_loop.simps)
  next
    case rem: True
    have a: "a < length (d_heap d)" and next_a: "it_Right (d_heap d ! a) = front as" and lk: "linked (d_heap d) as"
      using Cons.prems(2) by auto
    show ?thesis
    proof (cases rule: delete_body_end [OF Cons.prems(1) a rem, of tx index pos])
      case 1
      then show ?thesis using rem by (simp add: delete_loop.simps)
    next
      case (2 pos' remaining' d')
      have step: "delete_loop tx index (front (a # as)) pos remaining d =
          delete_loop tx index (it_Right (d_heap d' ! a)) pos' remaining' d'"
        using 2 rem by (subst delete_loop.simps) simp
      have wf': "doc_wf d'" and keep: "keeps_tx d d'" using 2(2) by (simp_all add: body_step_def)
      show ?thesis
      proof (cases "remaining' = 0")
        case True
        then show ?thesis using step wf' keep by (simp add: delete_loop_stop)
      next
        case False
        have lk': "linked (d_heap d') as"
          by (rule linked_cong [OF lk])
            (use 2(2) False linked_bound [OF lk] linked_distinct [OF Cons.prems(2)] in \<open>fastforce simp: body_step_def\<close>)
        have rest: "\<exists>m. delete_loop tx index (front as) pos'' remaining' d' = Some m \<and> edit_end d m" for pos''
          using Cons.IH [OF wf' lk', of pos'' remaining'] edit_end_trans [OF keep] by blast
        from 2(2) False consider "it_Right (d_heap d' ! a) = front as"
          | r where "it_Right (d_heap d' ! a) = Some r" "it_Deleted (d_heap d' ! r)" "it_Right (d_heap d' ! r) = front as"
          unfolding body_step_def next_a by metis
        then show ?thesis
        proof cases
          case 1
          then show ?thesis using step rest by simp
        next
          case (2 r)
          have "delete_loop tx index (Some r) pos' remaining' d' = delete_loop tx index (front as) pos' remaining' d'"
            using delete_loop_skip [OF 2(2)] 2(3) by simp
          then show ?thesis using step rest 2 by simp
        qed
      qed
    qed
  qed
qed

lemma text_Delete_end:
  assumes "doc_wf d"
  shows "edit_end d (text_Delete name index n d)"
proof -
  obtain as where "linked (d_heap d) as" "front as = text_start d name"
    using start_chains [OF assms, of "text_start d name"] by blast
  then have "\<exists>m. delete_loop tx index (text_start d name) 0 n d = Some m \<and> edit_end d m" for tx
    using delete_loop_end [OF assms] by metis
  then have "edit_end d (of_loop (delete_loop tx index (text_start d name) 0 n d))" for tx
    by (metis of_loop.simps(2))
  then show ?thesis using assms by (simp add: text_Delete_def split: option.split)
qed

section \<open>Arrays\<close>

lemma last_loop_chain:
  "linked h as \<Longrightarrow> \<exists>l. last_loop h (front as) lst = Some l \<and> (l = lst \<or> (\<exists>b \<in> set as. l = Some b))"
proof (induction as arbitrary: lst)
  case (Cons a as)
  then show ?case using Cons.IH [of "Some a"] by (subst last_loop.simps) auto
qed (simp add: last_loop.simps)

lemma find_index_loop_chain:
  "linked h as \<Longrightarrow> \<exists>l. find_index_loop h index (front as) pos lst = Some l \<and> (l = lst \<or> (\<exists>b \<in> set as. l = Some b))"
proof (induction as arbitrary: pos lst)
  case (Cons a as)
  have lk: "linked h as" using Cons.prems by simp
  obtain l where "find_index_loop h index (front as) pos lst = Some l" "l = lst \<or> (\<exists>b \<in> set as. l = Some b)"
    using Cons.IH [OF lk, of pos lst] by blast
  moreover obtain l' where "find_index_loop h index (front as) (pos + 1) (Some a) = Some l'"
    "l' = Some a \<or> (\<exists>b \<in> set as. l' = Some b)"
    using Cons.IH [OF lk, of "pos + 1" "Some a"] by blast
  ultimately show ?case using Cons.prems by (subst find_index_loop.simps) auto
qed (simp add: find_index_loop.simps)

lemma add_value_wf:
  assumes wf: "doc_wf d" and g: "gap (d_heap d) prev right"
  shows "doc_wf (snd (add_value tx name prev right v d))" "fst (add_value tx name prev right v d) = length (d_heap d)"
    "length (d_heap (snd (add_value tx name prev right v d))) = Suc (length (d_heap d))"
    "keeps_tx d (snd (add_value tx name prev right v d))"
proof -
  let ?a = "length (d_heap d)" and ?it = "array_item d name (doc_getState d (d_clientID d)) v prev"
  let ?d2 = "link_item name None ?a prev right (snd (alloc ?it d))"
  have run: "add_value tx name prev right v d = (?a, tx_addItem tx ?a (store_add ?a ?d2))"
    by (simp add: add_value_def alloc_def Let_def)
  have "typed ?it" "it_Right ?it = None" by (simp_all add: array_item_def typed_def zero_Item_def)
  then have "doc_wf ?d2" by (intro doc_wf_insert wf g)
  moreover have "length (d_heap ?d2) = Suc ?a" by (simp add: alloc_def)
  ultimately show "doc_wf (snd (add_value tx name prev right v d))" "fst (add_value tx name prev right v d) = ?a"
    "length (d_heap (snd (add_value tx name prev right v d))) = Suc ?a" "keeps_tx d (snd (add_value tx name prev right v d))"
    by (simp_all add: run doc_wf_tx doc_wf_store_add)
qed

lemma push_loop_wf:
  "doc_wf d \<Longrightarrow> gap (d_heap d) lst None \<Longrightarrow> doc_wf (push_loop tx name lst vs d) \<and> keeps_tx d (push_loop tx name lst vs d)"
proof (induction vs arbitrary: lst d)
  case (Cons v vs)
  let ?d1 = "snd (add_value tx name lst None v d)"
  note add = add_value_wf [OF Cons.prems, where tx = tx and name = name and v = v]
  have "gap (d_heap ?d1) (Some (length (d_heap d))) None"
    using add by (simp add: gap_def behind_nil doc_wf_def)
  then show ?case using Cons.IH [OF add(1)] add(2) keeps_tx_trans [OF add(4)] by (simp add: split_beta)
qed simp

lemma array_Push_end:
  assumes wf: "doc_wf d"
  shows "edit_end d (array_Push name vs d)"
proof -
  obtain as where as: "linked (d_heap d) as" "front as = array_start d name"
    using start_chains [OF wf, of "array_start d name"] by blast
  obtain l where l: "last_loop (d_heap d) (array_start d name) None = Some l" "l = None \<or> (\<exists>b \<in> set as. l = Some b)"
    using last_loop_chain [OF as(1), of None] as(2) by auto
  have "gap (d_heap d) l None"
    using l(2) wf behind_nil linked_bound [OF as(1)] by (auto simp: gap_def doc_wf_def)
  then show ?thesis using push_loop_wf [OF wf] l(1) by (simp add: array_Push_def split: option.split)
qed

text \<open>
  For every value after the first, \<open>Insert\<close> looks its predecessor up in the store. The look-up finds
  it when no item of the client starts behind the client's clock; a text's split that has left the
  slice out of order can make it find another item.
\<close>

definition current :: "nat \<Rightarrow> Doc \<Rightarrow> bool" where
  "current n d \<longleftrightarrow> (let c = d_clientID d; k = doc_getState d c in
     list_all (\<lambda>a. Clock (it_ID (d_heap d ! a)) \<le> k) (store_items (d_store d) c) \<and> unat k + n < 2 ^ 64)"

definition newest :: "nat \<Rightarrow> addr \<Rightarrow> Doc \<Rightarrow> bool" where
  "newest n a d \<longleftrightarrow> (\<exists>xs. store_items (d_store d) (d_clientID d) = xs @ [a] \<and> it_Length (d_heap d ! a) = 1 \<and>
     (\<forall>b \<in> set xs. Clock (it_ID (d_heap d ! b)) \<le> Clock (it_ID (d_heap d ! a))) \<and>
     unat (Clock (it_ID (d_heap d ! a))) + 1 + n < 2 ^ 64)"

lemma sort_search_none:
  assumes "\<And>i. i < n \<Longrightarrow> \<not> f i"
  shows "sort_search n f = n"
proof -
  have "sort_search n f \<le> n \<and> (\<forall>k. sort_search n f \<le> k \<and> k < n \<longrightarrow> f k)"
    using sort_search_correct [of n f] assms by (meson order.strict_trans1)
  then show ?thesis using assms le_neq_implies_less by blast
qed

lemma newest_found:
  assumes "newest n a d"
  shows "doc_getItem d (mkID (d_clientID d) (doc_getState d (d_clientID d) - 1)) = Some a"
proof -
  let ?k = "Clock (it_ID (d_heap d ! a))"
  obtain xs where xs: "store_items (d_store d) (d_clientID d) = xs @ [a]" "it_Length (d_heap d ! a) = 1"
    "\<forall>b \<in> set xs. Clock (it_ID (d_heap d ! b)) \<le> ?k" "unat ?k + 1 < 2 ^ 64"
    using assms by (auto simp: newest_def)
  have "\<not> Clock (it_ID (d_heap d ! ((xs @ [a]) ! i))) > ?k" if "i < Suc (length xs)" for i
    using xs(3) that by (auto simp: nth_append not_less)
  then have "sort_search (Suc (length xs)) (\<lambda>i. Clock (it_ID (d_heap d ! ((xs @ [a]) ! i))) > ?k) = Suc (length xs)"
    by (rule sort_search_none)
  moreover have "?k < ?k + 1" using xs(4) unat_plus_ok [of ?k 1] by (simp add: word_less_nat_alt)
  ultimately show ?thesis using xs(1,2) by (simp add: doc_getItem_def getItem_def doc_getState_def getState_def Let_def)
qed

lemma newest_current: "newest (Suc n) a d \<Longrightarrow> current (Suc n) d"
proof -
  assume "newest (Suc n) a d"
  then obtain xs where xs: "store_items (d_store d) (d_clientID d) = xs @ [a]" "it_Length (d_heap d ! a) = 1"
    "\<forall>b \<in> set xs. Clock (it_ID (d_heap d ! b)) \<le> Clock (it_ID (d_heap d ! a))"
    "unat (Clock (it_ID (d_heap d ! a))) + 1 + Suc n < 2 ^ 64"
    by (auto simp: newest_def)
  have "unat (Clock (it_ID (d_heap d ! a)) + 1) = unat (Clock (it_ID (d_heap d ! a))) + 1"
    using xs(4) by (subst unat_plus_ok) simp_all
  then show ?thesis
    using xs by (fastforce simp: current_def doc_getState_def getState_def Let_def list_all_iff word_le_nat_alt)
qed

lemma add_value_newest:
  assumes wf: "doc_wf d" and g: "gap (d_heap d) prev right" and cur: "current (Suc n) d"
  shows "newest n (length (d_heap d)) (snd (add_value tx name prev right v d))"
proof -
  let ?h = "d_heap d" and ?a = "length (d_heap d)" and ?k = "doc_getState d (d_clientID d)"
  let ?it = "array_item d name ?k v prev" and ?own = "store_items (d_store d) (d_clientID d)"
  let ?d1 = "d\<lparr>d_heap := ?h @ [?it]\<rparr>"
  define d2 where "d2 = link_item name None ?a prev right ?d1"
  have run: "snd (add_value tx name prev right v d) = tx_addItem tx ?a (store_add ?a d2)"
    by (simp add: add_value_def alloc_def Let_def d2_def)
  have "?a < length (d_heap ?d1)" "prev \<noteq> Some ?a" "right \<noteq> Some ?a"
    "\<And>l. prev = Some l \<Longrightarrow> l < length (d_heap ?d1) \<and> right \<noteq> Some l" "\<And>r. right = Some r \<Longrightarrow> r < length (d_heap ?d1)"
    using gap_bound [OF g] gap_left_bound [of ?h _ right] g behind_neq by (fastforce simp: gap_def)+
  note li = link_item_heap(2) [OF this, where parent = name and sub = None, folded d2_def]
  have at: "it_ID (d_heap d2 ! b) = it_ID ((?h @ [?it]) ! b) \<and> it_Length (d_heap d2 ! b) = it_Length ((?h @ [?it]) ! b)"
    if "b \<le> ?a" for b
    using li [of b] that by simp
  have new: "it_ID (d_heap d2 ! ?a) = mkID (d_clientID d) ?k" "it_Length (d_heap d2 ! ?a) = 1"
    using at [of ?a] by (simp_all add: array_item_def zero_Item_def)
  have "d_store d2 = d_store d" "d_clientID d2 = d_clientID d" by (simp_all add: d2_def)
  moreover from this have "store_items (d_store (store_add ?a d2)) (d_clientID d) = ?own @ [?a]"
    using new(1) by (simp add: store_add_def addItem_def store_items_def update_conv' Let_def)
  moreover have "Clock (it_ID (d_heap d2 ! b)) \<le> ?k" if "b \<in> set ?own" for b
  proof -
    have "b < ?a" using wf that by (auto simp: doc_wf_def store_ok_def)
    then show ?thesis using cur that at [of b] by (auto simp: current_def list_all_iff Let_def nth_append)
  qed
  ultimately show ?thesis using new cur by (simp add: newest_def run current_def Let_def)
qed

lemma insert_loop_wf:
  "doc_wf d \<Longrightarrow> newest (length vs) a d \<Longrightarrow> p = it_Right (d_heap d ! a) \<Longrightarrow> a < length (d_heap d) \<Longrightarrow>
    doc_wf (insert_loop tx name False left p vs d) \<and> keeps_tx d (insert_loop tx name False left p vs d)"
proof (induction vs arbitrary: a p d)
  case (Cons v vs)
  have g: "gap (d_heap d) (Some a) p" using Cons.prems by (simp add: gap_def behind_right doc_wf_def)
  let ?d1 = "snd (add_value tx name (Some a) p v d)" and ?a = "length (d_heap d)"
  note add = add_value_wf [OF Cons.prems(1) g, where tx = tx and name = name and v = v]
  have lt: "?a < length (d_heap ?d1)" unfolding add(3) by (rule lessI)
  have "newest (length vs) ?a ?d1"
    using add_value_newest [OF Cons.prems(1) g newest_current] Cons.prems(2) by simp
  then have "doc_wf (insert_loop tx name False left (it_Right (d_heap ?d1 ! ?a)) vs ?d1) \<and>
      keeps_tx ?d1 (insert_loop tx name False left (it_Right (d_heap ?d1 ! ?a)) vs ?d1)"
    by (rule Cons.IH [OF add(1) _ refl lt])
  then show ?case
    using add(2) keeps_tx_trans [OF add(4)] newest_found [OF Cons.prems(2)] by (simp add: split_beta Let_def)
qed simp

lemma array_Insert_end:
  assumes wf: "doc_wf d" and cur: "length vs \<le> 1 \<or> current (length vs) d"
  shows "edit_end d (array_Insert name index vs d)"
proof (cases vs)
  case (Cons v ws)
  obtain as where as: "linked (d_heap d) as" "front as = array_start d name"
    using start_chains [OF wf, of "array_start d name"] by blast
  have "\<exists>l. findItemAtIndex name index d = Ret l \<and> (l = None \<or> (\<exists>b \<in> set as. l = Some b))"
    using find_index_loop_chain [OF as(1), of index 0 None] as(2) by (auto simp: findItemAtIndex_def)
  then obtain l where l: "findItemAtIndex name index d = Ret l" "l = None \<or> (\<exists>b \<in> set as. l = Some b)" by blast
  let ?right = "case l of Some b \<Rightarrow> it_Right (d_heap d ! b) | None \<Rightarrow> array_start d name"
  have g: "gap (d_heap d) l ?right"
    using l(2) wf behind_right linked_bound [OF as(1)] as by (auto simp: gap_def doc_wf_def chain_from_def)
  have "doc_wf (insert_loop tx name True l ?right vs d) \<and> keeps_tx d (insert_loop tx name True l ?right vs d)" for tx
  proof -
    let ?d1 = "snd (add_value tx name l ?right v d)" and ?a = "length (d_heap d)"
    note add = add_value_wf [OF wf g, where tx = tx and name = name and v = v]
    have lt: "?a < length (d_heap ?d1)" unfolding add(3) by (rule lessI)
    have "doc_wf (insert_loop tx name False l (it_Right (d_heap ?d1 ! ?a)) ws ?d1) \<and>
        keeps_tx ?d1 (insert_loop tx name False l (it_Right (d_heap ?d1 ! ?a)) ws ?d1)"
    proof (cases ws)
      case Nil
      then show ?thesis using add by simp
    next
      case (Cons w us)
      then have "newest (length ws) ?a ?d1" using cur \<open>vs = v # ws\<close> by (intro add_value_newest [OF wf g]) simp
      then show ?thesis by (rule insert_loop_wf [OF add(1) _ refl lt])
    qed
    then show ?thesis using add(2) keeps_tx_trans [OF add(4)] Cons by (simp add: split_beta Let_def)
  qed
  then show ?thesis using l(1) Cons by (simp add: array_Insert_def Let_def split: option.split)
qed (use wf in \<open>simp add: array_Insert_def\<close>)

lemma array_mark_wf: "doc_wf d \<Longrightarrow> a < length (d_heap d) \<Longrightarrow> doc_wf (array_mark tx a d)"
  using mark_deleted_wf by (simp add: array_mark_def mark_deleted_def)

lemma array_delete_loop_end:
  "doc_wf d \<Longrightarrow> linked (d_heap d) as \<Longrightarrow>
   \<exists>d'. array_delete_loop tx index n (front as) pos d = Some d' \<and> doc_wf d' \<and> keeps_tx d d'"
proof (induction as arbitrary: d pos)
  case (Cons a as)
  define d1 where "d1 = (if pos \<ge> index then array_mark tx a d else d)"
  have d1: "doc_wf d1" "keeps_tx d d1" "\<And>b. it_Right (d_heap d1 ! b) = it_Right (d_heap d ! b)"
    "length (d_heap d1) = length (d_heap d)"
    using Cons.prems by (auto simp: d1_def array_mark_wf) (simp_all add: array_mark_def upd_item_field [where g = it_Right])
  have "linked (d_heap d1) as"
    by (rule linked_cong [of "d_heap d"]) (use Cons.prems(2) d1(3,4) linked_bound in auto)
  then show ?case
    using Cons.IH [OF d1(1), of "pos + 1"] Cons.IH [OF Cons.prems(1), of pos] Cons.prems d1
    by (subst array_delete_loop.simps) (auto simp: Let_def d1_def [symmetric] intro: keeps_tx_trans [OF d1(2)])
qed (simp add: array_delete_loop.simps)

lemma array_Delete_end:
  assumes wf: "doc_wf d"
  shows "edit_end d (array_Delete name index n d)"
proof -
  obtain as where "linked (d_heap d) as" "front as = array_start d name"
    using start_chains [OF wf, of "array_start d name"] by blast
  then have "\<exists>d'. array_delete_loop tx index n (array_start d name) 0 d = Some d' \<and> doc_wf d' \<and> keeps_tx d d'" for tx
    using array_delete_loop_end [OF wf] by metis
  then have "edit_end d (case array_delete_loop tx index n (array_start d name) 0 d of
      None \<Rightarrow> Diverge | Some d' \<Rightarrow> Ret d')" for tx
    by (smt (verit, best) edit_end.simps(1) option.simps(5))
  then show ?thesis using wf by (simp add: array_Delete_def split: option.split)
qed

section \<open>Maps\<close>

lemma map_entry_bound:
  assumes "doc_wf d" "gm_get (map_entries d name) key = Some a"
  shows "a < length (d_heap d)"
proof -
  obtain m obs where "gm_get (d_share d) name = Some (TMap m obs)" "gm_get m key = Some a"
    using assms(2) by (auto simp: map_entries_def split: option.splits SharedType.splits)
  then show ?thesis using share_map_start [OF assms(1)] by blast
qed

lemma set_entry_wf:
  assumes "doc_wf d" "a < length (d_heap d)"
  shows "doc_wf (set_entry name key a d)"
  using assms
  by (auto simp: set_entry_def update_conv' split: option.split SharedType.split if_splits
      intro!: doc_wf_share dest: share_map_start)

lemma map_Set_end:
  assumes wf: "doc_wf d"
  shows "edit_end d (map_Set name key v d)"
proof (cases "d_currentTx d")
  case (Some tx)
  define d1 where "d1 = (case gm_get (map_entries d name) key of
      Some old \<Rightarrow> upd_item old (\<lambda>i. i\<lparr>it_Deleted := True\<rparr>) d | None \<Rightarrow> d)"
  have d1: "doc_wf d1" "keeps_tx d d1"
    using wf by (auto simp: d1_def typed_fields intro!: doc_wf_upd split: option.split)
  let ?it = "zero_Item\<lparr>it_ID := mkID (d_clientID d1) (doc_getState d (d_clientID d)), it_Parent := Some name,
    it_ParentSub := Some key, it_Kind := contentAny, it_Content := v, it_Length := 1\<rparr>"
  let ?a = "length (d_heap d1)"
  let ?d2 = "snd (alloc ?it d1)"
  have run: "map_Set name key v d = Ret (tx_addItem tx ?a (set_entry name key ?a (store_add ?a ?d2)))"
    using Some by (simp add: map_Set_def Let_def alloc_def d1_def)
  have "doc_wf ?d2" using d1(1) by (rule doc_wf_alloc) (simp_all add: typed_def zero_Item_def)
  then have "doc_wf (set_entry name key ?a (store_add ?a ?d2))"
    by (intro set_entry_wf doc_wf_store_add) (simp_all add: alloc_def)
  then show ?thesis using d1(2) by (simp add: run doc_wf_tx) (simp add: alloc_def doc_wf_tx)
qed (simp add: map_Set_def)

lemma map_Delete_end:
  assumes "doc_wf d"
  shows "edit_end d (map_Delete name key d)"
  using assms mark_deleted_wf [OF assms map_entry_bound [OF assms]]
  by (auto simp: map_Delete_def mark_deleted_def split: option.split)

section \<open>Transactions\<close>

text \<open>The calls an application makes in a transaction.\<close>

datatype local_op =
    TextInsert gostring u64 gostring
  | TextDelete gostring u64 u64
  | ArrayInsert gostring u64 "goany list"
  | ArrayPush gostring "goany list"
  | ArrayDelete gostring u64 u64
  | MapSet gostring gostring goany
  | MapDelete gostring gostring

fun run_op :: "local_op \<Rightarrow> Doc \<Rightarrow> Doc outcome" where
  "run_op (TextInsert name i s) = text_Insert name i s"
| "run_op (TextDelete name i n) = text_Delete name i n"
| "run_op (ArrayInsert name i vs) = array_Insert name i vs"
| "run_op (ArrayPush name vs) = array_Push name vs"
| "run_op (ArrayDelete name i n) = array_Delete name i n"
| "run_op (MapSet name k v) = map_Set name k v"
| "run_op (MapDelete name k) = map_Delete name k"

text \<open>
  The calls to which nothing below applies: an \<open>Insert\<close> of several values into an array while the
  client has an item behind its clock. \<open>Deviations\<close> shows that it can make a cyclic list.
\<close>

fun stale_insert :: "local_op \<Rightarrow> Doc \<Rightarrow> bool" where
  "stale_insert (ArrayInsert name i vs) d \<longleftrightarrow> 1 < length vs \<and> \<not> current (length vs) d"
| "stale_insert _ d \<longleftrightarrow> False"

fun no_stale_insert :: "local_op list \<Rightarrow> Doc \<Rightarrow> bool" where
  "no_stale_insert [] d \<longleftrightarrow> True"
| "no_stale_insert (op # ops) d \<longleftrightarrow> \<not> stale_insert op d \<and> (\<forall>d'. run_op op d = Ret d' \<longrightarrow> no_stale_insert ops d')"

lemma run_op_end: "doc_wf d \<Longrightarrow> \<not> stale_insert op d \<Longrightarrow> edit_end d (run_op op d)"
  by (cases op) (auto simp: not_less text_Insert_end text_Delete_end array_Push_end array_Delete_end map_Set_end map_Delete_end
      intro!: array_Insert_end)

lemma run_ops_end: "doc_wf d \<Longrightarrow> no_stale_insert ops d \<Longrightarrow> edit_end d (ofold run_op ops d)"
proof (induction ops arbitrary: d)
  case (Cons op ops)
  have e: "edit_end d (run_op op d)" using Cons.prems run_op_end by simp
  show ?case
  proof (cases "run_op op d")
    case (Ret d1)
    then have "doc_wf d1" "keeps_tx d d1" using e by simp_all
    then show ?thesis using Cons.IH edit_end_trans Ret Cons.prems(2) by simp
  qed (use e in auto)
qed simp

lemma encode_pending_returns:
  assumes "\<And>it. it \<in> set items \<Longrightarrow> typed it"
  shows "returns (encodeUpdateV1 items dels)"
proof -
  have "ret_or_err (EncodeUpdateV1 (pending_update items dels))"
    using assms writeEncodedItem_typed by (intro EncodeUpdateV1_typed) (auto simp: pending_update_def)
  moreover have "ret_or_err (EncodeUpdateV1 empty_update)"
    by (intro EncodeUpdateV1_typed) (simp add: empty_update_def)
  ultimately show ?thesis
    by (auto simp: encodeUpdateV1_def emptyUpdateV1_def returns_def ret_or_err_def split: outcome.splits)
qed

text \<open>
  A transaction of such calls commits, unless a split panics: with no transaction open before, no
  call is outside one.
\<close>

lemma Transact_end:
  assumes wf: "doc_wf d" and tx: "d_currentTx d = None" and calm: "no_stale_insert ops (snd (begin_tx origin d))"
  shows "(\<exists>d'. Transact (ofold run_op ops) origin d = Ret d' \<and> doc_wf d' \<and> d_currentTx d' = None) \<or>
    Transact (ofold run_op ops) origin d = Panic SliceBounds"
proof -
  let ?d1 = "snd (begin_tx origin d)"
  note e = run_ops_end [OF begin_tx_wf [OF wf, of origin] calm]
  show ?thesis
  proof (cases "ofold run_op ops ?d1")
    case (Ret d2)
    let ?t = "d_txs d2 ! length (d_txs d)" and ?d3 = "d2\<lparr>d_currentTx := None\<rparr>"
    have d2: "doc_wf d2" "length (d_txs d) < length (d_txs d2)" using e Ret by (simp_all add: begin_tx_def keeps_tx_def)
    have "typed (d_heap d2 ! a)" if "a \<in> set (tx_pendingItems ?t)" for a
    proof -
      have "txs_ok d2" using d2(1) by (simp add: doc_wf_def)
      then have "a < length (d_heap d2)" using that nth_mem [OF d2(2)] unfolding txs_ok_def by fastforce
      then show ?thesis by (rule doc_wf_typed [OF d2(1)])
    qed
    then have "\<And>it. it \<in> set (map (\<lambda>a. d_heap d2 ! a) (tx_pendingItems ?t)) \<Longrightarrow> typed it" by auto
    from encode_pending_returns [OF this] obtain b where
      b: "encodeUpdateV1 (map (\<lambda>a. d_heap d2 ! a) (tx_pendingItems ?t)) (map (\<lambda>a. d_heap d2 ! a) (tx_pendingDeletes ?t)) = Ret b"
      unfolding returns_def by metis
    have "doc_wf ?d3" by (rule doc_wf_cong [OF d2(1)]) simp_all
    moreover have "doc_wf (fireObservers t (call_handlers b origin ?d3))" for t
      by (rule fireObservers_wf, rule doc_wf_cong [OF d2(1)]) (simp_all add: call_handlers_def)
    moreover have "d_currentTx (fireObservers t (call_handlers b origin ?d3)) = None" for t
      by (simp add: fireObservers_def call_handlers_def Let_def)
    ultimately show ?thesis using tx Ret b by (simp add: Transact_def begin_tx_def Let_def)
  qed (use e tx in \<open>auto simp: Transact_def begin_tx_def\<close>)
qed

end
