(* ===== verification/Transport.thy ===== *)
theory Transport
  imports DocOps SyncProtocol
begin

text \<open>
  \<open>transport/relay.go\<close> and \<open>transport/ws.go\<close>: the relay's rooms as a state machine, and the
  client's handshake and receive loop as functions of the messages that arrive.

  The WebSocket library and the HTTP server are the environment: they choose which connection
  acts next, what bytes it receives, and when it ends. What the code sends is recorded in
  order. The room's mutex makes each critical section one step, and the steps of different
  connections interleave. A panic under the mutex, which no \<open>defer\<close> releases, leaves it locked.
\<close>

section \<open>Frames\<close>

definition parse_frame :: "byte list \<Rightarrow> (u64 \<times> byte list) outcome" where
  "parse_frame data =
    obind (ReadVarUint data) (\<lambda>(msgType, bs).
    obind (ReadVarBytes bs) (\<lambda>(payload, _). Ret (msgType, payload)))"

lemma parse_frame_frame:
  "bytes_fit (sm_Payload m) \<Longrightarrow> parse_frame (frame m) = Ret (sm_Type m, sm_Payload m)"
  using ReadVarBytes_write [of "sm_Payload m" "[]"] by (simp add: parse_frame_def frame_def ReadVarUint_write)

definition relay_origin :: goany where "relay_origin = GString (gostr ''relay'')"
definition remote_origin :: goany where "remote_origin = GString (gostr ''remote'')"

section \<open>The relay\<close>

text \<open>
  A connection's place in \<open>ServeHTTP\<close>: about to send the first message, before registering,
  at the top of the read loop, with a message that \<open>Read\<close> returned, sending the replies to one
  message, before the deferred removal, gone.
\<close>

datatype conn_state =
    Greeting "byte list"
  | Greeted
  | Serving
  | Handling "byte list"
  | Sending "(nat \<times> byte list) list"
  | Closing
  | Closed

record Room =
  rm_doc :: Doc
  rm_clients :: "nat list"
  rm_locked :: bool
  rm_conns :: "nat \<Rightarrow> conn_state option"
  rm_sent :: "(nat \<times> byte list) list"

definition newRoom :: "(byte \<times> byte \<times> byte \<times> byte) option \<Rightarrow> Room" where
  "newRoom rnd = \<lparr>rm_doc = NewDoc rnd, rm_clients = [], rm_locked = False, rm_conns = (\<lambda>_. None), rm_sent = []\<rparr>"

definition goto :: "nat \<Rightarrow> conn_state \<Rightarrow> Room \<Rightarrow> Room" where
  "goto c st r = r\<lparr>rm_conns := (rm_conns r)(c \<mapsto> st)\<rparr>"

text \<open>A panic under the mutex: it unwinds to the deferred removal, which waits for the mutex for ever.\<close>

definition wedge :: "nat \<Rightarrow> Room \<Rightarrow> Room" where
  "wedge c r = goto c Closing (r\<lparr>rm_locked := True\<rparr>)"

definition relay_accept :: "nat \<Rightarrow> Room \<Rightarrow> Room" where
  "relay_accept c r = goto c (Greeting (EncodeSyncStep1 (EncodeStateVector (rm_doc r)))) r"

definition relay_send :: "nat \<Rightarrow> byte list \<Rightarrow> Room \<Rightarrow> Room" where
  "relay_send c f r = r\<lparr>rm_sent := rm_sent r @ [(c, f)]\<rparr>"

definition relay_register :: "nat \<Rightarrow> Room \<Rightarrow> Room" where
  "relay_register c r = goto c Serving (r\<lparr>rm_clients := rm_clients r @ [c]\<rparr>)"

fun remove_client :: "nat \<Rightarrow> nat list \<Rightarrow> nat list" where
  "remove_client c [] = []"
| "remove_client c (x # xs) = (if x = c then xs else x # remove_client c xs)"

definition relay_leave :: "nat \<Rightarrow> Room \<Rightarrow> Room" where
  "relay_leave c r = goto c Closed (r\<lparr>rm_clients := remove_client c (rm_clients r)\<rparr>)"

text \<open>The room's document after \<open>ApplyUpdate\<close>, whose error is dropped; no document when it panics.\<close>

definition room_apply :: "byte list \<Rightarrow> Room \<Rightarrow> Room option" where
  "room_apply payload r =
    (case ApplyUpdate payload relay_origin (rm_doc r) of
       Ret d \<Rightarrow> Some (r\<lparr>rm_doc := d\<rparr>)
     | Err _ \<Rightarrow> Some r
     | _ \<Rightarrow> None)"

definition relay_message :: "nat \<Rightarrow> u64 \<Rightarrow> byte list \<Rightarrow> Room \<Rightarrow> Room" where
  "relay_message c msgType payload r =
    (if msgType = MessageYjsSyncStep1 then
       (case EncodeStateAsUpdate (rm_doc r) payload of
          Ret update \<Rightarrow> goto c (Sending [(c, EncodeSyncStep2 update)]) r
        | Err _ \<Rightarrow> goto c Serving r
        | _ \<Rightarrow> wedge c r)
     else if msgType = MessageYjsSyncStep2 then
       (if length payload > 0 then
          (case room_apply payload r of Some r' \<Rightarrow> goto c Serving r' | None \<Rightarrow> wedge c r)
        else goto c Serving r)
     else if msgType = MessageYjsUpdate then
       (case room_apply payload r of
          Some r' \<Rightarrow>
            goto c (Sending (map (\<lambda>o'. (o', EncodeUpdate payload)) (filter (\<lambda>x. x \<noteq> c) (rm_clients r')))) r'
        | None \<Rightarrow> wedge c r)
     else goto c Serving r)"

text \<open>
  The rest of an iteration of the read loop, once \<open>Read\<close> has returned a message. A frame that does
  not parse is skipped; the panic of \<open>make\<close> on its length unwinds to the deferred removal, outside
  the mutex.
\<close>

definition relay_receive :: "nat \<Rightarrow> byte list \<Rightarrow> Room \<Rightarrow> Room" where
  "relay_receive c data r =
    (case parse_frame data of
       Ret (msgType, payload) \<Rightarrow> relay_message c msgType payload r
     | Err _ \<Rightarrow> goto c Serving r
     | _ \<Rightarrow> goto c Closing r)"

text \<open>
  Whether the message's critical section can be entered: frames that do not parse and unknown
  types need no lock.
\<close>

definition needs_lock :: "byte list \<Rightarrow> bool" where
  "needs_lock data =
    (case parse_frame data of
       Ret (msgType, payload) \<Rightarrow>
         msgType = MessageYjsSyncStep1 \<or> msgType = MessageYjsUpdate \<or>
         msgType = MessageYjsSyncStep2 \<and> length payload > 0
     | _ \<Rightarrow> False)"

text \<open>
  Reading a message and handling it are two steps, between which other connections, and a shutdown,
  can come. \<open>send\<close> drops the error of the write, so any frame may be lost.
\<close>

inductive relay_step :: "Room \<Rightarrow> Room \<Rightarrow> bool" where
  accept: "rm_conns r c = None \<Longrightarrow> \<not> rm_locked r \<Longrightarrow> relay_step r (relay_accept c r)"
| greet: "rm_conns r c = Some (Greeting f) \<Longrightarrow> relay_step r (goto c Greeted (relay_send c f r))"
| greet_lost: "rm_conns r c = Some (Greeting f) \<Longrightarrow> relay_step r (goto c Greeted r)"
| register: "rm_conns r c = Some Greeted \<Longrightarrow> \<not> rm_locked r \<Longrightarrow> relay_step r (relay_register c r)"
| read: "rm_conns r c = Some Serving \<Longrightarrow> relay_step r (goto c (Handling data) r)"
| handle: "rm_conns r c = Some (Handling data) \<Longrightarrow> needs_lock data \<longrightarrow> \<not> rm_locked r \<Longrightarrow> relay_step r (relay_receive c data r)"
| send: "rm_conns r c = Some (Sending ((o', f) # todo)) \<Longrightarrow> relay_step r (goto c (Sending todo) (relay_send o' f r))"
| lost: "rm_conns r c = Some (Sending (x # todo)) \<Longrightarrow> relay_step r (goto c (Sending todo) r)"
| sent: "rm_conns r c = Some (Sending []) \<Longrightarrow> relay_step r (goto c Serving r)"
| hangup: "rm_conns r c = Some Serving \<Longrightarrow> relay_step r (goto c Closing r)"
| leave: "rm_conns r c = Some Closing \<Longrightarrow> \<not> rm_locked r \<Longrightarrow> relay_step r (relay_leave c r)"

inductive_cases relay_stepE: "relay_step r r'"

inductive relay_reach :: "Room \<Rightarrow> bool" where
  start: "relay_reach (newRoom rnd)"
| step: "relay_reach r \<Longrightarrow> relay_step r r' \<Longrightarrow> relay_reach r'"

text \<open>A message is read and handled, and the replies to it are sent.\<close>

lemma goto_goto [simp]: "goto c st' (goto c st r) = goto c st' r"
  by (simp add: goto_def)

lemma goto_doc [simp]: "rm_doc (goto c st r) = rm_doc r" "rm_clients (goto c st r) = rm_clients r"
  "rm_sent (goto c st r) = rm_sent r" "rm_locked (goto c st r) = rm_locked r" "rm_conns (goto c st r) = (rm_conns r)(c \<mapsto> st)"
  by (simp_all add: goto_def)

definition hears :: "nat \<Rightarrow> byte list \<Rightarrow> Room \<Rightarrow> Room" where
  "hears c data r = relay_receive c data (goto c (Handling data) r)"

lemma hears_steps:
  assumes "rm_conns r c = Some Serving" "\<not> rm_locked r"
  shows "relay_step\<^sup>*\<^sup>* r (hears c data r)"
  using assms relay_step.read [of r c data] relay_step.handle [of "goto c (Handling data) r" c data]
  by (simp add: hears_def r_into_rtranclp rtranclp.rtrancl_into_rtrancl)

lemma relay_sends:
  "rm_conns r c = Some (Sending todo) \<Longrightarrow> relay_step\<^sup>*\<^sup>* r (goto c (Sending []) (r\<lparr>rm_sent := rm_sent r @ todo\<rparr>))"
proof (induction todo arbitrary: r)
  case Nil
  then have "goto c (Sending []) (r\<lparr>rm_sent := rm_sent r @ []\<rparr>) = r" by (simp add: goto_def fun_upd_idem)
  then show ?case by simp
next
  case (Cons s todo)
  obtain x f where s: "s = (x, f)" by (cases s)
  let ?r1 = "goto c (Sending todo) (relay_send x f r)"
  have "relay_step r ?r1" using Cons.prems by (auto simp: s intro: relay_step.send)
  moreover have "relay_step\<^sup>*\<^sup>* ?r1 (goto c (Sending []) (?r1\<lparr>rm_sent := rm_sent ?r1 @ todo\<rparr>))"
    by (rule Cons.IH) (simp add: goto_def)
  moreover have "goto c (Sending []) (?r1\<lparr>rm_sent := rm_sent ?r1 @ todo\<rparr>) = goto c (Sending []) (r\<lparr>rm_sent := rm_sent r @ s # todo\<rparr>)"
    by (simp add: goto_def relay_send_def s)
  ultimately show ?case by (metis converse_rtranclp_into_rtranclp)
qed

lemma relay_reach_steps: "relay_step\<^sup>*\<^sup>* r r' \<Longrightarrow> relay_reach r \<Longrightarrow> relay_reach r'"
  by (induction rule: rtranclp_induct) (auto intro: relay_reach.step)

text \<open>The three steps by which a connection enters the room.\<close>

definition joined :: "nat \<Rightarrow> Room \<Rightarrow> Room" where
  "joined c r = relay_register c (goto c Greeted (relay_send c (EncodeSyncStep1 (EncodeStateVector (rm_doc r))) (relay_accept c r)))"

lemma relay_reach_join:
  assumes "relay_reach r" "rm_conns r c = None" "\<not> rm_locked r"
  shows "relay_reach (joined c r)"
proof -
  let ?r1 = "relay_accept c r"
  let ?r2 = "goto c Greeted (relay_send c (EncodeSyncStep1 (EncodeStateVector (rm_doc r))) ?r1)"
  note states = relay_accept_def goto_def relay_send_def
  have "relay_reach ?r1" by (rule relay_reach.step [OF assms(1) relay_step.accept [OF assms(2,3)]])
  then have "relay_reach ?r2" by (rule relay_reach.step [OF _ relay_step.greet]) (simp add: states)
  then show ?thesis
    unfolding joined_def by (rule relay_reach.step [OF _ relay_step.register]) (simp_all add: states assms(3))
qed

lemma joined_fields [simp]:
  "rm_doc (joined c r) = rm_doc r" "rm_clients (joined c r) = rm_clients r @ [c]"
  "rm_locked (joined c r) = rm_locked r" "rm_conns (joined c r) = (rm_conns r)(c \<mapsto> Serving)"
  by (simp_all add: joined_def relay_register_def goto_def relay_send_def relay_accept_def)

section \<open>Invariants of the relay\<close>

text \<open>Which connections are in the room's list.\<close>

definition registered :: "conn_state option \<Rightarrow> bool" where
  "registered st = (case st of
     Some Serving \<Rightarrow> True | Some (Handling _) \<Rightarrow> True | Some (Sending _) \<Rightarrow> True | Some Closing \<Rightarrow> True | _ \<Rightarrow> False)"

definition is_frame :: "byte list \<Rightarrow> bool" where
  "is_frame f \<longleftrightarrow> (\<exists>p. f = EncodeSyncStep1 p \<or> f = EncodeSyncStep2 p \<or> f = EncodeUpdate p)"

text \<open>What connection \<open>c\<close> may be about to send: a reply to itself, or an update to the others.\<close>

definition may_send :: "nat \<Rightarrow> nat \<times> byte list \<Rightarrow> bool" where
  "may_send c s \<longleftrightarrow> (if fst s = c then \<exists>u. snd s = EncodeSyncStep2 u else \<exists>p. snd s = EncodeUpdate p)"

definition room_ok :: "Room \<Rightarrow> bool" where
  "room_ok r \<longleftrightarrow>
    distinct (rm_clients r) \<and> (\<forall>c. c \<in> set (rm_clients r) \<longleftrightarrow> registered (rm_conns r c)) \<and>
    (\<forall>c f. rm_conns r c = Some (Greeting f) \<longrightarrow> (\<exists>sv. f = EncodeSyncStep1 sv)) \<and>
    (\<forall>c todo. rm_conns r c = Some (Sending todo) \<longrightarrow> (\<forall>s \<in> set todo. may_send c s)) \<and>
    (\<forall>s \<in> set (rm_sent r). is_frame (snd s))"

lemma set_remove_client: "distinct xs \<Longrightarrow> set (remove_client c xs) = set xs - {c}"
  by (induction xs) auto

lemma distinct_remove_client: "distinct xs \<Longrightarrow> distinct (remove_client c xs)"
  by (induction xs) (auto simp: set_remove_client)

lemma room_apply_fields:
  "room_apply p r = Some r' \<Longrightarrow> rm_clients r' = rm_clients r \<and> rm_conns r' = rm_conns r \<and> rm_sent r' = rm_sent r \<and>
    rm_locked r' = rm_locked r"
  by (auto simp: room_apply_def split: outcome.splits)

lemma may_send_frame: "may_send c s \<Longrightarrow> is_frame (snd s)"
  by (auto simp: may_send_def is_frame_def split: if_splits)

text \<open>A connection moves on: the list of clients stays as it is when it stays registered.\<close>

lemma room_ok_goto:
  assumes "room_ok r" "registered (Some st) = registered (rm_conns r c)"
    and "\<And>f. st = Greeting f \<Longrightarrow> \<exists>sv. f = EncodeSyncStep1 sv"
    and "\<And>todo. st = Sending todo \<Longrightarrow> \<forall>s \<in> set todo. may_send c s"
  shows "room_ok (goto c st r)"
  using assms by (auto simp: room_ok_def goto_def)

lemma room_ok_wedge:
  assumes "room_ok r" "rm_conns r c = Some (Handling data)"
  shows "room_ok (wedge c r)"
proof -
  have "room_ok (r\<lparr>rm_locked := True\<rparr>)" using assms(1) by (simp add: room_ok_def)
  then show ?thesis unfolding wedge_def by (rule room_ok_goto) (simp_all add: assms(2) registered_def)
qed

lemma room_ok_apply: "room_ok r \<Longrightarrow> room_apply p r = Some r' \<Longrightarrow> room_ok r'"
  using room_apply_fields [of p r r'] by (simp add: room_ok_def)

lemma room_ok_message:
  assumes ok: "room_ok r" and c: "rm_conns r c = Some (Handling data)"
  shows "room_ok (relay_message c t p r)"
proof -
  have reply: "room_ok (goto c (Sending [(c, EncodeSyncStep2 u)]) r)" "room_ok (goto c Serving r)" for u
    by (rule room_ok_goto [OF ok]; auto simp: c registered_def may_send_def)+
  have applied: "room_ok (goto c Serving r')"
    "room_ok (goto c (Sending (map (\<lambda>o'. (o', EncodeUpdate p)) (filter (\<lambda>x. x \<noteq> c) (rm_clients r')))) r')"
    if "room_apply p r = Some r'" for r'
    using room_apply_fields [OF that] c
    by (intro room_ok_goto room_ok_apply [OF ok that]; auto simp: registered_def may_send_def)+
  show ?thesis
    using reply applied room_ok_wedge [OF assms]
    by (auto simp: relay_message_def split: outcome.split option.split)
qed

lemma room_ok_receive:
  assumes ok: "room_ok r" and c: "rm_conns r c = Some (Handling data)"
  shows "room_ok (relay_receive c data' r)"
proof -
  have "room_ok (goto c Closing r)" "room_ok (goto c Serving r)"
    by (rule room_ok_goto [OF ok]; simp add: c registered_def)+
  then show ?thesis
    using room_ok_message [OF assms] by (auto simp: relay_receive_def split: outcome.split)
qed

lemma room_ok_step: "relay_step r r' \<Longrightarrow> room_ok r \<Longrightarrow> room_ok r'"
proof (induction rule: relay_step.induct)
  case (accept r c)
  then show ?case
    unfolding relay_accept_def by (intro room_ok_goto) (auto simp: registered_def)
next
  case (greet r c f)
  then have "is_frame f" unfolding room_ok_def is_frame_def by blast
  with greet have "room_ok (relay_send c f r)" by (simp add: room_ok_def relay_send_def)
  then show ?case using greet by (intro room_ok_goto) (simp_all add: registered_def relay_send_def)
next
  case (greet_lost r c f)
  then show ?case by (intro room_ok_goto) (simp_all add: registered_def)
next
  case (register r c)
  then show ?case by (auto simp: room_ok_def relay_register_def goto_def registered_def)
next
  case (read r c data)
  then show ?case by (intro room_ok_goto) (simp_all add: registered_def)
next
  case (handle r c data)
  then show ?case by (intro room_ok_receive)
next
  case (send r c o' f todo)
  then have "may_send c (o', f)" "\<forall>s \<in> set todo. may_send c s" by (auto simp: room_ok_def)
  moreover have "room_ok (relay_send o' f r)"
    using send may_send_frame [OF calculation(1)] by (simp add: room_ok_def relay_send_def)
  ultimately show ?case using send by (intro room_ok_goto) (simp_all add: registered_def relay_send_def)
next
  case (lost r c x todo)
  then have "\<forall>s \<in> set todo. may_send c s" by (auto simp: room_ok_def)
  with lost show ?case by (intro room_ok_goto) (simp_all add: registered_def)
next
  case (sent r c)
  then show ?case by (intro room_ok_goto) (simp_all add: registered_def)
next
  case (hangup r c)
  then show ?case by (intro room_ok_goto) (simp_all add: registered_def)
next
  case (leave r c)
  then show ?case
    by (auto simp: room_ok_def relay_leave_def goto_def registered_def set_remove_client distinct_remove_client)
qed

lemma room_ok_reach: "relay_reach r \<Longrightarrow> room_ok r"
proof (induction rule: relay_reach.induct)
  case (start rnd)
  then show ?case by (simp add: room_ok_def newRoom_def registered_def)
next
  case (step r r')
  then show ?case by (blast intro: room_ok_step)
qed

text \<open>A locked room is frozen: its document and its clients never change again.\<close>

lemma locked_needs:
  "\<not> needs_lock data \<Longrightarrow> rm_doc (relay_receive c data r) = rm_doc r \<and> rm_clients (relay_receive c data r) = rm_clients r \<and>
    rm_locked (relay_receive c data r) = rm_locked r"
  by (auto simp: needs_lock_def relay_receive_def relay_message_def goto_def wedge_def split: outcome.splits prod.splits)

lemma locked_step:
  "relay_step r r' \<Longrightarrow> rm_locked r \<Longrightarrow> rm_locked r' \<and> rm_doc r' = rm_doc r \<and> rm_clients r' = rm_clients r"
  by (induction rule: relay_step.induct) (auto simp: goto_def relay_send_def locked_needs)

lemma locked_forever:
  "relay_step\<^sup>*\<^sup>* r r' \<Longrightarrow> rm_locked r \<Longrightarrow> rm_locked r' \<and> rm_doc r' = rm_doc r \<and> rm_clients r' = rm_clients r"
  by (induction rule: rtranclp_induct) (auto dest: locked_step)

section \<open>The client\<close>

text \<open>What \<open>conn.Read\<close> gives: a message, or an error when the connection is gone.\<close>

definition read_msg :: "byte list option \<Rightarrow> (u64 \<times> byte list) outcome" where
  "read_msg m =
    (case m of
       None \<Rightarrow> Err (ErrMsg ''connection'' [])
     | Some data \<Rightarrow>
         if length data = 0 then Err (ErrMsg ''empty message'' [])
         else
           obind (owrap ''read msg type'' [] (ReadVarUint data)) (\<lambda>(msgType, bs).
           obind (owrap ''read msg payload'' [] (ReadVarBytes bs)) (\<lambda>(payload, _).
           Ret (msgType, payload))))"

definition write_msg :: "bool \<Rightarrow> unit outcome" where
  "write_msg up = (if up then Ret () else Err (ErrMsg ''connection'' []))"

text \<open>
  \<open>syncHandshake\<close>: the frames sent, and how it ends. \<open>up1\<close> and \<open>up2\<close> say whether the two writes
  succeed, \<open>m1\<close> and \<open>m2\<close> what is read.
\<close>

definition handshake_tail :: "bool \<Rightarrow> byte list option \<Rightarrow> Doc \<Rightarrow> byte list list \<times> Doc outcome" where
  "handshake_tail up2 m2 d =
    ([], obind (owrap ''read server step2'' [] (read_msg m2)) (\<lambda>(msgType, payload).
         if msgType \<noteq> MessageYjsSyncStep2 then Err (ErrMsg ''expected step2 (1)'' [unat msgType])
         else if length payload > 0 then owrap ''apply server step2'' [] (ApplyUpdate payload remote_origin d)
         else Ret d))"

definition syncHandshake :: "bool \<Rightarrow> byte list option \<Rightarrow> bool \<Rightarrow> byte list option \<Rightarrow> Doc \<Rightarrow> byte list list \<times> Doc outcome" where
  "syncHandshake up1 m1 up2 m2 d =
    (let step1 = EncodeSyncStep1 (EncodeStateVector d) in
     case owrap ''send step1'' [] (write_msg up1) of
       Ret _ \<Rightarrow>
         (case obind (owrap ''read server step1'' [] (read_msg m1)) (\<lambda>(msgType, payload).
               if msgType \<noteq> MessageYjsSyncStep1 then Err (ErrMsg ''expected step1 (0)'' [unat msgType])
               else owrap ''encode state-as-update'' [] (EncodeStateAsUpdate d payload)) of
            Ret update \<Rightarrow>
              (case owrap ''send step2'' [] (write_msg up2) of
                 Ret _ \<Rightarrow> (step1 # EncodeSyncStep2 update # fst (handshake_tail up2 m2 d), snd (handshake_tail up2 m2 d))
               | Err e \<Rightarrow> ([step1], Err e)
               | Panic p \<Rightarrow> ([step1], Panic p)
               | Diverge \<Rightarrow> ([step1], Diverge))
          | Err e \<Rightarrow> ([step1], Err e)
          | Panic p \<Rightarrow> ([step1], Panic p)
          | Diverge \<Rightarrow> ([step1], Diverge))
     | Err e \<Rightarrow> ([], Err e)
     | Panic p \<Rightarrow> ([], Panic p)
     | Diverge \<Rightarrow> ([], Diverge))"

text \<open>
  The connection after the handshake: one message of \<open>receiveLoop\<close>, and the forwarder that
  \<open>Connect\<close> registers on the document.
\<close>

record ClientConn =
  cc_doc :: Doc
  cc_handlers :: "nat list"
  cc_calls :: "(nat \<times> byte list) list"
  cc_sent :: "byte list list"
  cc_done :: bool
  cc_unsubscribe :: "u64 option"

definition client_receive :: "byte list option \<Rightarrow> ClientConn \<Rightarrow> ClientConn outcome" where
  "client_receive m c =
    (case read_msg m of
       Err _ \<Rightarrow> Ret (c\<lparr>cc_done := True\<rparr>)
     | Panic p \<Rightarrow> Panic p
     | Diverge \<Rightarrow> Diverge
     | Ret (msgType, payload) \<Rightarrow>
         if msgType = MessageYjsUpdate then
           (case ApplyUpdate payload remote_origin (cc_doc c) of
              Ret d \<Rightarrow> Ret (c\<lparr>cc_doc := d, cc_calls := cc_calls c @ map (\<lambda>h. (h, payload)) (cc_handlers c)\<rparr>)
            | Err _ \<Rightarrow> Ret c
            | Panic p \<Rightarrow> Panic p
            | Diverge \<Rightarrow> Diverge)
         else if msgType = MessageYjsSyncStep1 then
           (case EncodeStateAsUpdate (cc_doc c) payload of
              Ret update \<Rightarrow> Ret (c\<lparr>cc_sent := cc_sent c @ [EncodeSyncStep2 update]\<rparr>)
            | Err _ \<Rightarrow> Ret c
            | Panic p \<Rightarrow> Panic p
            | Diverge \<Rightarrow> Diverge)
         else Ret c)"

definition forward_update :: "byte list \<Rightarrow> goany \<Rightarrow> ClientConn \<Rightarrow> ClientConn" where
  "forward_update update origin c =
    (if origin = remote_origin then c else c\<lparr>cc_sent := cc_sent c @ [EncodeUpdate update]\<rparr>)"

definition client_OnUpdate :: "nat \<Rightarrow> ClientConn \<Rightarrow> ClientConn" where
  "client_OnUpdate h c = c\<lparr>cc_handlers := cc_handlers c @ [h]\<rparr>"

lemma read_msg_frame:
  "bytes_fit (sm_Payload m) \<Longrightarrow> read_msg (Some (frame m)) = Ret (sm_Type m, sm_Payload m)"
proof -
  assume fit: "bytes_fit (sm_Payload m)"
  have "frame m \<noteq> []" using syncmsg.enc_nonempty [of m] fit by simp
  then show ?thesis
    using ReadVarBytes_write [OF fit, of "[]"] by (simp add: read_msg_def frame_def ReadVarUint_write)
qed

text \<open>The handshake of a client with a relay.\<close>

lemma handshake_relay:
  assumes "EncodeStateAsUpdate d (EncodeStateVector rd) = Ret u1"
    and "EncodeStateAsUpdate rd (EncodeStateVector d) = Ret u2"
    and "bytes_fit (EncodeStateVector rd)" "bytes_fit u2" "u2 \<noteq> []"
  shows "syncHandshake True (Some (EncodeSyncStep1 (EncodeStateVector rd))) True (Some (EncodeSyncStep2 u2)) d =
    ([EncodeSyncStep1 (EncodeStateVector d), EncodeSyncStep2 u1],
     owrap ''apply server step2'' [] (ApplyUpdate u2 remote_origin d))"
  using assms
    read_msg_frame [of "\<lparr>sm_Type = MessageYjsSyncStep1, sm_Payload = EncodeStateVector rd\<rparr>"]
    read_msg_frame [of "\<lparr>sm_Type = MessageYjsSyncStep2, sm_Payload = u2\<rparr>"]
  by (simp add: syncHandshake_def handshake_tail_def frames write_msg_def Let_def)

end
