(* ===== verification/Sessions.thy ===== *)
theory Sessions
  imports LocalEdits Transport
begin

text \<open>
  The life of a connection and of a relay: \<open>Connect\<close>, \<open>Send\<close> and \<open>Close\<close> of \<open>transport/ws.go\<close>
  around the handshake and the receive loop, and the table of rooms of \<open>transport/relay.go\<close>
  around the rooms. Dialling, the state of the socket and the order in which requests arrive
  are chosen by the environment.
\<close>

section \<open>A client's connection\<close>

text \<open>
  \<open>fwd\<close> stands for the closure that forwards local updates. When dialling or the handshake
  fails nothing is registered, and the document is the one the handshake left.
\<close>

definition Connect :: "bool \<Rightarrow> bool \<Rightarrow> byte list option \<Rightarrow> bool \<Rightarrow> byte list option \<Rightarrow> nat \<Rightarrow> Doc
    \<Rightarrow> byte list list \<times> ClientConn outcome" where
  "Connect dialed up1 m1 up2 m2 fwd d =
    (if \<not> dialed then ([], Err (ErrMsg ''ws dial'' []))
     else
       (let (sent, result) = syncHandshake up1 m1 up2 m2 d in
        (sent,
         obind (owrap ''sync handshake'' [] result) (\<lambda>d'.
         let (i, d'') = OnUpdate fwd d' in
         Ret \<lparr>cc_doc = d'', cc_handlers = [], cc_calls = [], cc_sent = sent, cc_done = False,
              cc_unsubscribe = Some i\<rparr>))))"

definition client_Send :: "bool \<Rightarrow> byte list \<Rightarrow> ClientConn \<Rightarrow> ClientConn outcome" where
  "client_Send up update c =
    obind (write_msg up) (\<lambda>_. Ret (c\<lparr>cc_sent := cc_sent c @ [EncodeUpdate update]\<rparr>))"

text \<open>\<open>Close\<close> waits for the receive loop, whose read fails once the context is cancelled.\<close>

definition client_Close :: "ClientConn \<Rightarrow> ClientConn" where
  "client_Close c =
    c\<lparr>cc_doc := (case cc_unsubscribe c of Some i \<Rightarrow> unsubscribe i (cc_doc c) | None \<Rightarrow> cc_doc c), cc_done := True\<rparr>"

section \<open>Handlers across a connection\<close>

text \<open>Identifiers of handlers are never given out twice.\<close>

definition handlers_ok :: "Doc \<Rightarrow> bool" where
  "handlers_ok d \<longleftrightarrow> (\<forall>h \<in> set (d_updateHandlers d). ih_id h < d_nextHandlerID d) \<and> unat (d_nextHandlerID d) + 1 < 2 ^ 64"

lemma remove_handler_fresh: "(\<forall>h \<in> set hs. ih_id h \<noteq> i) \<Longrightarrow> remove_handler i (hs @ [\<lparr>ih_id = i, ih_fn = f\<rparr>]) = hs"
  by (induction hs) auto

lemma OnUpdate_unsubscribe:
  assumes "handlers_ok d" "OnUpdate f d = (i, d1)" "d_updateHandlers d2 = d_updateHandlers d1"
  shows "d_updateHandlers (unsubscribe i d2) = d_updateHandlers d"
  using assms remove_handler_fresh [of "d_updateHandlers d" "d_nextHandlerID d" f]
  by (fastforce simp: handlers_ok_def OnUpdate_def Let_def unsubscribe_def)

text \<open>What of a document no remote update touches: its handlers and its client.\<close>

definition same_handlers :: "Doc \<Rightarrow> Doc \<Rightarrow> bool" where
  "same_handlers d d' \<longleftrightarrow> d_updateHandlers d' = d_updateHandlers d \<and> d_nextHandlerID d' = d_nextHandlerID d \<and>
    d_clientID d' = d_clientID d"

lemma same_handlers_refl [simp]: "same_handlers d d"
  by (simp add: same_handlers_def)

lemma same_handlers_trans: "same_handlers d d1 \<Longrightarrow> same_handlers d1 d2 \<Longrightarrow> same_handlers d d2"
  by (simp add: same_handlers_def)

lemma same_handlers_steps [simp]:
  "same_handlers d (upd_item a f d') = same_handlers d d'" "same_handlers d (store_add a d') = same_handlers d d'"
  "same_handlers d (share_put n st d') = same_handlers d d'" "same_handlers d (snd (alloc it d')) = same_handlers d d'"
  "same_handlers d (setFirstItem p a sub d') = same_handlers d d'"
  "same_handlers d (tx_addDeletedItem t a d') = same_handlers d d'"
  "same_handlers d (insertIntoStore a d') = same_handlers d d'"
  "same_handlers d (fireObservers t d') = same_handlers d d'"
  by (auto simp: same_handlers_def upd_item_def store_add_def share_put_def alloc_def setFirstItem_def
      tx_addDeletedItem_def insertIntoStore_def fireObservers_def Let_def split: option.splits SharedType.splits)

lemma place_item_handlers: "place_item a d = Ret d' \<Longrightarrow> same_handlers d d'"
  by (auto simp: place_item_def link_item_def Let_def split: option.splits prod.splits)

lemma integrateItem_handlers:
  assumes "integrateItem it d = Ret d'"
  shows "same_handlers d d'"
proof (cases "doc_getItem d (it_ID it)")
  case None
  let ?a = "length (d_heap d)" and ?d2 = "store_add (length (d_heap d)) (snd (alloc it d))"
  define d3 where "d3 = (if isDeleted (d_ds ?d2) (it_ID it) then upd_item ?a (\<lambda>i. i\<lparr>it_Deleted := True\<rparr>) ?d2 else ?d2)"
  have "same_handlers d (inherit_parent ?a (resolve_by_name ?a d3))"
    by (auto simp: d3_def inherit_parent_def resolve_by_name_def Let_def split: option.split)
  moreover have "place_item ?a (inherit_parent ?a (resolve_by_name ?a d3)) = Ret d'"
    using assms None by (simp add: integrateItem_def d3_def alloc_def Let_def cong: if_cong split del: if_split)
  ultimately show ?thesis using place_item_handlers same_handlers_trans by blast
qed (use assms in \<open>simp add: integrateItem_known\<close>)

lemma splitAtClock_handlers: "splitAtClock c s d = Ret d' \<Longrightarrow> same_handlers d d'"
  by (auto simp: splitAtClock_def split_off_def alloc_def Let_def outcome_simps same_handlers_def upd_item_def
      insertIntoStore_def split: option.splits if_splits)

lemma mark_range_handlers: "same_handlers d (mark_range t k e as d)"
proof (induction t k e as d rule: mark_range.induct)
  case (2 t k e a as d)
  let ?d1 = "tx_addDeletedItem t a (upd_item a (\<lambda>i. i\<lparr>it_Deleted := True\<rparr>) d)"
  have "same_handlers d ?d1" by simp
  then show ?case using 2 same_handlers_trans [of d ?d1] by (simp add: Let_def)
qed simp

lemma applyDeleteRange_handlers: "applyDeleteRange t c k n d = Ret d' \<Longrightarrow> same_handlers d d'"
  by (auto simp: applyDeleteRange_def Let_def outcome_simps dest!: splitAtClock_handlers
      intro: same_handlers_trans mark_range_handlers)

lemma ofold_handlers:
  assumes "\<And>x d d'. f x d = Ret d' \<Longrightarrow> same_handlers d d'"
  shows "ofold f xs d = Ret d' \<Longrightarrow> same_handlers d d'"
proof (induction xs arbitrary: d)
  case (Cons x xs)
  then obtain d1 where "f x d = Ret d1" "ofold f xs d1 = Ret d'" by (auto simp: outcome_simps)
  then show ?case using assms Cons.IH same_handlers_trans by blast
qed simp

lemma ApplyUpdate_handlers:
  assumes "ApplyUpdate bs origin d = Ret d'"
  shows "same_handlers d d'"
proof -
  obtain items ds d3 d4 where run: "ofold integrateItem items ((snd (begin_tx origin d))\<lparr>d_ds := accumulate_ds ds (d_ds (snd (begin_tx origin d)))\<rparr>) = Ret d3"
    "apply_ds (fst (begin_tx origin d)) (d_ds d3) d3 = Ret d4" "d' = fireObservers (fst (begin_tx origin d)) (d4\<lparr>d_currentTx := None\<rparr>)"
    using assms by (auto simp: ApplyUpdate_def apply_decoded_def outcome_simps Let_def split_beta)
  have "same_handlers d d3"
    using ofold_handlers [OF integrateItem_handlers run(1)] by (simp add: same_handlers_def begin_tx_def)
  moreover have "same_handlers d3 d4"
    using run(2) unfolding apply_ds_def
    by (rule ofold_handlers [rotated]) (auto intro: ofold_handlers applyDeleteRange_handlers)
  moreover have "same_handlers d4 d'" by (simp add: run(3)) (simp add: same_handlers_def)
  ultimately show ?thesis using same_handlers_trans by blast
qed

text \<open>The messages of a connection, one after the other.\<close>

lemma client_receive_handlers:
  assumes "client_receive m c = Ret c'"
  shows "same_handlers (cc_doc c) (cc_doc c')" "cc_unsubscribe c' = cc_unsubscribe c"
  using assms ApplyUpdate_handlers [of _ remote_origin "cc_doc c"]
  by (auto simp: client_receive_def split: outcome.splits if_splits)

lemma client_receives_handlers:
  "ofold client_receive ms c = Ret c' \<Longrightarrow> same_handlers (cc_doc c) (cc_doc c') \<and> cc_unsubscribe c' = cc_unsubscribe c"
  by (induction ms arbitrary: c) (auto simp: outcome_simps dest: client_receive_handlers intro: same_handlers_trans)

lemma syncHandshake_handlers: "snd (syncHandshake up1 m1 up2 m2 d) = Ret d' \<Longrightarrow> same_handlers d d'"
  by (auto simp: syncHandshake_def handshake_tail_def Let_def outcome_simps split: outcome.splits if_splits
      dest: ApplyUpdate_handlers)

text \<open>A connection that comes and goes takes its handler with it.\<close>

lemma Connect_Close:
  assumes ok: "handlers_ok d" and conn: "Connect dialed up1 m1 up2 m2 fwd d = (frames_sent, Ret c)"
    and run: "ofold client_receive ms c = Ret c'"
  shows "d_updateHandlers (cc_doc (client_Close c')) = d_updateHandlers d \<and> cc_done (client_Close c')"
proof -
  obtain d' where d': "snd (syncHandshake up1 m1 up2 m2 d) = Ret d'" "cc_doc c = snd (OnUpdate fwd d')"
    "cc_unsubscribe c = Some (fst (OnUpdate fwd d'))"
    using conn by (auto simp: Connect_def Let_def outcome_simps split_beta split: if_splits)
  have h: "same_handlers d d'" by (rule syncHandshake_handlers [OF d'(1)])
  then have "handlers_ok d'" using ok by (simp add: handlers_ok_def same_handlers_def)
  moreover have c': "same_handlers (snd (OnUpdate fwd d')) (cc_doc c')" "cc_unsubscribe c' = Some (fst (OnUpdate fwd d'))"
    using client_receives_handlers [OF run] d'(2,3) by simp_all
  ultimately have "d_updateHandlers (unsubscribe (fst (OnUpdate fwd d')) (cc_doc c')) = d_updateHandlers d'"
    by (intro OnUpdate_unsubscribe [OF _ prod.collapse [symmetric]]) (simp_all add: same_handlers_def)
  then show ?thesis using h c'(2) by (simp add: client_Close_def same_handlers_def)
qed

section \<open>The table of rooms\<close>

text \<open>
  \<open>rl_shutdown\<close> says whether the context that every connection's context derives from is cancelled;
  a relay made with a parent's context starts as that one is.
\<close>

record Relay =
  rl_rooms :: "(gostring, Room) gomap"
  rl_shutdown :: bool

definition NewRelay :: Relay where
  "NewRelay = \<lparr>rl_rooms = [], rl_shutdown = False\<rparr>"

definition NewRelayWithContext :: "bool \<Rightarrow> Relay" where
  "NewRelayWithContext cancelled = \<lparr>rl_rooms = [], rl_shutdown = cancelled\<rparr>"

definition Shutdown :: "Relay \<Rightarrow> Relay" where
  "Shutdown s = s\<lparr>rl_shutdown := True\<rparr>"

text \<open>\<open>rnd\<close> is the randomness that a new room's document draws.\<close>

definition getOrCreateRoom :: "(byte \<times> byte \<times> byte \<times> byte) option \<Rightarrow> gostring \<Rightarrow> Relay \<Rightarrow> Room \<times> Relay" where
  "getOrCreateRoom rnd roomName s =
    (case gm_get (rl_rooms s) roomName of
       Some r \<Rightarrow> (r, s)
     | None \<Rightarrow> (newRoom rnd, s\<lparr>rl_rooms := gm_set roomName (newRoom rnd) (rl_rooms s)\<rparr>))"

text \<open>The room that a request's path names: without its leading slash.\<close>

definition room_name :: "gostring \<Rightarrow> gostring" where
  "room_name path = (if length path > 0 \<and> path ! 0 = 0x2f then tl path else path)"

text \<open>
  What a connection does once its context is cancelled: \<open>Read\<close> and \<open>Write\<close> fail, so it reads no
  message, its frames are lost, and it hangs up; but a message that \<open>Read\<close> returned before is still
  handled, under the mutex as ever.
\<close>

inductive cancelled_step :: "Room \<Rightarrow> Room \<Rightarrow> bool" where
  accept: "rm_conns r c = None \<Longrightarrow> \<not> rm_locked r \<Longrightarrow> cancelled_step r (relay_accept c r)"
| greet_lost: "rm_conns r c = Some (Greeting f) \<Longrightarrow> cancelled_step r (goto c Greeted r)"
| register: "rm_conns r c = Some Greeted \<Longrightarrow> \<not> rm_locked r \<Longrightarrow> cancelled_step r (relay_register c r)"
| handle: "rm_conns r c = Some (Handling data) \<Longrightarrow> needs_lock data \<longrightarrow> \<not> rm_locked r \<Longrightarrow>
    cancelled_step r (relay_receive c data r)"
| lost: "rm_conns r c = Some (Sending (x # todo)) \<Longrightarrow> cancelled_step r (goto c (Sending todo) r)"
| sent: "rm_conns r c = Some (Sending []) \<Longrightarrow> cancelled_step r (goto c Serving r)"
| hangup: "rm_conns r c = Some Serving \<Longrightarrow> cancelled_step r (goto c Closing r)"
| leave: "rm_conns r c = Some Closing \<Longrightarrow> \<not> rm_locked r \<Longrightarrow> cancelled_step r (relay_leave c r)"

lemma cancelled_relay_step: "cancelled_step r r' \<Longrightarrow> relay_step r r'"
  by (induction rule: cancelled_step.induct) (auto intro: relay_step.intros)

text \<open>A request arrives, a connection of some room takes a step, or the relay is shut down.\<close>

inductive serve_step :: "Relay \<Rightarrow> Relay \<Rightarrow> bool" where
  request: "serve_step s (snd (getOrCreateRoom rnd (room_name path) s))"
| inside: "gm_get (rl_rooms s) name = Some r \<Longrightarrow> \<not> rl_shutdown s \<Longrightarrow> relay_step r r' \<Longrightarrow>
    serve_step s (s\<lparr>rl_rooms := gm_set name r' (rl_rooms s)\<rparr>)"
| winding_down: "gm_get (rl_rooms s) name = Some r \<Longrightarrow> rl_shutdown s \<Longrightarrow> cancelled_step r r' \<Longrightarrow>
    serve_step s (s\<lparr>rl_rooms := gm_set name r' (rl_rooms s)\<rparr>)"
| shut: "serve_step s (Shutdown s)"

inductive serve_reach :: "Relay \<Rightarrow> bool" where
  start: "serve_reach NewRelay"
| start_with: "serve_reach (NewRelayWithContext cancelled)"
| step: "serve_reach s \<Longrightarrow> serve_step s s' \<Longrightarrow> serve_reach s'"

lemma serve_rooms: "serve_reach s \<Longrightarrow> gm_get (rl_rooms s) name = Some r \<Longrightarrow> relay_reach r"
proof (induction arbitrary: name r rule: serve_reach.induct)
  case (step s s')
  from step.hyps(2) show ?case
  proof cases
    case (request rnd path)
    then show ?thesis
      using step.IH step.prems relay_reach.start
      by (auto simp: getOrCreateRoom_def update_conv' split: option.splits if_splits)
  next
    case (inside n r0 r1)
    then have "relay_reach r1" using relay_reach.step step.IH by blast
    then show ?thesis using step.IH step.prems inside(1) by (auto simp: update_conv' split: if_splits)
  next
    case (winding_down n r0 r1)
    then have "relay_reach r1" using relay_reach.step step.IH cancelled_relay_step by blast
    then show ?thesis using step.IH step.prems winding_down(1) by (auto simp: update_conv' split: if_splits)
  next
    case shut
    then show ?thesis using step.IH step.prems by (simp add: Shutdown_def)
  qed
qed (simp_all add: NewRelay_def NewRelayWithContext_def)

lemma serve_step_local:
  assumes "serve_step s s'"
  shows "\<exists>n. \<forall>m. m \<noteq> n \<longrightarrow> gm_get (rl_rooms s') m = gm_get (rl_rooms s) m"
    and "gm_get (rl_rooms s) m \<noteq> None \<Longrightarrow> gm_get (rl_rooms s') m \<noteq> None"
  using assms
  by (cases; auto simp: getOrCreateRoom_def update_conv' Shutdown_def split: option.split)+

section \<open>Shutting down\<close>

text \<open>What handling a message does to the room: where its connection goes, and the document.\<close>

definition taken :: "byte list \<Rightarrow> Doc \<Rightarrow> Doc" where
  "taken data d =
    (case parse_frame data of
       Ret (msgType, payload) \<Rightarrow>
         if msgType = MessageYjsUpdate \<or> msgType = MessageYjsSyncStep2 \<and> length payload > 0 then
           (case ApplyUpdate payload relay_origin d of Ret d' \<Rightarrow> d' | _ \<Rightarrow> d)
         else d
     | _ \<Rightarrow> d)"

lemma relay_receive_doc: "rm_doc (relay_receive c data r) = taken data (rm_doc r)"
  by (auto simp: relay_receive_def relay_message_def taken_def room_apply_def wedge_def goto_def MessageYjsUpdate_def
      MessageYjsSyncStep1_def MessageYjsSyncStep2_def split: outcome.split option.split)

definition settled :: "Room \<Rightarrow> conn_state \<Rightarrow> bool" where
  "settled r st \<longleftrightarrow> (case st of
     Serving \<Rightarrow> True | Closing \<Rightarrow> True | Sending todo \<Rightarrow> length todo \<le> Suc (length (rm_clients r)) | _ \<Rightarrow> False)"

lemma relay_message_conns:
  "\<exists>st. rm_conns (relay_message c t p r) = (rm_conns r)(c \<mapsto> st) \<and> settled r st \<and> rm_sent (relay_message c t p r) = rm_sent r"
proof -
  define ends where "ends r' \<longleftrightarrow> (\<exists>st. rm_conns r' = (rm_conns r)(c \<mapsto> st) \<and> settled r st \<and> rm_sent r' = rm_sent r)" for r' :: Room
  have stays: "ends (goto c Serving r)" "ends (wedge c r)" "ends (goto c (Sending [s]) r)" for s
    by (auto simp: ends_def settled_def wedge_def)
  have applied: "ends (goto c Serving r')"
    "ends (goto c (Sending (map (\<lambda>o'. (o', EncodeUpdate q)) (filter (\<lambda>x. x \<noteq> c) (rm_clients r')))) r')"
    if "room_apply q r = Some r'" for q r'
    using room_apply_fields [OF that] le_SucI [OF length_filter_le [of _ "rm_clients r"]]
    by (auto simp: ends_def settled_def)
  have "ends (relay_message c t p r)"
    by (auto simp: relay_message_def stays applied split: outcome.split option.split)
  then show ?thesis by (simp add: ends_def)
qed

lemma relay_receive_conns:
  "\<exists>st. rm_conns (relay_receive c data r) = (rm_conns r)(c \<mapsto> st) \<and> settled r st \<and> rm_sent (relay_receive c data r) = rm_sent r"
proof (cases "\<exists>x. parse_frame data = Ret x")
  case True
  then show ?thesis using relay_message_conns by (auto simp: relay_receive_def)
next
  case False
  then show ?thesis by (cases "parse_frame data") (auto simp: relay_receive_def settled_def)
qed

text \<open>
  How many steps a connection still takes when its context is cancelled, in a room that knows \<open>n\<close>
  connections: a message that it holds may have to be sent on to all of them. Every step but the
  arrival of a new connection takes one connection one step further.
\<close>

fun steps_left :: "nat \<Rightarrow> conn_state option \<Rightarrow> nat" where
  "steps_left n (Some (Greeting _)) = n + 7"
| "steps_left n (Some Greeted) = n + 6"
| "steps_left n (Some (Handling _)) = n + 5"
| "steps_left n (Some (Sending todo)) = length todo + 3"
| "steps_left n (Some Serving) = 2"
| "steps_left n (Some Closing) = 1"
| "steps_left n _ = 0"

lemma settled_steps:
  "settled r st \<Longrightarrow> length (rm_clients r) \<le> n \<Longrightarrow> (\<forall>data. st \<noteq> Handling data) \<and> steps_left n (Some st) < n + 5"
  by (auto simp: settled_def split: conn_state.splits)

definition held :: "Room \<Rightarrow> nat \<Rightarrow> byte list option" where
  "held r c = (case rm_conns r c of Some (Handling data) \<Rightarrow> Some data | _ \<Rightarrow> None)"

lemma held_Some: "held r c = Some data \<longleftrightarrow> rm_conns r c = Some (Handling data)"
  by (auto simp: held_def split: option.split conn_state.split)

lemma cancelled_step_progress:
  assumes "cancelled_step r r'" "length (rm_clients r) \<le> n"
  shows "rm_sent r' = rm_sent r \<and> (\<exists>c st. rm_conns r' = (rm_conns r)(c \<mapsto> st) \<and> (\<forall>data. st \<noteq> Handling data) \<and>
    (rm_conns r c = None \<or> steps_left n (Some st) < steps_left n (rm_conns r c)) \<and>
    (rm_doc r' = rm_doc r \<and> rm_locked r' = rm_locked r \<or>
     (\<exists>data. held r c = Some data \<and> rm_doc r' = taken data (rm_doc r) \<and> r' = relay_receive c data r)))"
  using assms(1)
proof cases
  case (handle c data)
  obtain st where "rm_conns r' = (rm_conns r)(c \<mapsto> st)" "settled r st" "rm_sent r' = rm_sent r"
    using relay_receive_conns handle(1) by blast
  then show ?thesis
    using relay_receive_doc [of c data r] settled_steps [of r st, OF _ assms(2)] handle
    by (intro conjI exI [of _ c] exI [of _ st]) (auto simp: held_Some)
qed (fastforce simp: relay_accept_def relay_register_def relay_leave_def)+

lemma cancelled_step_enabled:
  assumes "\<not> rm_locked r" "rm_conns r c = Some st" "st \<noteq> Closed"
  shows "\<exists>r' st'. cancelled_step r r' \<and> rm_conns r' = (rm_conns r)(c \<mapsto> st')"
proof (cases st)
  case (Greeting f)
  then show ?thesis using cancelled_step.greet_lost [of r c f] assms(2) by fastforce
next
  case Greeted
  then show ?thesis using cancelled_step.register [of r c] assms by (fastforce simp: relay_register_def)
next
  case Serving
  then show ?thesis using cancelled_step.hangup [of r c] assms(2) by fastforce
next
  case (Handling data)
  then show ?thesis using cancelled_step.handle [of r c data] relay_receive_conns [of c data r] assms(1,2) by blast
next
  case (Sending todo)
  then show ?thesis
    using cancelled_step.lost [of r c] cancelled_step.sent [of r c] assms(2) by (cases todo) fastforce+
next
  case Closing
  then show ?thesis using cancelled_step.leave [of r c] assms by (fastforce simp: relay_leave_def)
qed (use assms(3) in simp)

text \<open>The steps of the connections that are there, and how many they have left together.\<close>

definition quiet_step :: "Room \<Rightarrow> Room \<Rightarrow> bool" where
  "quiet_step r r' \<longleftrightarrow> cancelled_step r r' \<and> dom (rm_conns r') = dom (rm_conns r)"

definition owed :: "Room \<Rightarrow> nat" where
  "owed r = (\<Sum>c \<in> dom (rm_conns r). steps_left (card (dom (rm_conns r))) (rm_conns r c))"

lemma relay_step_conns: "relay_step r r' \<Longrightarrow> \<exists>c st. rm_conns r' = (rm_conns r)(c \<mapsto> st)"
proof (induction rule: relay_step.induct)
  case (handle r c data)
  then show ?case using relay_receive_conns [of c data r] by blast
qed (auto simp: relay_accept_def relay_register_def relay_leave_def relay_send_def)

lemma finite_conns: "relay_reach r \<Longrightarrow> finite (dom (rm_conns r))"
proof (induction rule: relay_reach.induct)
  case (step r r')
  then obtain c st where "rm_conns r' = (rm_conns r)(c \<mapsto> st)" using relay_step_conns by blast
  then show ?case using step.IH by (simp only: dom_fun_upd) simp
qed (simp add: newRoom_def)

lemma clients_conns:
  assumes "relay_reach r"
  shows "length (rm_clients r) \<le> card (dom (rm_conns r))"
proof -
  have "distinct (rm_clients r)" "set (rm_clients r) \<subseteq> dom (rm_conns r)"
    using room_ok_reach [OF assms] by (auto simp: room_ok_def registered_def split: option.splits)
  then show ?thesis using card_mono [OF finite_conns [OF assms]] by (metis distinct_card)
qed

lemma quiet_step_owed:
  assumes "relay_reach r" "quiet_step r r'"
  shows "owed r' < owed r"
proof -
  have step: "cancelled_step r r'" and dom: "dom (rm_conns r') = dom (rm_conns r)" using assms(2) by (simp_all add: quiet_step_def)
  let ?left = "steps_left (card (dom (rm_conns r)))"
  obtain c st where c: "rm_conns r' = (rm_conns r)(c \<mapsto> st)" "rm_conns r c = None \<or> ?left (Some st) < ?left (rm_conns r c)"
    using cancelled_step_progress [OF step clients_conns [OF assms(1)]] by blast
  have "c \<in> dom (rm_conns r')" by (simp add: c(1))
  then have c_in: "c \<in> dom (rm_conns r)" by (simp only: dom)
  then have less: "?left (Some st) < ?left (rm_conns r c)" using c(2) by auto
  have "(\<Sum>x \<in> dom (rm_conns r). ?left (rm_conns r' x)) < (\<Sum>x \<in> dom (rm_conns r). ?left (rm_conns r x))"
    by (rule sum_strict_mono_ex1) (use finite_conns [OF assms(1)] c(1) c_in less in \<open>auto intro!: bexI [of _ c]\<close>)
  then show ?thesis by (simp add: owed_def dom)
qed

text \<open>
  A run: the messages that are handled in it are those that some connections held at its start, each
  at most once.
\<close>

definition handled :: "Room \<Rightarrow> nat list \<Rightarrow> Room \<Rightarrow> bool" where
  "handled r cs r' \<longleftrightarrow> distinct cs \<and> (\<forall>c \<in> set cs. held r c \<noteq> None \<and> held r' c = None) \<and>
    (\<forall>c data. held r' c = Some data \<longrightarrow> held r c = Some data) \<and>
    rm_doc r' = fold (\<lambda>c. taken (the (held r c))) cs (rm_doc r)"

lemma handled_step:
  assumes "handled r cs r1" "cancelled_step r1 r'"
  shows "\<exists>cs'. handled r cs' r'"
proof -
  obtain c st where c: "rm_conns r' = (rm_conns r1)(c \<mapsto> st)" "\<forall>data. st \<noteq> Handling data"
    "rm_doc r' = rm_doc r1 \<or> (\<exists>data. held r1 c = Some data \<and> rm_doc r' = taken data (rm_doc r1))"
    using cancelled_step_progress [OF assms(2) order_refl] by blast
  have h: "held r' x = (if x = c then None else held r1 x)" for x
    using c(1,2) by (auto simp: held_def split: conn_state.split)
  from c(3) show ?thesis
  proof (elim disjE exE conjE)
    assume "rm_doc r' = rm_doc r1"
    then show ?thesis using assms(1) h by (intro exI [of _ cs]) (auto simp: handled_def)
  next
    fix data assume data: "held r1 c = Some data" "rm_doc r' = taken data (rm_doc r1)"
    then show ?thesis using assms(1) h by (intro exI [of _ "cs @ [c]"]) (auto simp: handled_def)
  qed
qed

lemma quiet_run:
  assumes "(quiet_step ^^ n) r r'" "relay_reach r"
  shows "relay_reach r' \<and> rm_sent r' = rm_sent r \<and> n + owed r' \<le> owed r \<and> (\<exists>cs. handled r cs r')"
  using assms(1)
proof (induction n arbitrary: r')
  case 0
  then show ?case using assms(2) by (auto simp: handled_def intro: exI [of _ "[]"])
next
  case (Suc n)
  then obtain r1 where r1: "(quiet_step ^^ n) r r1" "quiet_step r1 r'" by auto
  note IH = Suc.IH [OF r1(1)]
  have step: "cancelled_step r1 r'" using r1(2) by (simp add: quiet_step_def)
  have "relay_reach r'" using relay_reach.step IH cancelled_relay_step [OF step] by blast
  moreover have "owed r' < owed r1" using quiet_step_owed IH r1(2) by blast
  ultimately show ?case using IH cancelled_step_progress [OF step order_refl] handled_step [OF _ step] by force
qed

text \<open>A room in which no quiet step is left has no clients.\<close>

lemma quiet_end:
  assumes "relay_reach r" "\<not> rm_locked r" "\<nexists>r'. quiet_step r r'"
  shows "rm_clients r = []"
proof (rule ccontr)
  assume "rm_clients r \<noteq> []"
  then obtain c where "c \<in> set (rm_clients r)" by (cases "rm_clients r") auto
  then have "registered (rm_conns r c)" using room_ok_reach [OF assms(1)] by (simp add: room_ok_def)
  then obtain st where st: "rm_conns r c = Some st" "st \<noteq> Closed"
    by (auto simp: registered_def split: option.splits conn_state.splits)
  obtain r' st' where "cancelled_step r r'" "rm_conns r' = (rm_conns r)(c \<mapsto> st')"
    using cancelled_step_enabled [OF assms(2) st] by blast
  moreover have "dom ((rm_conns r)(c \<mapsto> st')) = dom (rm_conns r)" using st(1) by auto
  ultimately have "quiet_step r r'" by (simp add: quiet_step_def)
  then show False using assms(3) by blast
qed

end
