(* ===== verification/Awareness.thy ===== *)
theory Awareness
  imports UpdateRoundtrip
begin

text \<open>
  \<open>awareness.go\<close>: the ephemeral states of the peers. A state is a
  \<open>map[string]interface{}\<close>, nil or not. The document is used for its client identifier only.

  \<open>encoding/json\<close> is a parameter: \<open>marshal\<close> gives the bytes of a state or fails, \<open>unmarshal\<close>
  gives the state of some bytes or nil (malformed input and a JSON null). What is assumed of
  them, \<open>json_roundtrip\<close>, is a hypothesis of the theorems that need it. An update that fails in
  the middle has already changed the states, so \<open>ApplyUpdate\<close> returns the new state next to
  how it ended.
\<close>

section \<open>State\<close>

type_synonym aw_state = "(gostring, goany) gomap"

record awarenessState =
  as_state :: "aw_state option"
  as_clock :: u64

record aw_change =
  ch_added :: "u64 list"
  ch_updated :: "u64 list"
  ch_removed :: "u64 list"

datatype aw_event = AwarenessFired nat aw_change goany

record Awareness =
  aw_clientID :: u64
  aw_states :: "(u64, awarenessState) gomap"
  aw_handlers :: "nat list"
  aw_events :: "aw_event list"

definition NewAwareness :: "u64 \<Rightarrow> Awareness" where
  "NewAwareness clientID = \<lparr>aw_clientID = clientID,
     aw_states = [(clientID, \<lparr>as_state = Some [], as_clock = 0\<rparr>)], aw_handlers = [], aw_events = []\<rparr>"

definition no_change :: aw_change where
  "no_change = \<lparr>ch_added = [], ch_updated = [], ch_removed = []\<rparr>"

definition call_change_handlers :: "aw_change \<Rightarrow> goany \<Rightarrow> Awareness \<Rightarrow> Awareness" where
  "call_change_handlers ch origin A =
    A\<lparr>aw_events := aw_events A @ map (\<lambda>h. AwarenessFired h ch origin) (aw_handlers A)\<rparr>"

definition local_origin :: goany where
  "local_origin = GString (gostr ''local'')"

section \<open>The local state\<close>

definition SetLocalState :: "aw_state option \<Rightarrow> Awareness \<Rightarrow> Awareness" where
  "SetLocalState state A =
    (let clientID = aw_clientID A;
         cur = gm_get (aw_states A) clientID;
         clock = (case cur of Some s \<Rightarrow> as_clock s + 1 | None \<Rightarrow> 0) in
     case state of
       None \<Rightarrow>
         call_change_handlers (no_change\<lparr>ch_removed := [clientID]\<rparr>) local_origin
           (A\<lparr>aw_states := gm_del clientID (aw_states A)\<rparr>)
     | Some st \<Rightarrow>
         (let A1 = A\<lparr>aw_states := gm_set clientID \<lparr>as_state = Some st, as_clock = clock\<rparr> (aw_states A)\<rparr>;
              fresh = (case cur of None \<Rightarrow> True | Some s \<Rightarrow> as_state s = None) in
          call_change_handlers
            (if fresh then no_change\<lparr>ch_added := [clientID]\<rparr> else no_change\<lparr>ch_updated := [clientID]\<rparr>)
            local_origin A1))"

definition Destroy :: "Awareness \<Rightarrow> Awareness" where
  "Destroy A = SetLocalState None A"

definition SetLocalStateField :: "gostring \<Rightarrow> goany \<Rightarrow> Awareness \<Rightarrow> Awareness" where
  "SetLocalStateField field v A =
    (let cur = (case gm_get (aw_states A) (aw_clientID A) of
                  Some s \<Rightarrow> (case as_state s of Some st \<Rightarrow> st | None \<Rightarrow> []) | None \<Rightarrow> []);
         state = gm_set field v (fold (\<lambda>(k, x). gm_set k x) cur []) in
     SetLocalState (Some state) A)"

definition GetLocalState :: "Awareness \<Rightarrow> aw_state option" where
  "GetLocalState A = (case gm_get (aw_states A) (aw_clientID A) of None \<Rightarrow> None | Some s \<Rightarrow> as_state s)"

definition GetStates :: "Awareness \<Rightarrow> (u64, aw_state option) gomap" where
  "GetStates A = map (\<lambda>(c, s). (c, as_state s)) (aw_states A)"

definition OnChange :: "nat \<Rightarrow> Awareness \<Rightarrow> Awareness" where
  "OnChange h A = A\<lparr>aw_handlers := aw_handlers A @ [h]\<rparr>"

section \<open>Encoding\<close>

definition state_json :: "(aw_state \<Rightarrow> gostring option) \<Rightarrow> aw_state option \<Rightarrow> gostring" where
  "state_json marshal st =
    (case st of
       None \<Rightarrow> gostr ''null''
     | Some s \<Rightarrow> (case marshal s of Some js \<Rightarrow> js | None \<Rightarrow> gostr ''null''))"

definition encode_state :: "(aw_state \<Rightarrow> gostring option) \<Rightarrow> Awareness \<Rightarrow> u64 \<Rightarrow> byte list" where
  "encode_state marshal A clientID =
    (case gm_get (aw_states A) clientID of
       Some s \<Rightarrow> WriteVarUint clientID @ WriteVarUint (as_clock s) @ WriteVarString (state_json marshal (as_state s))
     | None \<Rightarrow> [])"

definition aw_EncodeUpdate :: "(aw_state \<Rightarrow> gostring option) \<Rightarrow> u64 list \<Rightarrow> Awareness \<Rightarrow> byte list" where
  "aw_EncodeUpdate marshal clientIDs A =
    (let valid = filter (\<lambda>c. gm_get (aw_states A) c \<noteq> None) clientIDs in
     WriteVarUint (of_nat (length valid)) @ concat (map (encode_state marshal A) valid))"

definition EncodeAwarenessUpdate :: "(aw_state \<Rightarrow> gostring option) \<Rightarrow> Awareness \<Rightarrow> byte list" where
  "EncodeAwarenessUpdate marshal A = aw_EncodeUpdate marshal (map fst (aw_states A)) A"

section \<open>Applying a remote update\<close>

definition apply_entry :: "u64 \<Rightarrow> u64 \<Rightarrow> aw_state option \<Rightarrow> Awareness \<times> aw_change \<Rightarrow> Awareness \<times> aw_change" where
  "apply_entry clientID clock state s =
    (let (A, ch) = s;
         cur = gm_get (aw_states A) clientID;
         currClock = (case cur of Some c \<Rightarrow> as_clock c | None \<Rightarrow> 0) in
     if clock > currClock \<or> clock = currClock \<and> state = None \<and> cur \<noteq> None then
       if clientID = aw_clientID A \<and> (case cur of Some c \<Rightarrow> as_state c \<noteq> None | None \<Rightarrow> False) then (A, ch)
       else if state = None then
         (A\<lparr>aw_states := gm_del clientID (aw_states A)\<rparr>,
          if cur \<noteq> None then ch\<lparr>ch_removed := ch_removed ch @ [clientID]\<rparr> else ch)
       else
         (A\<lparr>aw_states := gm_set clientID \<lparr>as_state = state, as_clock = clock\<rparr> (aw_states A)\<rparr>,
          if cur = None then ch\<lparr>ch_added := ch_added ch @ [clientID]\<rparr>
          else ch\<lparr>ch_updated := ch_updated ch @ [clientID]\<rparr>)
     else (A, ch))"

definition parse_state :: "(gostring \<Rightarrow> aw_state option) \<Rightarrow> gostring \<Rightarrow> aw_state option" where
  "parse_state unmarshal js = (if js \<noteq> gostr ''null'' \<and> js \<noteq> [] then unmarshal js else None)"

definition read_entry :: "(gostring \<Rightarrow> aw_state option) \<Rightarrow> nat \<Rightarrow> byte list
    \<Rightarrow> ((u64 \<times> u64 \<times> aw_state option) \<times> byte list) outcome" where
  "read_entry unmarshal i bs =
    obind (owrap ''awareness clientID'' [i] (ReadVarUint bs)) (\<lambda>(clientID, bs1).
    obind (owrap ''awareness clock'' [i] (ReadVarUint bs1)) (\<lambda>(clock, bs2).
    obind (owrap ''awareness state'' [i] (ReadVarString bs2)) (\<lambda>(js, bs3).
    Ret ((clientID, clock, parse_state unmarshal js), bs3))))"

fun apply_entries :: "(gostring \<Rightarrow> aw_state option) \<Rightarrow> nat \<Rightarrow> nat \<Rightarrow> byte list \<Rightarrow> Awareness \<times> aw_change
    \<Rightarrow> (Awareness \<times> aw_change) \<times> unit outcome" where
  "apply_entries unmarshal i 0 bs s = (s, Ret ())"
| "apply_entries unmarshal i (Suc n) bs s =
    (case read_entry unmarshal i bs of
       Ret ((clientID, clock, state), bs') \<Rightarrow>
         apply_entries unmarshal (Suc i) n bs' (apply_entry clientID clock state s)
     | Err e \<Rightarrow> (s, Err e)
     | Panic p \<Rightarrow> (s, Panic p)
     | Diverge \<Rightarrow> (s, Diverge))"

definition aw_ApplyUpdate :: "(gostring \<Rightarrow> aw_state option) \<Rightarrow> byte list \<Rightarrow> goany \<Rightarrow> Awareness \<Rightarrow> Awareness \<times> unit outcome" where
  "aw_ApplyUpdate unmarshal data origin A =
    (case owrap ''awareness count'' [] (ReadVarUint data) of
       Ret (cnt, bs) \<Rightarrow>
         (let ((A', ch), r) = apply_entries unmarshal 0 (unat cnt) bs (A, no_change) in
          (if r = Ret () \<and> (length (ch_added ch) > 0 \<or> length (ch_updated ch) > 0 \<or> length (ch_removed ch) > 0)
           then call_change_handlers ch origin A' else A', r))
     | Err e \<Rightarrow> (A, Err e)
     | Panic p \<Rightarrow> (A, Panic p)
     | Diverge \<Rightarrow> (A, Diverge))"

section \<open>What an update can and cannot change\<close>

definition aw_get :: "Awareness \<Rightarrow> u64 \<Rightarrow> awarenessState option" where
  "aw_get A c = gm_get (aw_states A) c"

definition aw_ok :: "Awareness \<Rightarrow> bool" where
  "aw_ok A \<longleftrightarrow> gm_ok (aw_states A)"

text \<open>The effect of one entry on the lookup, as a function on maps.\<close>

definition takes :: "Awareness \<Rightarrow> u64 \<Rightarrow> u64 \<Rightarrow> aw_state option \<Rightarrow> bool" where
  "takes A c clock state \<longleftrightarrow>
    (case aw_get A c of
       None \<Rightarrow> clock > 0
     | Some s \<Rightarrow> (clock > as_clock s \<or> clock = as_clock s \<and> state = None) \<and>
         \<not> (c = aw_clientID A \<and> as_state s \<noteq> None))"

lemma apply_entry_get:
  assumes "aw_ok A"
  shows "aw_get (fst (apply_entry c clock state (A, ch))) =
      (if takes A c clock state
       then (aw_get A)(c := map_option (\<lambda>st. \<lparr>as_state = Some st, as_clock = clock\<rparr>) state)
       else aw_get A)"
    and "aw_ok (fst (apply_entry c clock state (A, ch)))"
    and "aw_clientID (fst (apply_entry c clock state (A, ch))) = aw_clientID A"
    and "aw_handlers (fst (apply_entry c clock state (A, ch))) = aw_handlers A"
  using assms
  by (auto simp: apply_entry_def Let_def takes_def aw_get_def aw_ok_def gm.inv_put gm.inv_del gm.get_put gm.get_del
      fun_eq_iff split: option.splits)

lemma takes_local:
  "aw_get A (aw_clientID A) = Some s \<Longrightarrow> as_state s \<noteq> None \<Longrightarrow> \<not> takes A (aw_clientID A) clock state"
  by (simp add: takes_def)

lemma apply_entries_local:
  assumes "aw_ok A" "aw_get A (aw_clientID A) = Some s" "as_state s \<noteq> None"
  shows "aw_get (fst (fst (apply_entries unm i n bs (A, ch)))) (aw_clientID A) = Some s"
  using assms
proof (induction n arbitrary: i bs A ch)
  case (Suc n)
  show ?case
  proof (cases "read_entry unm i bs")
    case (Ret x)
    obtain c clock state bs' where x: "x = ((c, clock, state), bs')" by (cases x) auto
    obtain A1 ch1 where e: "apply_entry c clock state (A, ch) = (A1, ch1)" by fastforce
    have A1: "aw_ok A1" "aw_clientID A1 = aw_clientID A"
      "aw_get A1 = (if takes A c clock state then (aw_get A)(c := map_option (\<lambda>st. \<lparr>as_state = Some st, as_clock = clock\<rparr>) state) else aw_get A)"
      using apply_entry_get [OF Suc.prems(1), of c clock state ch] e by simp_all
    have "aw_get A1 (aw_clientID A1) = Some s"
      using A1 takes_local [OF Suc.prems(2,3), of clock state] Suc.prems(2) by (auto simp del: takes_def)
    then show ?thesis using Suc.IH [OF A1(1) _ Suc.prems(3), of "Suc i" bs' ch1] Ret x e A1(2) by simp
  qed (use Suc.prems in simp_all)
qed simp

lemma aw_ApplyUpdate_local:
  assumes "aw_ok A" "aw_get A (aw_clientID A) = Some s" "as_state s \<noteq> None"
  shows "aw_get (fst (aw_ApplyUpdate unm data origin A)) (aw_clientID A) = Some s"
proof (cases "ReadVarUint data")
  case (Ret x)
  obtain cnt bs where x: "x = (cnt, bs)" by fastforce
  have "aw_get (fst (fst (apply_entries unm 0 (unat cnt) bs (A, no_change)))) (aw_clientID A) = Some s"
    using assms by (rule apply_entries_local)
  then show ?thesis
    by (auto simp: aw_ApplyUpdate_def Ret x split_beta Let_def call_change_handlers_def aw_get_def)
qed (use assms in \<open>simp_all add: aw_ApplyUpdate_def\<close>)

section \<open>From one peer to another\<close>

text \<open>
  What the code relies on: a state's JSON parses back to the state, is not the literal null,
  and fits a message.
\<close>

definition json_roundtrip :: "(aw_state \<Rightarrow> gostring option) \<Rightarrow> (gostring \<Rightarrow> aw_state option) \<Rightarrow> aw_state \<Rightarrow> bool" where
  "json_roundtrip marshal unmarshal st \<longleftrightarrow>
    (\<exists>js. marshal st = Some js \<and> unmarshal js = Some st \<and> js \<noteq> gostr ''null'' \<and> js \<noteq> [] \<and> bytes_fit js)"

definition sendable :: "(aw_state \<Rightarrow> gostring option) \<Rightarrow> (gostring \<Rightarrow> aw_state option) \<Rightarrow> awarenessState \<Rightarrow> bool" where
  "sendable marshal unmarshal s \<longleftrightarrow>
    (case as_state s of None \<Rightarrow> True | Some st \<Rightarrow> json_roundtrip marshal unmarshal st)"

lemma read_entry_encode:
  assumes "aw_get A c = Some s" "sendable marshal unmarshal s"
  shows "read_entry unmarshal i (encode_state marshal A c @ rest) = Ret ((c, as_clock s, as_state s), rest)"
  using assms
  by (auto simp: read_entry_def encode_state_def aw_get_def codec_simps sendable_def json_roundtrip_def
      state_json_def parse_state_def ReadVarString_write split: option.splits)

text \<open>
  Applying what \<open>A\<close> encodes for distinct clients to \<open>B\<close>: each of them is taken over when \<open>B\<close>
  would take it, and nobody else changes.
\<close>

definition merged :: "Awareness \<Rightarrow> u64 list \<Rightarrow> Awareness \<Rightarrow> u64 \<Rightarrow> awarenessState option" where
  "merged A ids B c =
    (case aw_get A c of
       Some s \<Rightarrow>
         if c \<in> set ids \<and> takes B c (as_clock s) (as_state s)
         then (if as_state s = None then None else Some s)
         else aw_get B c
     | None \<Rightarrow> aw_get B c)"

lemma apply_entries_encode:
  assumes "aw_ok B" "distinct ids" "\<forall>c \<in> set ids. \<exists>s. aw_get A c = Some s \<and> sendable marshal unmarshal s"
  shows "snd (apply_entries unmarshal i (length ids) (concat (map (encode_state marshal A) ids) @ rest) (B, ch)) = Ret ()
    \<and> aw_get (fst (fst (apply_entries unmarshal i (length ids) (concat (map (encode_state marshal A) ids) @ rest) (B, ch))))
      = merged A ids B"
  using assms
proof (induction ids arbitrary: i B ch)
  case Nil
  then show ?case by (auto simp: merged_def fun_eq_iff split: option.splits)
next
  case (Cons c ids)
  obtain s where s: "aw_get A c = Some s" "sendable marshal unmarshal s" using Cons.prems(3) by auto
  obtain B1 ch1 where e: "apply_entry c (as_clock s) (as_state s) (B, ch) = (B1, ch1)" by fastforce
  have B1: "aw_ok B1" "aw_clientID B1 = aw_clientID B"
    "aw_get B1 = (if takes B c (as_clock s) (as_state s)
       then (aw_get B)(c := map_option (\<lambda>st. \<lparr>as_state = Some st, as_clock = as_clock s\<rparr>) (as_state s)) else aw_get B)"
    using apply_entry_get [OF Cons.prems(1), of c "as_clock s" "as_state s" ch] e by simp_all
  have same: "takes B1 x k st = takes B x k st" "aw_get B1 x = aw_get B x" if "x \<noteq> c" for x k st
  proof -
    have "aw_get B1 x = aw_get B x" using that by (simp add: B1(3))
    then show "takes B1 x k st = takes B x k st" "aw_get B1 x = aw_get B x"
      by (auto simp: takes_def B1(2) split: option.split)
  qed
  have eta: "map_option (\<lambda>st. \<lparr>as_state = Some st, as_clock = as_clock s\<rparr>) (as_state s) =
      (if as_state s = None then None else Some s)"
    by (cases s; cases "as_state s") auto
  have m: "merged A ids B1 = merged A (c # ids) B"
  proof
    fix x
    show "merged A ids B1 x = merged A (c # ids) B x"
    proof (cases "x = c")
      case True
      then show ?thesis using B1(3) s(1) eta Cons.prems(2) by (simp add: merged_def)
    next
      case False
      then show ?thesis by (simp add: merged_def same split: option.split)
    qed
  qed
  show ?case
    using Cons.IH [OF B1(1), of "Suc i" ch1] Cons.prems(2,3) m
      read_entry_encode [OF s, of i "concat (map (encode_state marshal A) ids) @ rest"] e
    by simp
qed

lemma aw_exchange:
  assumes "aw_ok B" "distinct ids" "length ids \<le> max_alloc"
    and "\<forall>c \<in> set ids. \<exists>s. aw_get A c = Some s \<and> sendable marshal unmarshal s"
  shows "snd (aw_ApplyUpdate unmarshal (aw_EncodeUpdate marshal ids A) origin B) = Ret ()"
    and "aw_get (fst (aw_ApplyUpdate unmarshal (aw_EncodeUpdate marshal ids A) origin B)) = merged A ids B"
proof -
  have valid: "filter (\<lambda>c. gm_get (aw_states A) c \<noteq> None) ids = ids"
    using assms(4) by (auto simp: aw_get_def filter_id_conv)
  have enc: "aw_EncodeUpdate marshal ids A =
      WriteVarUint (of_nat (length ids)) @ concat (map (encode_state marshal A) ids) @ []"
    unfolding aw_EncodeUpdate_def valid Let_def by simp
  note run = apply_entries_encode [OF assms(1,2,4), of 0 "[]" no_change]
  have len: "unat (of_nat (length ids) :: u64) = length ids" using assms(3) by simp
  show "snd (aw_ApplyUpdate unmarshal (aw_EncodeUpdate marshal ids A) origin B) = Ret ()"
    using run unfolding enc aw_ApplyUpdate_def ReadVarUint_write by (simp add: len split_beta Let_def)
  show "aw_get (fst (aw_ApplyUpdate unmarshal (aw_EncodeUpdate marshal ids A) origin B)) = merged A ids B"
    using run unfolding enc aw_ApplyUpdate_def ReadVarUint_write
    by (auto simp: len split_beta Let_def call_change_handlers_def aw_get_def [abs_def])
qed

end
