(* ===== verification/PeerProperties.thy ===== *)
theory PeerProperties
  imports Awareness Transport
begin

text \<open>
  The properties of the parts that talk to other peers: awareness (\<open>awareness.go\<close>), the relay
  (\<open>transport/relay.go\<close>) and the client's handshake (\<open>transport/ws.go\<close>).
\<close>

section \<open>Awareness\<close>

text \<open>A JSON library that handles one state: the hypotheses about it hold for this one.\<close>

definition sample_state :: aw_state where
  "sample_state = [([0x6b], GBool True)]"

definition sample_json :: gostring where
  "sample_json = gostr ''{\"k\":true}''"

definition marshal1 :: "aw_state \<Rightarrow> gostring option" where
  "marshal1 st = (if st = sample_state then Some sample_json else None)"

definition unmarshal1 :: "gostring \<Rightarrow> aw_state option" where
  "unmarshal1 js = (if js = sample_json then Some sample_state else None)"

lemma sample_roundtrip: "json_roundtrip marshal1 unmarshal1 sample_state"
  by (simp add: json_roundtrip_def marshal1_def unmarshal1_def sample_json_def gostr_def bytes_fit_def max_alloc_def)

definition peer_a :: Awareness where
  "peer_a = SetLocalState (Some sample_state) (NewAwareness 1)"

lemma peer_samples:
  "aw_ok peer_a" "aw_clientID peer_a = 1" "aw_get peer_a 1 = Some \<lparr>as_state = Some sample_state, as_clock = 1\<rparr>"
  "aw_ok (NewAwareness c)" "aw_get (NewAwareness 2) 1 = None"
  by (simp_all add: peer_a_def SetLocalState_def NewAwareness_def call_change_handlers_def aw_ok_def aw_get_def Let_def)

text \<open>
  C29. No remote update changes the local client's live state: whatever the bytes, and however the
  decoding of them ends, the local entry is what it was.
\<close>
theorem awareness_local_safe:
  assumes "aw_ok A" and "aw_get A (aw_clientID A) = Some s" and "as_state s \<noteq> None"
  shows "aw_get (fst (aw_ApplyUpdate unmarshal data origin A)) (aw_clientID A) = Some s"
  using assms by (rule aw_ApplyUpdate_local)

theorem awareness_local_safe_witness:
  "aw_get (fst (aw_ApplyUpdate unmarshal1 (WriteVarUint 1 @ WriteVarUint 1 @ WriteVarUint 9 @ WriteVarString []) GNil peer_a)) 1 =
    Some \<lparr>as_state = Some sample_state, as_clock = 1\<rparr>"
  using awareness_local_safe [of peer_a "\<lparr>as_state = Some sample_state, as_clock = 1\<rparr>"] by (simp add: peer_samples)

text \<open>
  C30. Awareness states travel: applying what one peer encodes for some clients succeeds, and
  leaves the other peer with the sender's entry for each of these clients whose clock is newer
  (or that is gone at the same clock, its own live entry excepted), and otherwise with its own.
\<close>
theorem awareness_exchange:
  assumes "aw_ok B" and "distinct ids" and "length ids \<le> max_alloc"
    and "\<forall>c \<in> set ids. \<exists>s. aw_get A c = Some s \<and> sendable marshal unmarshal s"
  shows "snd (aw_ApplyUpdate unmarshal (aw_EncodeUpdate marshal ids A) origin B) = Ret () \<and>
    aw_get (fst (aw_ApplyUpdate unmarshal (aw_EncodeUpdate marshal ids A) origin B)) = merged A ids B"
  using aw_exchange [OF assms] by blast

theorem awareness_exchange_witness:
  "aw_get (fst (aw_ApplyUpdate unmarshal1 (aw_EncodeUpdate marshal1 [1] peer_a) GNil (NewAwareness 2))) 1 =
    Some \<lparr>as_state = Some sample_state, as_clock = 1\<rparr>"
proof -
  have "\<forall>c \<in> set [1]. \<exists>s. aw_get peer_a c = Some s \<and> sendable marshal1 unmarshal1 s"
    by (simp add: peer_samples sendable_def sample_roundtrip)
  then show ?thesis
    using awareness_exchange [of "NewAwareness 2" "[1]" peer_a marshal1 unmarshal1 GNil]
    by (simp add: peer_samples merged_def takes_def max_alloc_def)
qed

text \<open>
  A client that leaves and comes back is not seen again: nothing of the departure is sent,
  the new entry starts again at clock 0, and a peer that has any entry of the client keeps it.
\<close>
theorem awareness_rejoin_unseen:
  assumes "aw_ok A" and "aw_ok B" and "aw_get B (aw_clientID A) = Some s"
    and "json_roundtrip marshal unmarshal st"
  shows "aw_EncodeUpdate marshal [aw_clientID A] (SetLocalState None A) = WriteVarUint 0 \<and>
    aw_get (SetLocalState (Some st) (SetLocalState None A)) (aw_clientID A) = Some \<lparr>as_state = Some st, as_clock = 0\<rparr> \<and>
    aw_get (fst (aw_ApplyUpdate unmarshal
      (aw_EncodeUpdate marshal [aw_clientID A] (SetLocalState (Some st) (SetLocalState None A))) origin B)) = aw_get B"
proof -
  let ?c = "aw_clientID A" and ?A = "SetLocalState (Some st) (SetLocalState None A)"
  have gone: "gm_get (aw_states (SetLocalState None A)) ?c = None" "aw_clientID (SetLocalState None A) = ?c"
    using assms(1) by (simp_all add: SetLocalState_def Let_def call_change_handlers_def aw_ok_def gm.get_del)
  then have joined: "aw_get ?A ?c = Some \<lparr>as_state = Some st, as_clock = 0\<rparr>"
    by (simp add: SetLocalState_def [of "Some st"] Let_def call_change_handlers_def aw_get_def update_conv')
  have "\<forall>c \<in> set [?c]. \<exists>s. aw_get ?A c = Some s \<and> sendable marshal unmarshal s"
    using joined assms(4) by (simp add: sendable_def)
  then have "aw_get (fst (aw_ApplyUpdate unmarshal (aw_EncodeUpdate marshal [?c] ?A) origin B)) = merged ?A [?c] B"
    by (intro aw_exchange(2) assms(2)) (simp_all add: max_alloc_def)
  moreover have "merged ?A [?c] B = aw_get B"
    using joined assms(3) by (auto simp: merged_def takes_def fun_eq_iff split: option.split)
  ultimately show ?thesis using gone(1) joined by (simp add: aw_EncodeUpdate_def)
qed

section \<open>The relay\<close>

text \<open>A room with two connections.\<close>

definition sample_room :: Room where
  "sample_room = joined 1 (joined 0 (newRoom None))"

lemma sample_room_reach: "relay_reach sample_room"
  unfolding sample_room_def by (intro relay_reach_join relay_reach.start) (simp_all add: newRoom_def)

text \<open>
  C13. In every room state that a relay can reach: no connection is in the list of clients twice,
  the list is exactly the connections between registration and removal, everything ever sent
  is a sync message, and what a connection is about to send for a message it received is a
  step-2 reply to itself or an update to somebody else, never an update back to its sender.
\<close>
theorem relay_invariant:
  assumes "relay_reach r"
  shows "distinct (rm_clients r) \<and> (\<forall>c. c \<in> set (rm_clients r) \<longleftrightarrow> registered (rm_conns r c)) \<and>
    (\<forall>s \<in> set (rm_sent r). is_frame (snd s)) \<and>
    (\<forall>c todo. rm_conns r c = Some (Sending todo) \<longrightarrow> (\<forall>s \<in> set todo. may_send c s))"
  using room_ok_reach [OF assms] by (simp add: room_ok_def)

theorem relay_invariant_witness: "distinct (rm_clients sample_room) \<and> registered (rm_conns sample_room 1)"
  using relay_invariant [OF sample_room_reach] by (simp add: sample_room_def newRoom_def registered_def)

lemma relay_receive_update:
  assumes "bytes_fit u" "ApplyUpdate u relay_origin (rm_doc r) = Ret d"
  shows "relay_receive c (EncodeUpdate u) r =
    goto c (Sending (map (\<lambda>o'. (o', EncodeUpdate u)) (filter (\<lambda>x. x \<noteq> c) (rm_clients r)))) (r\<lparr>rm_doc := d\<rparr>)"
  using parse_frame_frame [of "\<lparr>sm_Type = MessageYjsUpdate, sm_Payload = u\<rparr>"] assms
  by (simp add: relay_receive_def frames relay_message_def room_apply_def MessageYjsUpdate_def
      MessageYjsSyncStep1_def MessageYjsSyncStep2_def)

text \<open>
  C23. An update message that has been read from a client is applied to the room's document and goes,
  unchanged and once, to every other client of the room and not back to the sender.
\<close>
theorem relay_broadcast:
  assumes "relay_reach r" and "rm_conns r c = Some (Handling (EncodeUpdate u))" and "bytes_fit u"
    and "ApplyUpdate u relay_origin (rm_doc r) = Ret d"
  shows "\<exists>todo. relay_receive c (EncodeUpdate u) r = goto c (Sending todo) (r\<lparr>rm_doc := d\<rparr>) \<and>
    distinct (map fst todo) \<and> set todo = {(o', EncodeUpdate u) | o'. o' \<in> set (rm_clients r) \<and> o' \<noteq> c}"
proof -
  let ?todo = "map (\<lambda>o'. (o', EncodeUpdate u)) (filter (\<lambda>x. x \<noteq> c) (rm_clients r))"
  have "relay_receive c (EncodeUpdate u) r = goto c (Sending ?todo) (r\<lparr>rm_doc := d\<rparr>)"
    by (rule relay_receive_update [OF assms(3,4)])
  moreover have "distinct (map fst ?todo)"
    using room_ok_reach [OF assms(1)] by (simp add: room_ok_def comp_def)
  moreover have "set ?todo = {(o', EncodeUpdate u) | o'. o' \<in> set (rm_clients r) \<and> o' \<noteq> c}" by auto
  ultimately show ?thesis by blast
qed

text \<open>New documents on the wire.\<close>

lemma new_doc_wire:
  "EncodeStateVector (new_doc c) = [0]" "DecodeStateVectorV1 [0] = Ret []" "EncodeStateAsUpdate (new_doc c) [0] = Ret [0, 0]"
proof -
  have z: "WriteVarUint 0 = [0]" by (simp add: WriteVarUint.simps)
  show "EncodeStateVector (new_doc c) = [0]"
    by (simp add: EncodeStateVector_def new_doc_def newStructStore_def stateVector_def EncodeStateVectorV1_def sort_desc_def z)
  show "DecodeStateVectorV1 [0] = Ret []"
    using ReadVarUint_write [of 0 "[]"] by (simp add: z DecodeStateVectorV1_def make_slice_def)
  then show "EncodeStateAsUpdate (new_doc c) [0] = Ret [0, 0]"
    by (simp add: EncodeStateAsUpdate_def state_update_def new_doc_def newStructStore_def EncodeUpdateV1_def writeUpdateV1_def
        group_by_client_def sort_desc_def z)
qed

lemma empty_update_decodes: "DecodeUpdateV1 [0, 0] = Ret empty_update"
proof -
  have "WriteVarUint 0 = [0]" by (simp add: WriteVarUint.simps)
  then show ?thesis
    using ReadVarUint_write [of 0 "[0]"] ReadVarUint_write [of 0 "[]"]
    by (simp add: DecodeUpdateV1_def readUpdateV1_def empty_update_def)
qed

lemma empty_update_applies: "\<exists>d. ApplyUpdate [0, 0] relay_origin (NewDoc rnd) = Ret d"
proof -
  show ?thesis
    using empty_update_decodes
    by (cases "case rnd of Some b \<Rightarrow> b | None \<Rightarrow> (0xca, 0xfe, 0x01, 0x02)")
      (simp add: ApplyUpdate_def decodeUpdateV1_def empty_update_def update_items_def update_ds_def newDeleteSet_def
        List.map_filter_def apply_decoded_def begin_tx_def accumulate_ds_def apply_ds_def NewDoc_def new_doc_def Let_def)
qed

theorem relay_broadcast_witness:
  "\<exists>r d todo. relay_reach r \<and> relay_receive 0 (EncodeUpdate [0, 0]) r = goto 0 (Sending todo) (r\<lparr>rm_doc := d\<rparr>) \<and>
    set todo = {(1, EncodeUpdate [0, 0])}"
proof -
  let ?r = "goto 0 (Handling (EncodeUpdate [0, 0])) sample_room"
  have at: "rm_conns sample_room 0 = Some Serving" "rm_clients ?r = [0, 1]" "rm_doc ?r = NewDoc None"
    by (simp_all add: sample_room_def newRoom_def)
  have r: "relay_reach ?r" by (rule relay_reach.step [OF sample_room_reach relay_step.read [OF at(1)]])
  obtain d where "ApplyUpdate [0, 0] relay_origin (rm_doc ?r) = Ret d" using empty_update_applies at(3) by auto
  then have "\<exists>todo. relay_receive 0 (EncodeUpdate [0, 0]) ?r = goto 0 (Sending todo) (?r\<lparr>rm_doc := d\<rparr>) \<and>
      distinct (map fst todo) \<and> set todo = {(o', EncodeUpdate [0, 0]) | o'. o' \<in> set (rm_clients ?r) \<and> o' \<noteq> 0}"
    by (intro relay_broadcast [OF r]) (simp_all add: bytes_fit_def max_alloc_def)
  then show ?thesis using r unfolding at(2) by (elim exE conjE, intro exI conjI) auto
qed

end
