(* ===== verification/RemoteDelete.thy ===== *)
theory RemoteDelete
  imports Wellformed
begin

text \<open>
  What a remote delete range promises of a text: exactly the runes whose identifiers lie in the
  range disappear. \<open>chars\<close> pairs each visible rune with its identifier, and a delete range
  filters that list, after two splits that do not change it.
\<close>

section \<open>The runes of a text with their identifiers\<close>

definition rune_ids :: "Item \<Rightarrow> ID list" where
  "rune_ids it = map (\<lambda>i. mkID (Client (it_ID it)) (Clock (it_ID it) + of_nat i)) [0..<length (item_runes it)]"

definition item_chars :: "Item \<Rightarrow> (ID \<times> rune) list" where
  "item_chars it = (if it_Deleted it then [] else zip (rune_ids it) (item_runes it))"

definition chars :: "heap \<Rightarrow> addr list \<Rightarrow> (ID \<times> rune) list" where
  "chars h as = concat (map (\<lambda>a. item_chars (h ! a)) as)"

definition id_in_range :: "u64 \<Rightarrow> u64 \<Rightarrow> u64 \<Rightarrow> ID \<Rightarrow> bool" where
  "id_in_range c k e i \<longleftrightarrow> Client i = c \<and> k \<le> Clock i \<and> Clock i < e"

lemma length_rune_ids [simp]: "length (rune_ids it) = length (item_runes it)"
  by (simp add: rune_ids_def)

lemma chars_simps [simp]:
  "chars h [] = []" "chars h (a # as) = item_chars (h ! a) @ chars h as" "chars h (xs @ ys) = chars h xs @ chars h ys"
  by (simp_all add: chars_def)

lemma vis_chars: "vis h as = map snd (chars h as)"
  by (induction as) (simp_all add: item_chars_def shown_def)

lemma chars_cong: "(\<And>a. a \<in> set as \<Longrightarrow> item_chars (h' ! a) = item_chars (h ! a)) \<Longrightarrow> chars h' as = chars h as"
  by (induction as) auto

lemma filter_chars:
  "(\<And>a. a \<in> set as \<Longrightarrow> item_chars (h' ! a) = filter P (item_chars (h ! a))) \<Longrightarrow> chars h' as = filter P (chars h as)"
  by (induction as) auto

section \<open>A client's slice in clock order\<close>

lemma clocks_ok_append:
  "clocks_ok h (xs @ ys) \<longleftrightarrow>
    clocks_ok h xs \<and> clocks_ok h ys \<and> (xs \<noteq> [] \<and> ys \<noteq> [] \<longrightarrow> item_end h (last xs) \<le> item_clock h (hd ys))"
proof (induction xs)
  case (Cons x xs)
  then show ?case by (cases xs; cases ys) (auto dest: clocks_ok_end [of _ "_ # _"] simp: item_end_def)
qed simp

lemma clocks_ok_cong':
  "clocks_ok h as \<Longrightarrow> (\<And>a. a \<in> set as \<Longrightarrow> item_clock h' a = item_clock h a \<and> item_end h' a = item_end h a) \<Longrightarrow>
   clocks_ok h' as"
  by (induction h as rule: clocks_ok.induct) auto

lemma clocks_ok_before:
  "clocks_ok h (us @ a # vs) \<Longrightarrow> u \<in> set us \<Longrightarrow> item_end h u \<le> item_clock h a"
  using clocks_ok_nth [of h "us @ a # vs" _ "length us"] by (fastforce simp: in_set_conv_nth nth_append)

lemma clocks_ok_after:
  "clocks_ok h (us @ a # vs) \<Longrightarrow> v \<in> set vs \<Longrightarrow> item_end h a \<le> item_clock h v"
proof -
  assume ok: "clocks_ok h (us @ a # vs)" and v: "v \<in> set vs"
  then obtain xs ys where "vs = xs @ v # ys" by (meson split_list)
  then show ?thesis using clocks_ok_before [of h "us @ a # xs" v ys a] ok by simp
qed

text \<open>The clock \<open>s\<close> falls strictly inside an item.\<close>

definition cuts :: "heap \<Rightarrow> nat \<Rightarrow> addr \<Rightarrow> bool" where
  "cuts h s a \<longleftrightarrow> item_clock h a < s \<and> s < item_end h a"

lemma insert_sorted_at:
  "(\<And>u. u \<in> set us \<Longrightarrow> item_clock h u < item_clock h r) \<Longrightarrow> (\<And>v. v \<in> set vs \<Longrightarrow> item_clock h r \<le> item_clock h v) \<Longrightarrow>
   insert_sorted h r (us @ vs) = us @ r # vs"
proof (induction us)
  case Nil
  show ?case
  proof (cases vs)
    case (Cons v vs')
    then show ?thesis using Nil(2) [of v] by (simp add: item_clock_def word_less_nat_alt)
  qed simp
qed (simp add: item_clock_def word_less_nat_alt)

text \<open>Cutting one item of the slice in two.\<close>

lemma clocks_ok_cut:
  assumes ok: "clocks_ok h (us @ a # vs)" and cut: "cuts h s a"
    and a: "item_clock h' a = item_clock h a" "item_end h' a = s"
    and r: "item_clock h' r = s" "item_end h' r = item_end h a"
    and keep: "\<And>b. b \<in> set (us @ vs) \<Longrightarrow> item_clock h' b = item_clock h b \<and> item_end h' b = item_end h b"
  shows "clocks_ok h' (us @ a # r # vs)" "insert_sorted h' r (us @ a # vs) = us @ a # r # vs"
proof -
  have bound: "item_end h a < 2 ^ 64" using clocks_ok_end [OF ok] by simp
  have us: "clocks_ok h' us" "us \<noteq> [] \<Longrightarrow> item_end h' (last us) \<le> item_clock h' a"
    using ok keep a(1) clocks_ok_cong' [of h us h'] clocks_ok_before [OF ok, of "last us"] by (auto simp: clocks_ok_append)
  have "clocks_ok h vs" using ok by (cases vs) (auto simp: clocks_ok_append)
  then have vs: "clocks_ok h' vs" "vs \<noteq> [] \<Longrightarrow> item_end h' r \<le> item_clock h' (hd vs)"
    using keep r(2) clocks_ok_cong' [of h vs h'] clocks_ok_after [OF ok, of "hd vs"] by auto
  show "clocks_ok h' (us @ a # r # vs)"
    using us vs a r bound cut by (cases vs) (auto simp: clocks_ok_append cuts_def)
  show "insert_sorted h' r (us @ a # vs) = us @ a # r # vs"
  proof -
    have "item_clock h' u < item_clock h' r" if "u \<in> set (us @ [a])" for u
      using that keep [of u] clocks_ok_before [OF ok, of u] a(1) r(1) cut by (auto simp: cuts_def item_end_def)
    moreover have "item_clock h' r \<le> item_clock h' v" if "v \<in> set vs" for v
      using that keep [of v] clocks_ok_after [OF ok that] r(1) cut by (auto simp: cuts_def)
    ultimately show ?thesis using insert_sorted_at [of "us @ [a]" h' r vs] by simp
  qed
qed

lemma cover_unique:
  assumes "clocks_ok h as" "a \<in> set as" "b \<in> set as" "item_clock h a \<le> s" "s < item_end h a" "item_clock h b \<le> s" "s < item_end h b"
  shows "a = b"
proof -
  obtain i j where ij: "i < length as" "j < length as" "a = as ! i" "b = as ! j" using assms(2,3) by (auto simp: in_set_conv_nth)
  show ?thesis
    using clocks_ok_nth [OF assms(1), of i j] clocks_ok_nth [OF assms(1), of j i] assms(4-7) ij
    by (cases i j rule: linorder_cases) auto
qed

section \<open>Splitting at a clock\<close>

text \<open>
  The hypotheses: the document is well formed, the client's slice is in clock order and contains
  the client's items of this text, and live strings have the length they show.
\<close>

definition deletable :: "Doc \<Rightarrow> gostring \<Rightarrow> u64 \<Rightarrow> addr list \<Rightarrow> bool" where
  "deletable d name c as \<longleftrightarrow> doc_wf d \<and> text_list d name as \<and>
    clocks_ok (d_heap d) (store_items (d_store d) c) \<and>
    (\<forall>a \<in> set (store_items (d_store d) c). Client (it_ID (d_heap d ! a)) = c \<and>
      (\<not> it_Deleted (d_heap d ! a) \<and> it_Kind (d_heap d ! a) = contentString \<longrightarrow> text_item (d_heap d ! a))) \<and>
    (\<forall>a \<in> set as. Client (it_ID (d_heap d ! a)) = c \<longrightarrow> a \<in> set (store_items (d_store d) c))"

text \<open>No deleted item, respectively no string at all, has the clock strictly inside.\<close>

definition live_at :: "Doc \<Rightarrow> u64 \<Rightarrow> nat \<Rightarrow> bool" where
  "live_at d c s \<longleftrightarrow> (\<forall>a \<in> set (store_items (d_store d) c). it_Deleted (d_heap d ! a) \<longrightarrow> \<not> cuts (d_heap d) s a)"

definition uncut :: "Doc \<Rightarrow> u64 \<Rightarrow> nat \<Rightarrow> bool" where
  "uncut d c s \<longleftrightarrow> (\<forall>a \<in> set (store_items (d_store d) c). it_Kind (d_heap d ! a) = contentString \<longrightarrow> \<not> cuts (d_heap d) s a)"

lemma getItem_covers:
  assumes "clocks_ok (d_heap d) (store_items (d_store d) c)"
  shows "doc_getItem d (mkID c s) = None \<Longrightarrow> a \<in> set (store_items (d_store d) c) \<Longrightarrow> \<not> cuts (d_heap d) (unat s) a"
    and "doc_getItem d (mkID c s) = Some a \<Longrightarrow> a \<in> set (store_items (d_store d) c) \<and>
      item_clock (d_heap d) a \<le> unat s \<and> unat s < item_end (d_heap d) a"
proof -
  let ?h = "d_heap d" and ?as = "store_items (d_store d) c"
  have g: "doc_getItem d (mkID c s) = find (covers ?h s) ?as"
    using getItem_find [of ?h "d_store d" "mkID c s"] assms by (simp add: doc_getItem_def find_item_def)
  have cov: "covers ?h s a \<longleftrightarrow> item_clock ?h a \<le> unat s \<and> unat s < item_end ?h a" if "a \<in> set ?as" for a
    using covers_unat clocks_ok_end [OF assms that] by blast
  show "doc_getItem d (mkID c s) = None \<Longrightarrow> a \<in> set ?as \<Longrightarrow> \<not> cuts ?h (unat s) a"
    using cov [of a] by (auto simp: g find_None_iff cuts_def)
  show "doc_getItem d (mkID c s) = Some a \<Longrightarrow> a \<in> set ?as \<and> item_clock ?h a \<le> unat s \<and> unat s < item_end ?h a"
    using cov [of a] by (auto simp: g find_Some_iff)
qed

text \<open>The split of one item, as both kinds of split perform it.\<close>

definition halves :: "addr \<Rightarrow> u64 \<Rightarrow> Doc \<Rightarrow> Doc" where
  "halves a off d =
    (let it = d_heap d ! a; runes = item_runes it in
     snd (split_off a (\<lambda>i. i\<lparr>it_Content := GString (string_of_runes (take (unat off) runes)), it_Length := off\<rparr>)
       (zero_Item\<lparr>it_ID := mkID (Client (it_ID it)) (Clock (it_ID it) + off), it_Left := Some a,
         it_Right := it_Right it, it_Parent := it_Parent it, it_Kind := contentString,
         it_Content := GString (string_of_runes (drop (unat off) runes)),
         it_Length := of_nat (length runes - unat off),
         it_OriginLeft := Some (mkID (Client (it_ID it)) (Clock (it_ID it) + off - 1))\<rparr>) d))"

lemma live_string:
  assumes "text_item it" "\<not> it_Deleted it"
  obtains s where "it_Content it = GString s" "strContent it = Ret s" "item_runes it = runes_of s"
    "unat (it_Length it) = length (item_runes it)" "it_Kind it = contentString"
  using assms by (auto simp: text_item_def strContent_def item_runes_def)

lemma splits_halve:
  assumes it: "text_item (d_heap d ! a)" "\<not> it_Deleted (d_heap d ! a)" and a: "a < length (d_heap d)"
    and off: "off \<noteq> 0" "unat off < length (item_runes (d_heap d ! a))"
    and right: "it_Right (d_heap d ! a) \<noteq> Some a" "\<forall>n. it_Right (d_heap d ! a) = Some n \<longrightarrow> n < length (d_heap d)"
  shows "splitItemAt a off d = Ret ((Some a, length (d_heap d)), store_add (length (d_heap d)) (halves a off d))"
    and "doc_getItem d (mkID c s) = Some a \<Longrightarrow> Client (it_ID (d_heap d ! a)) = c \<Longrightarrow> s = Clock (it_ID (d_heap d ! a)) + off \<Longrightarrow>
      splitAtClock c s d = Ret (insertIntoStore (length (d_heap d)) (halves a off d))"
proof -
  let ?it = "d_heap d ! a"
  obtain str where s: "it_Content ?it = GString str" "strContent ?it = Ret str" "item_runes ?it = runes_of str"
    "unat (it_Length ?it) = length (item_runes ?it)" "it_Kind ?it = contentString"
    using live_string [OF it] by blast
  have fst: "fst (split_off a f ri d) = length (d_heap d)" for f ri
    by (rule split_off_heap(1) [OF a refl right(1) right(2) [rule_format]])
  have pos: "0 < unat off" using off(1) by (simp add: unat_gt_0)
  show "splitItemAt a off d = Ret ((Some a, length (d_heap d)), store_add (length (d_heap d)) (halves a off d))"
    using off s by (simp add: splitItemAt_def halves_def Let_def split_beta fst min_absorb2)
  show "splitAtClock c s d = Ret (insertIntoStore (length (d_heap d)) (halves a off d))"
    if g: "doc_getItem d (mkID c s) = Some a" "Client (it_ID ?it) = c" "s = Clock (it_ID ?it) + off"
  proof -
    have "\<not> of_nat (length (item_runes ?it)) \<le> off"
      unfolding of_nat_unat_eq [OF s(4)] using off(2) s(4) by (simp add: word_le_nat_alt)
    then show ?thesis
      using off s g by (simp add: splitAtClock_def halves_def Let_def split_beta fst)
  qed
qed

text \<open>The two halves, item by item.\<close>

lemma halves_heap:
  assumes it: "text_item (d_heap d ! a)" "\<not> it_Deleted (d_heap d ! a)" and a: "a < length (d_heap d)"
    and off: "off \<noteq> 0" "unat off < length (item_runes (d_heap d ! a))"
    and right: "it_Right (d_heap d ! a) \<noteq> Some a" "\<forall>n. it_Right (d_heap d ! a) = Some n \<longrightarrow> n < length (d_heap d)"
    and fits: "item_end (d_heap d) a < 2 ^ 64"
  defines "h' \<equiv> d_heap (halves a off d)" and "r \<equiv> length (d_heap d)" and "s \<equiv> item_clock (d_heap d) a + unat off"
  shows "length h' = Suc r" "d_share (halves a off d) = d_share d" "d_store (halves a off d) = d_store d"
    and "item_clock h' a = item_clock (d_heap d) a" "item_end h' a = s" "item_clock h' r = s" "item_end h' r = item_end (d_heap d) a"
    and "item_chars (h' ! a) @ item_chars (h' ! r) = item_chars (d_heap d ! a)"
    and "Client (it_ID (h' ! a)) = Client (it_ID (d_heap d ! a))" "Client (it_ID (h' ! r)) = Client (it_ID (d_heap d ! a))"
    and "\<not> it_Deleted (h' ! a)" "\<not> it_Deleted (h' ! r)" "text_item (h' ! a)" "text_item (h' ! r)"
    and "it_Kind (h' ! a) = contentString" "it_Kind (h' ! r) = contentString"
    and "b < r \<Longrightarrow> b \<noteq> a \<Longrightarrow> h' ! b = (if it_Right (d_heap d ! a) = Some b then (d_heap d ! b)\<lparr>it_Left := Some r\<rparr> else d_heap d ! b)"
proof -
  let ?it = "d_heap d ! a" and ?k = "unat off"
  obtain str where c: "it_Content ?it = GString str" "item_runes ?it = runes_of str"
    "unat (it_Length ?it) = length (item_runes ?it)" "it_Kind ?it = contentString"
    using live_string [OF it] by blast
  note so = split_off_heap [OF a refl right(1) right(2) [rule_format], simplified]
  define f where "f = (\<lambda>i::Item. i\<lparr>it_Content := GString (string_of_runes (take ?k (item_runes ?it))), it_Length := off\<rparr>)"
  define ri where "ri = zero_Item\<lparr>it_ID := mkID (Client (it_ID ?it)) (Clock (it_ID ?it) + off), it_Left := Some a,
    it_Right := it_Right ?it, it_Parent := it_Parent ?it, it_Kind := contentString,
    it_Content := GString (string_of_runes (drop ?k (item_runes ?it))), it_Length := of_nat (length (item_runes ?it) - ?k),
    it_OriginLeft := Some (mkID (Client (it_ID ?it)) (Clock (it_ID ?it) + off - 1))\<rparr>"
  have h': "halves a off d = snd (split_off a f ri d)" by (simp add: halves_def f_def ri_def Let_def)
  have at: "h' ! a = (f ?it)\<lparr>it_Right := Some r\<rparr>" "h' ! r = ri" using so(4,5) by (simp_all add: h'_def h' r_def)
  have len: "length (runes_of str) < 2 ^ 64" using c(2,3) unat_lt64 [of "it_Length ?it"] by simp
  have clock: "unat (Clock (it_ID ?it) + off) = s"
    using off(2) c(3) fits by (simp add: unat_plus_ok s_def item_clock_def item_end_def)
  have rl: "unat (of_nat (length (item_runes ?it) - ?k) :: u64) = length (item_runes ?it) - ?k"
    using len c(2) by (intro unat_of_nat_ok) simp
  show "length h' = Suc r" using so(3) by (simp add: h'_def h' r_def)
  show "d_share (halves a off d) = d_share d" "d_store (halves a off d) = d_store d" unfolding h' by (subst so(2), simp)+
  show "item_clock h' a = item_clock (d_heap d) a" "item_end h' a = s"
    by (simp_all add: at f_def item_clock_def item_end_def s_def)
  show "item_clock h' r = s" using clock by (simp add: at ri_def item_clock_def)
  show "item_end h' r = item_end (d_heap d) a"
    using clock rl off(2) c(3) by (simp add: at ri_def item_clock_def item_end_def s_def del: of_nat_diff)
  show "Client (it_ID (h' ! a)) = Client (it_ID ?it)" "Client (it_ID (h' ! r)) = Client (it_ID ?it)"
    "\<not> it_Deleted (h' ! a)" "\<not> it_Deleted (h' ! r)" "it_Kind (h' ! a) = contentString" "it_Kind (h' ! r) = contentString"
    using it(2) c(4) by (simp_all add: at f_def ri_def zero_Item_def)
  have runes: "item_runes (h' ! a) = take ?k (item_runes ?it)" "item_runes (h' ! r) = drop ?k (item_runes ?it)"
    by (simp_all add: at f_def ri_def item_runes_def c)
  then show "text_item (h' ! a)" "text_item (h' ! r)"
    using c(4) off(2) rl by (simp_all add: text_item_def at f_def ri_def min_absorb2 del: of_nat_diff)
  have ids: "rune_ids (h' ! a) @ rune_ids (h' ! r) = rune_ids ?it"
  proof -
    have "[0..<length (item_runes ?it)] = [0..<?k] @ map (\<lambda>i. i + ?k) [0..<length (item_runes ?it) - ?k]"
      using off(2) upt_add_eq_append [of 0 ?k "length (item_runes ?it) - ?k"] by (simp add: map_add_upt)
    moreover have "Client (it_ID (h' ! a)) = Client (it_ID ?it)" "Clock (it_ID (h' ! a)) = Clock (it_ID ?it)"
      "it_ID (h' ! r) = mkID (Client (it_ID ?it)) (Clock (it_ID ?it) + off)"
      by (simp_all add: at f_def ri_def)
    ultimately show ?thesis using off(2) by (simp add: rune_ids_def runes min_absorb2 ac_simps)
  qed
  show "item_chars (h' ! a) @ item_chars (h' ! r) = item_chars ?it"
    using \<open>\<not> it_Deleted (h' ! a)\<close> \<open>\<not> it_Deleted (h' ! r)\<close> it(2) runes ids [symmetric]
    by (simp add: item_chars_def) (metis append_take_drop_id length_rune_ids zip_append)
  show "b < r \<Longrightarrow> b \<noteq> a \<Longrightarrow> h' ! b = (if it_Right ?it = Some b then (d_heap d ! b)\<lparr>it_Left := Some r\<rparr> else d_heap d ! b)"
    using so(6) by (simp add: h'_def h' r_def)
qed

lemma text_list_untouched:
  assumes t: "text_list d name as" and share: "d_share d' = d_share d" and len: "length (d_heap d) \<le> length (d_heap d')"
    and keep: "\<And>b. b \<in> set as \<Longrightarrow> agree (d_heap d' ! b) (d_heap d ! b) \<and> it_Right (d_heap d' ! b) = it_Right (d_heap d ! b)"
  shows "text_list d' name as"
proof (rule text_list_relink [OF t share])
  have l: "linked (d_heap d) as" "distinct as" "\<forall>b \<in> set as. text_item (d_heap d ! b)" using t by (auto simp: text_list_def)
  show "linked (d_heap d') as" by (rule linked_cong [OF l(1)]) (use keep len linked_bound [OF l(1)] in fastforce)
  show "distinct as" by (rule l(2))
  show "text_item (d_heap d' ! b)" if "b \<in> set as" for b using keep [OF that] l(3) that agree_text_item by blast
qed simp

lemma agree_chars: "agree i j \<Longrightarrow> it_ID i = it_ID j \<Longrightarrow> item_chars i = item_chars j"
  by (simp add: agree_def item_chars_def rune_ids_def item_runes_def)

lemma insertIntoStore_fields [simp]:
  "d_heap (insertIntoStore a d) = d_heap d" "d_share (insertIntoStore a d) = d_share d"
  "store_items (d_store (insertIntoStore a d)) c = (if c = Client (it_ID (d_heap d ! a))
     then insert_sorted (d_heap d) a (store_items (d_store d) c) else store_items (d_store d) c)"
  by (simp_all add: insertIntoStore_def Let_def store_items_def update_conv')

text \<open>The split of a live string strictly inside.\<close>

text \<open>What a split at \<open>s\<close> makes of the slice of client \<open>c\<close>: the item \<open>a\<close> and, behind it, a new one.\<close>

definition was_split :: "u64 \<Rightarrow> u64 \<Rightarrow> addr \<Rightarrow> Doc \<Rightarrow> Doc \<Rightarrow> bool" where
  "was_split c s a d d' \<longleftrightarrow> (let h = d_heap d; h' = d_heap d'; r = length h in
    (\<exists>us vs. store_items (d_store d) c = us @ a # vs \<and> store_items (d_store d') c = us @ a # r # vs \<and>
      a \<notin> set us \<and> a \<notin> set vs) \<and>
    clocks_ok h' (store_items (d_store d') c) \<and>
    (\<forall>b < r. b \<noteq> a \<longrightarrow> (\<exists>l. h' ! b = (h ! b)\<lparr>it_Left := l\<rparr>)) \<and>
    item_clock h' a = item_clock h a \<and> item_end h' a = unat s \<and> item_clock h' r = unat s \<and> item_end h' r = item_end h a \<and>
    (\<forall>b \<in> {a, r}. \<not> it_Deleted (h' ! b) \<and> text_item (h' ! b) \<and> Client (it_ID (h' ! b)) = c))"

lemma split_inside:
  assumes ok: "deletable d name c as" and g: "doc_getItem d (mkID c s) = Some a"
    and live: "\<not> it_Deleted (d_heap d ! a)" and k: "it_Kind (d_heap d ! a) = contentString"
    and ne: "Clock (it_ID (d_heap d ! a)) \<noteq> s"
  defines "r \<equiv> length (d_heap d)"
  obtains d' as' where "splitAtClock c s d = Ret d'" "doc_wf d'" "was_split c s a d d'"
    "text_list d' name as'" "chars (d_heap d') as' = chars (d_heap d) as" "set as' \<subseteq> insert r (set as)"
proof -
  let ?h = "d_heap d" and ?sl = "store_items (d_store d) c" and ?it = "d_heap d ! a"
  have wf: "doc_wf d" and t: "text_list d name as" and clk: "clocks_ok ?h ?sl" using ok by (auto simp: deletable_def)
  have cov: "a \<in> set ?sl" "item_clock ?h a \<le> unat s" "unat s < item_end ?h a" using getItem_covers(2) [OF clk g] by auto
  have cl: "Client (it_ID ?it) = c" and ti: "text_item ?it" using ok cov(1) live k by (auto simp: deletable_def)
  have bound: "b < r" if "b \<in> set ?sl" for b using store_items_bound [OF wf, of c] that by (simp add: list_all_iff r_def)
  have a: "a < length ?h" using bound [OF cov(1)] by (simp add: r_def)
  have chained: "chained ?h" using wf by (simp add: doc_wf_def)
  have right: "it_Right ?it \<noteq> Some a" "\<forall>n. it_Right ?it = Some n \<longrightarrow> n < length ?h"
    using behind_neq behind_right [OF chained a] chained_right_bound [OF chained a] by auto
  define off where "off = s - Clock (it_ID ?it)"
  have strict: "item_clock ?h a < unat s" using cov(2) ne by (auto simp: item_clock_def order.order_iff_strict word_unat_eq_iff)
  have uoff: "unat off = unat s - item_clock ?h a"
    unfolding off_def item_clock_def using cov(2) by (intro unat_minus_ok) (simp add: word_le_nat_alt item_clock_def)
  have off: "off \<noteq> 0" "unat off < length (item_runes ?it)"
    using strict uoff cov(3) item_length [OF ti live] live by (auto simp: item_end_def shown_def)
  have fits: "item_end ?h a < 2 ^ 64" by (rule clocks_ok_end [OF clk cov(1)])
  let ?e = "halves a off d"
  let ?d' = "insertIntoStore r ?e"
  note hv = halves_heap [OF ti live a off right fits, folded r_def]
  have at_s: "item_clock ?h a + unat off = unat s" using strict uoff by simp
  have run: "splitAtClock c s d = Ret ?d'"
    using splits_halve(2) [OF ti live a off right g cl] by (simp add: off_def r_def)
  obtain us vs where sl: "?sl = us @ a # vs" using cov(1) by (meson split_list)
  have out: "a \<notin> set us" "a \<notin> set vs"
    using clocks_ok_before [of ?h us a vs a] clocks_ok_after [of ?h us a vs a] clk sl cov(2,3) by auto
  have other: "\<exists>l. d_heap ?e ! b = (?h ! b)\<lparr>it_Left := l\<rparr>" if "b < r" "b \<noteq> a" for b
    using hv(17) [OF that] by (auto intro: exI [of _ "it_Left (?h ! b)"])
  have "item_clock (d_heap ?e) b = item_clock ?h b \<and> item_end (d_heap ?e) b = item_end ?h b" if "b \<in> set (us @ vs)" for b
  proof -
    have "b \<noteq> a" "b < r" using bound [of b] out that sl by auto
    then obtain l where "d_heap ?e ! b = (?h ! b)\<lparr>it_Left := l\<rparr>" using other by blast
    then show ?thesis by (simp add: item_clock_def item_end_def)
  qed
  moreover have "cuts ?h (unat s) a" using strict cov(3) by (simp add: cuts_def)
  ultimately have cut: "clocks_ok (d_heap ?e) (us @ a # r # vs)" "insert_sorted (d_heap ?e) r (us @ a # vs) = us @ a # r # vs"
    using clocks_ok_cut [of ?h us a vs "unat s" "d_heap ?e" r] clk sl hv(4-7) at_s by simp_all
  have sl': "store_items (d_store ?d') c = us @ a # r # vs" using hv(3,10) cl sl cut(2) by simp
  have wf': "doc_wf ?d'" using splitAtClock_wf [OF wf, of c s] run by simp
  have d: "distinct as" "\<And>b. b \<in> set as \<Longrightarrow> b < r"
    using t linked_bound [of ?h as] by (auto simp: text_list_def r_def)
  have same: "item_chars (d_heap ?e ! b) = item_chars (?h ! b)" if "b < r" "b \<noteq> a" for b
    using other [OF that] by (auto simp: item_chars_def rune_ids_def item_runes_def)
  have "\<exists>as'. text_list ?d' name as' \<and> chars (d_heap ?d') as' = chars ?h as \<and> set as' \<subseteq> insert r (set as)"
  proof (cases "a \<in> set as")
    case True
    then obtain xs ys where as: "as = xs @ a # ys" by (meson split_list)
    have "unat off < length (shown ?it)" "0 < unat off" using off live by (simp_all add: shown_def unat_gt_0)
    then have "text_list (store_add r ?e) name (xs @ a # r # ys)"
      using splitItemAt_text [of d name xs a ys off] t as live splits_halve(1) [OF ti live a off right] by (auto simp: r_def)
    then have "text_list ?d' name (xs @ a # r # ys)" by (simp add: text_list_def)
    moreover have "chars (d_heap ?e) xs = chars ?h xs" "chars (d_heap ?e) ys = chars ?h ys"
      using same d as by (auto intro!: chars_cong)
    then have "chars (d_heap ?d') (xs @ a # r # ys) = chars ?h as"
      using hv(8) by (simp add: as)
    moreover have "set (xs @ a # r # ys) \<subseteq> insert r (set as)" by (auto simp: as)
    ultimately show ?thesis by blast
  next
    case False
    have "agree (d_heap ?e ! b) (?h ! b) \<and> it_Right (d_heap ?e ! b) = it_Right (?h ! b)" if "b \<in> set as" for b
    proof -
      have "b \<noteq> a" "b < r" using d(2) that False by auto
      then obtain l where "d_heap ?e ! b = (?h ! b)\<lparr>it_Left := l\<rparr>" using other by blast
      then show ?thesis by (simp add: agree_def)
    qed
    then have "text_list ?d' name as" using hv(1,2) by (intro text_list_untouched [OF t]) (simp_all add: r_def)
    moreover have "chars (d_heap ?d') as = chars ?h as" using same d(2) False by (auto intro!: chars_cong)
    ultimately show ?thesis by blast
  qed
  then obtain as' where "text_list ?d' name as'" "chars (d_heap ?d') as' = chars ?h as" "set as' \<subseteq> insert r (set as)" by blast
  then show thesis
    using that [of ?d' as'] run wf' sl sl' out cut(1) other hv(4-14) at_s cl by (auto simp: was_split_def Let_def r_def)
qed

text \<open>Every item of the slice is one of the two halves, or as it was.\<close>

lemma was_split_cases:
  assumes split: "was_split c s a d d'" and wf: "doc_wf d" and b: "b \<in> set (store_items (d_store d') c)"
  obtains (half) "b = a \<or> b = length (d_heap d)" "\<not> it_Deleted (d_heap d' ! b)" "text_item (d_heap d' ! b)" "Client (it_ID (d_heap d' ! b)) = c"
  | (other) l where "b \<in> set (store_items (d_store d) c)" "b \<noteq> a" "d_heap d' ! b = (d_heap d ! b)\<lparr>it_Left := l\<rparr>"
proof -
  let ?r = "length (d_heap d)"
  obtain us vs where sl: "store_items (d_store d) c = us @ a # vs" "store_items (d_store d') c = us @ a # ?r # vs"
    "a \<notin> set us" "a \<notin> set vs"
    using split unfolding was_split_def Let_def by blast
  show thesis
  proof (cases "b = a \<or> b = ?r")
    case True
    then show ?thesis using half split by (auto simp: was_split_def Let_def)
  next
    case False
    then have old: "b \<in> set (store_items (d_store d) c)" using b sl by auto
    then have "b < ?r" using store_items_bound [OF wf, of c] by (simp add: list_all_iff)
    then obtain l where "d_heap d' ! b = (d_heap d ! b)\<lparr>it_Left := l\<rparr>" using split False by (auto simp: was_split_def Let_def)
    then show ?thesis using other old False by blast
  qed
qed

lemma relinked_cuts: "h' ! b = (h ! b)\<lparr>it_Left := l\<rparr> \<Longrightarrow> cuts h' e b = cuts h e b"
  by (simp add: cuts_def item_clock_def item_end_def)

lemma was_split_deletable:
  assumes ok: "deletable d name c as" and split: "was_split c s a d d'" and wf: "doc_wf d'"
    and t: "text_list d' name as'" "set as' \<subseteq> insert (length (d_heap d)) (set as)"
  shows "deletable d' name c as'"
  unfolding deletable_def
proof (intro conjI ballI impI)
  have wf0: "doc_wf d" and t0: "text_list d name as" using ok by (auto simp: deletable_def)
  show "clocks_ok (d_heap d') (store_items (d_store d') c)" using split by (simp add: was_split_def Let_def)
  fix b
  show "Client (it_ID (d_heap d' ! b)) = c" if b: "b \<in> set (store_items (d_store d') c)"
    by (rule was_split_cases [OF split wf0 b]) (use ok in \<open>auto simp: deletable_def\<close>)
  show "text_item (d_heap d' ! b)" if b: "b \<in> set (store_items (d_store d') c)"
    and live: "\<not> it_Deleted (d_heap d' ! b) \<and> it_Kind (d_heap d' ! b) = contentString"
    by (rule was_split_cases [OF split wf0 b]) (use ok live in \<open>auto simp: deletable_def text_item_def item_runes_def\<close>)
  show "b \<in> set (store_items (d_store d') c)" if b: "b \<in> set as'" "Client (it_ID (d_heap d' ! b)) = c"
  proof (cases "b = a \<or> b = length (d_heap d)")
    case False
    then have "b \<in> set as" using b(1) t(2) by auto
    moreover from this have "b < length (d_heap d)" using t0 linked_bound [of "d_heap d" as] by (auto simp: text_list_def)
    moreover from this obtain l where "d_heap d' ! b = (d_heap d ! b)\<lparr>it_Left := l\<rparr>"
      using split False by (auto simp: was_split_def Let_def)
    ultimately have "b \<in> set (store_items (d_store d) c)" using ok b(2) by (simp add: deletable_def)
    then show ?thesis using split by (auto simp: was_split_def Let_def)
  qed (use split in \<open>auto simp: was_split_def Let_def\<close>)
qed (use wf t(1) in simp_all)

lemma was_split_uncut:
  assumes split: "was_split c s a d d'" and wf: "doc_wf d"
    and cov: "item_clock (d_heap d) a \<le> unat s" "unat s < item_end (d_heap d) a"
    and un: "\<And>b. b \<in> set (store_items (d_store d) c) \<Longrightarrow> b \<noteq> a \<or> e \<noteq> unat s \<Longrightarrow> it_Kind (d_heap d ! b) = contentString \<Longrightarrow>
      \<not> cuts (d_heap d) e b"
    and a: "it_Kind (d_heap d ! a) = contentString"
  shows "uncut d' c e"
  unfolding uncut_def
proof (intro ballI impI)
  fix b assume b: "b \<in> set (store_items (d_store d') c)" "it_Kind (d_heap d' ! b) = contentString"
  show "\<not> cuts (d_heap d') e b"
  proof (rule was_split_cases [OF split wf b(1)])
    assume "b = a \<or> b = length (d_heap d)"
    moreover have "a \<in> set (store_items (d_store d) c)" using split by (auto simp: was_split_def Let_def)
    then have "e \<noteq> unat s \<longrightarrow> \<not> cuts (d_heap d) e a" using un a by blast
    ultimately show ?thesis using split cov by (auto simp: was_split_def Let_def cuts_def)
  next
    fix l assume "b \<in> set (store_items (d_store d) c)" "b \<noteq> a" "d_heap d' ! b = (d_heap d ! b)\<lparr>it_Left := l\<rparr>"
    then show ?thesis using un b(2) relinked_cuts by simp
  qed
qed

lemma was_split_live:
  assumes split: "was_split c s a d d'" and wf: "doc_wf d" and live: "live_at d c e"
  shows "live_at d' c e"
  unfolding live_at_def
proof (intro ballI impI)
  fix b assume b: "b \<in> set (store_items (d_store d') c)" "it_Deleted (d_heap d' ! b)"
  show "\<not> cuts (d_heap d') e b"
    by (rule was_split_cases [OF split wf b(1)]) (use b(2) live relinked_cuts in \<open>auto simp: live_at_def\<close>)
qed

lemma splitAtClock_chars:
  assumes ok: "deletable d name c as" and live: "live_at d c (unat s)"
  shows "\<exists>d' as'. splitAtClock c s d = Ret d' \<and> deletable d' name c as' \<and>
    chars (d_heap d') as' = chars (d_heap d) as \<and> uncut d' c (unat s) \<and>
    (\<forall>e. live_at d c e \<longrightarrow> live_at d' c e) \<and> (\<forall>e. uncut d c e \<longrightarrow> uncut d' c e)"
proof -
  let ?h = "d_heap d" and ?sl = "store_items (d_store d) c"
  have wf: "doc_wf d" and clk: "clocks_ok ?h ?sl" using ok by (auto simp: deletable_def)
  have stay: ?thesis if "splitAtClock c s d = Ret d" "uncut d c (unat s)"
    using that ok by blast
  note g = getItem_covers [OF clk, of s]
  show ?thesis
  proof (cases "doc_getItem d (mkID c s)")
    case None
    then show ?thesis using g(1) by (intro stay) (simp_all add: splitAtClock_def uncut_def)
  next
    case (Some a)
    have cov: "a \<in> set ?sl" "item_clock ?h a \<le> unat s" "unat s < item_end ?h a" using g(2) [OF Some] by auto
    have only: "b = a" if "b \<in> set ?sl" "cuts ?h (unat s) b" for b
      using cover_unique [OF clk that(1) cov(1), of "unat s"] that(2) cov by (simp add: cuts_def)
    consider "Clock (it_ID (?h ! a)) = s" | "Clock (it_ID (?h ! a)) \<noteq> s" "it_Kind (?h ! a) \<noteq> contentString"
      | "Clock (it_ID (?h ! a)) \<noteq> s" "it_Kind (?h ! a) = contentString" by blast
    then show ?thesis
    proof cases
      case 1
      then have "\<not> cuts ?h (unat s) a" by (auto simp: cuts_def item_clock_def)
      then show ?thesis using 1 Some only by (intro stay) (auto simp: splitAtClock_def uncut_def)
    next
      case 2
      then show ?thesis using Some only by (intro stay) (auto simp: splitAtClock_def uncut_def)
    next
      case 3
      then have "cuts ?h (unat s) a"
        using cov by (auto simp: cuts_def item_clock_def order.order_iff_strict word_unat_eq_iff)
      then have "\<not> it_Deleted (?h ! a)" using live cov(1) by (auto simp: live_at_def)
      from split_inside [OF ok Some this 3(2,1)] obtain d' as' where d': "splitAtClock c s d = Ret d'" "doc_wf d'"
        "was_split c s a d d'" "text_list d' name as'" "chars (d_heap d') as' = chars ?h as" "set as' \<subseteq> insert (length ?h) (set as)" .
      note uncut = was_split_uncut [OF d'(3) wf cov(2,3) _ 3(2)]
      have "uncut d' c (unat s)" by (rule uncut) (use only in blast)
      moreover have "uncut d' c e" if "uncut d c e" for e by (rule uncut) (use that in \<open>simp add: uncut_def\<close>)
      ultimately show ?thesis
        using d'(1,5) was_split_deletable [OF ok d'(3,2,4,6)] was_split_live [OF d'(3) wf] by blast
    qed
  qed
qed

section \<open>Marking the range\<close>

lemma mark_range_fields [simp]:
  "d_share (mark_range t k e as d) = d_share d" "d_store (mark_range t k e as d) = d_store d"
  "length (d_heap (mark_range t k e as d)) = length (d_heap d)"
  by (induction t k e as d rule: mark_range.induct) (simp_all add: Let_def)

text \<open>In clock order, the early exit skips nothing that is in the range.\<close>

lemma mark_range_heap:
  assumes "clocks_ok (d_heap d) as" "list_all (\<lambda>a. a < length (d_heap d)) as"
  shows "d_heap (mark_range t k e as d) ! b =
    (if b \<in> set as \<and> k \<le> Clock (it_ID (d_heap d ! b)) \<and> Clock (it_ID (d_heap d ! b)) < e
     then (d_heap d ! b)\<lparr>it_Deleted := True\<rparr> else d_heap d ! b)"
  using assms
proof (induction as arbitrary: d)
  case (Cons a as)
  let ?it = "d_heap d ! a" and ?mark = "\<lambda>i::Item. i\<lparr>it_Deleted := True\<rparr>"
  have later: "Clock (it_ID ?it) \<le> Clock (it_ID (d_heap d ! v))" if "v \<in> set as" for v
    using clocks_ok_after [of "d_heap d" "[]" a as v] Cons.prems(1) that
    by (simp add: item_end_def item_clock_def word_le_nat_alt)
  show ?case
  proof (cases "e \<le> Clock (it_ID ?it)")
    case True
    then have "\<not> (v \<in> set (a # as) \<and> Clock (it_ID (d_heap d ! v)) < e)" for v
      using later [of v] by (auto simp: not_less intro: order.trans)
    then show ?thesis using True by (simp add: Let_def) blast
  next
    case early: False
    show ?thesis
    proof (cases "k \<le> Clock (it_ID ?it) \<and> \<not> it_Deleted ?it")
      case True
      let ?d1 = "upd_item a ?mark d"
      have h1: "d_heap ?d1 ! v = (if v = a then ?mark ?it else d_heap d ! v)" for v
        using Cons.prems(2) by (auto simp: upd_item_def nth_list_update)
      have "clocks_ok (d_heap ?d1) as"
        by (rule clocks_ok_cong' [of "d_heap d"])
          (use Cons.prems(1) h1 in \<open>cases as; auto simp: item_clock_def item_end_def\<close>)+
      then show ?thesis
        using Cons.IH [of "tx_addDeletedItem t a ?d1"] Cons.prems(2) True early h1 by (auto simp: Let_def)
    next
      case False
      have "clocks_ok (d_heap d) as" using Cons.prems(1) by (cases as) auto
      moreover have "(d_heap d ! a)\<lparr>it_Deleted := True\<rparr> = d_heap d ! a" if "it_Deleted ?it" using that by simp
      ultimately show ?thesis using Cons.IH [of d] Cons.prems(2) False early by (auto simp: Let_def)
    qed
  qed
qed simp

section \<open>The delete range\<close>

lemma item_chars_client: "(i, x) \<in> set (item_chars it) \<Longrightarrow> Client i = Client (it_ID it)"
  by (auto simp: item_chars_def rune_ids_def set_zip split: if_splits)

lemma item_chars_range:
  assumes "item_end h a < 2 ^ 64" "unat (it_Length (h ! a)) = length (item_runes (h ! a))" "(i, x) \<in> set (item_chars (h ! a))"
  shows "Client i = Client (it_ID (h ! a))" "item_clock h a \<le> unat (Clock i)" "unat (Clock i) < item_end h a"
proof -
  obtain n where n: "n < length (item_runes (h ! a))" "i = mkID (Client (it_ID (h ! a))) (Clock (it_ID (h ! a)) + of_nat n)"
    using assms(3) by (auto simp: item_chars_def rune_ids_def set_zip split: if_splits)
  have fits: "unat (Clock (it_ID (h ! a))) + n < 2 ^ 64" using assms(1,2) n(1) by (simp add: item_end_def item_clock_def)
  then have "unat (of_nat n :: u64) = n" by (intro unat_of_nat_ok) simp
  then have "unat (Clock i) = item_clock h a + n" using fits n(2) by (simp add: unat_plus_ok item_clock_def)
  then show "Client i = Client (it_ID (h ! a))" "item_clock h a \<le> unat (Clock i)" "unat (Clock i) < item_end h a"
    using n assms(2) by (simp_all add: item_end_def)
qed

lemma applyDeleteRange_chars:
  assumes ok: "deletable d name c as" and live: "live_at d c (unat k)" "live_at d c (unat (k + n))"
  shows "\<exists>d' as'. applyDeleteRange t c k n d = Ret d' \<and> text_list d' name as' \<and>
    chars (d_heap d') as' = filter (\<lambda>(i, x). \<not> id_in_range c k (k + n) i) (chars (d_heap d) as)"
proof -
  let ?e = "k + n"
  obtain d1 as1 where 1: "splitAtClock c k d = Ret d1" "deletable d1 name c as1" "chars (d_heap d1) as1 = chars (d_heap d) as"
    "uncut d1 c (unat k)" "live_at d1 c (unat ?e)"
    using splitAtClock_chars [OF ok live(1)] live(2) by blast
  obtain d2 as2 where 2: "splitAtClock c ?e d1 = Ret d2" "deletable d2 name c as2" "chars (d_heap d2) as2 = chars (d_heap d) as"
    "uncut d2 c (unat ?e)" "uncut d2 c (unat k)"
    using splitAtClock_chars [OF 1(2,5)] 1(3,4) by metis
  let ?h = "d_heap d2" and ?sl = "store_items (d_store d2) c"
  let ?d3 = "mark_range t k ?e ?sl d2"
  have wf: "doc_wf d2" and tl: "text_list d2 name as2" and clk: "clocks_ok ?h ?sl"
    and cl: "\<And>a. a \<in> set ?sl \<Longrightarrow> Client (it_ID (?h ! a)) = c"
    and own: "\<And>a. a \<in> set as2 \<Longrightarrow> Client (it_ID (?h ! a)) = c \<Longrightarrow> a \<in> set ?sl"
    using 2(2) by (auto simp: deletable_def)
  have run: "applyDeleteRange t c k n d = Ret ?d3" using 1(1) 2(1) by (simp add: applyDeleteRange_def Let_def)
  have heap: "d_heap ?d3 ! b = (if b \<in> set ?sl \<and> k \<le> Clock (it_ID (?h ! b)) \<and> Clock (it_ID (?h ! b)) < ?e
      then (?h ! b)\<lparr>it_Deleted := True\<rparr> else ?h ! b)" for b
    by (rule mark_range_heap [OF clk store_items_bound [OF wf]])
  have items: "text_item (d_heap ?d3 ! b)" if "b \<in> set as2" for b
    using tl that heap by (auto simp: text_list_def text_item_def item_runes_def)
  have "linked (d_heap ?d3) as2"
    by (rule linked_cong [of ?h]) (use tl heap linked_bound [of ?h as2] in \<open>auto simp: text_list_def\<close>)
  then have "text_list ?d3 name as2" using tl items by (intro text_list_relink [OF tl]) (auto simp: text_list_def)
  moreover have "item_chars (d_heap ?d3 ! b) = filter (\<lambda>(i, x). \<not> id_in_range c k ?e i) (item_chars (?h ! b))"
    if b: "b \<in> set as2" for b
  proof (cases "it_Deleted (?h ! b)")
    case True
    then show ?thesis using heap [of b] by (simp add: item_chars_def)
  next
    case False
    then have ti: "text_item (?h ! b)" using tl b by (auto simp: text_list_def)
    obtain kind: "it_Kind (?h ! b) = contentString" and len: "unat (it_Length (?h ! b)) = length (item_runes (?h ! b))"
      using live_string [OF ti False] by metis
    show ?thesis
    proof (cases "Client (it_ID (?h ! b)) = c")
      case True
      then have sl: "b \<in> set ?sl" using own b by blast
      have uncut: "\<not> cuts ?h (unat k) b" "\<not> cuts ?h (unat ?e) b" using 2(4,5) sl kind by (auto simp: uncut_def)
      note ids = item_chars_range [OF clocks_ok_end [OF clk sl] len]
      let ?in = "k \<le> Clock (it_ID (?h ! b)) \<and> Clock (it_ID (?h ! b)) < ?e"
      have "id_in_range c k ?e i = ?in" if "(i, x) \<in> set (item_chars (?h ! b))" for i x
        using ids [OF that] uncut True
        by (auto simp: id_in_range_def cuts_def item_clock_def word_le_nat_alt word_less_nat_alt)
      then have "filter (\<lambda>(i, x). \<not> id_in_range c k ?e i) (item_chars (?h ! b)) = (if ?in then [] else item_chars (?h ! b))"
        by (auto simp: filter_empty_conv filter_id_conv)
      then show ?thesis using heap [of b] sl by (simp add: item_chars_def)
    next
      case other: False
      then have "b \<notin> set ?sl" using cl by blast
      moreover have "filter (\<lambda>(i, x). \<not> id_in_range c k ?e i) (item_chars (?h ! b)) = item_chars (?h ! b)"
        using item_chars_client other by (fastforce simp: id_in_range_def filter_id_conv)
      ultimately show ?thesis using heap [of b] by simp
    qed
  qed
  then have "chars (d_heap ?d3) as2 = filter (\<lambda>(i, x). \<not> id_in_range c k ?e i) (chars ?h as2)" by (rule filter_chars)
  ultimately show ?thesis using run 2(3) by metis
qed

end
