(* ===== verification/Convergence.thy ===== *)
theory Convergence
  imports RemoteDelete "HOL-Library.Product_Lexorder"
begin

text \<open>
  Convergence of replicas that receive. \<open>Text.Insert\<close> and \<open>Array.Insert\<close> give an item a left origin
  and never a right one. Such items form a list in which each one sinks, from its origin, past the
  items with greater keys; two orders of arrival in which every item comes after its origin build
  the same list. The argument is about lists and a contract of four laws (\<open>replicated_list\<close>); the
  items of \<open>integrate.go\<close> meet it.
\<close>

section \<open>Lists built by sinking\<close>

fun sink :: "('p \<Rightarrow> 'k::linorder) \<Rightarrow> 'p \<Rightarrow> 'p list \<Rightarrow> 'p list" where
  "sink key x [] = [x]"
| "sink key x (y # ys) = (if key y < key x then x # y # ys else y # sink key x ys)"

fun sink_after :: "('p \<Rightarrow> 'k::linorder) \<Rightarrow> ('p \<Rightarrow> 'o \<Rightarrow> bool) \<Rightarrow> 'o \<Rightarrow> 'p \<Rightarrow> 'p list \<Rightarrow> 'p list" where
  "sink_after key owns p x [] = [x]"
| "sink_after key owns p x (y # ys) = y # (if owns y p then sink key x ys else sink_after key owns p x ys)"

definition put :: "('p \<Rightarrow> 'k::linorder) \<Rightarrow> ('p \<Rightarrow> 'o \<Rightarrow> bool) \<Rightarrow> ('p \<Rightarrow> 'o option) \<Rightarrow> 'p \<Rightarrow> 'p list \<Rightarrow> 'p list" where
  "put key owns origin x ys = (case origin x of None \<Rightarrow> sink key x ys | Some p \<Rightarrow> sink_after key owns p x ys)"

text \<open>An order of arrival in which each item is ready when it comes.\<close>

fun causal :: "('p set \<Rightarrow> 'p \<Rightarrow> bool) \<Rightarrow> 'p set \<Rightarrow> 'p list \<Rightarrow> bool" where
  "causal ready B [] = True"
| "causal ready B (x # xs) = (ready B x \<and> causal ready (insert x B) xs)"

lemma set_sink [simp]: "set (sink key x ys) = insert x (set ys)"
  by (induction ys) auto

lemma set_sink_after [simp]: "set (sink_after key owns p x ys) = insert x (set ys)"
  by (induction ys) auto

lemma set_put [simp]: "set (put key owns origin x ys) = insert x (set ys)"
  by (simp add: put_def split: option.split)

lemma set_fold_put: "set (fold (put key owns origin) xs L) = set xs \<union> set L"
  by (induction xs arbitrary: L) auto

lemma sink_commute:
  "key x \<noteq> key y \<Longrightarrow> sink key x (sink key y L) = sink key y (sink key x L)"
  by (induction L) auto

lemma sink_after_sink:
  "\<exists>z \<in> set L. owns z p \<Longrightarrow> \<not> owns y p \<Longrightarrow> key x \<noteq> key y \<Longrightarrow>
   sink_after key owns p x (sink key y L) = sink key y (sink_after key owns p x L)"
  by (induction L) (auto simp: sink_commute)

lemma sink_after_commute:
  "\<exists>z \<in> set L. owns z p \<Longrightarrow> \<exists>z \<in> set L. owns z q \<Longrightarrow> \<not> owns y p \<Longrightarrow> \<not> owns x q \<Longrightarrow> key x \<noteq> key y \<Longrightarrow>
   sink_after key owns p x (sink_after key owns q y L) = sink_after key owns q y (sink_after key owns p x L)"
proof (induction L)
  case (Cons z L)
  show ?case
  proof (cases "owns z p")
    case True
    then show ?thesis
      using Cons.prems sink_after_sink [of L owns q x key y] by (cases "owns z q") (auto simp: sink_commute)
  next
    case False
    then show ?thesis
      using Cons sink_after_sink [of L owns p y key x] by (cases "owns z q") auto
  qed
qed simp

lemma causal_append: "causal ready B (xs @ ys) \<longleftrightarrow> causal ready B xs \<and> causal ready (B \<union> set xs) ys"
  by (induction xs arbitrary: B) auto

locale replicated_list =
  fixes key :: "'p \<Rightarrow> 'k::linorder" and owns :: "'p \<Rightarrow> 'o \<Rightarrow> bool" and origin :: "'p \<Rightarrow> 'o option"
    and ready :: "'p set \<Rightarrow> 'p \<Rightarrow> bool"
  assumes ready_origin: "ready B x \<Longrightarrow> origin x = Some p \<Longrightarrow> \<exists>z \<in> B. owns z p"
    and ready_key: "ready B x \<Longrightarrow> y \<in> B \<Longrightarrow> key x \<noteq> key y"
    and ready_apart: "ready B x \<Longrightarrow> y \<in> B \<Longrightarrow> owns x p \<Longrightarrow> \<not> owns y p"
    and ready_without: "ready (insert y B) x \<Longrightarrow> (\<And>p. origin x = Some p \<Longrightarrow> \<not> owns y p) \<Longrightarrow> ready B x"
begin

lemma put_commute:
  assumes "key x \<noteq> key y"
    and "\<And>p. origin x = Some p \<Longrightarrow> \<not> owns y p \<and> (\<exists>z \<in> set L. owns z p)"
    and "\<And>p. origin y = Some p \<Longrightarrow> \<not> owns x p \<and> (\<exists>z \<in> set L. owns z p)"
  shows "put key owns origin x (put key owns origin y L) = put key owns origin y (put key owns origin x L)"
  using assms
  by (auto simp: put_def sink_commute sink_after_sink sink_after_commute split: option.split)

lemma causal_apart:
  "causal ready B xs \<Longrightarrow> y \<in> B \<Longrightarrow> x \<in> set xs \<Longrightarrow> key x \<noteq> key y \<and> (owns x p \<longrightarrow> \<not> owns y p)"
  by (induction xs arbitrary: B) (auto dest: ready_key ready_apart)

lemma causal_origin:
  "causal ready B xs \<Longrightarrow> x \<in> set xs \<Longrightarrow> origin x = Some p \<Longrightarrow> \<exists>z \<in> B \<union> set xs. owns z p"
proof (induction xs arbitrary: B)
  case (Cons y xs)
  then show ?case
  proof (cases "x = y")
    case True
    then show ?thesis using Cons.prems ready_origin [of B y p] by auto
  next
    case False
    then show ?thesis using Cons.prems Cons.IH [of "insert y B"] by auto
  qed
qed simp

lemma causal_without:
  "causal ready (insert x B) vs \<Longrightarrow> (\<And>v p. v \<in> set vs \<Longrightarrow> origin v = Some p \<Longrightarrow> \<not> owns x p) \<Longrightarrow> causal ready B vs"
proof (induction vs arbitrary: B)
  case (Cons v vs)
  have "ready B v" by (rule ready_without [of x B v]) (use Cons.prems in auto)
  moreover have "causal ready (insert v B) vs"
  proof (rule Cons.IH)
    show "causal ready (insert x (insert v B)) vs" using Cons.prems(1) by (simp add: insert_commute [of x v])
    show "\<not> owns x p" if "u \<in> set vs" "origin u = Some p" for u p using Cons.prems(2) [of u p] that by simp
  qed
  ultimately show ?case by simp
qed simp

lemma put_last:
  assumes "causal ready B vs" "B \<subseteq> set L"
    and "\<And>p. origin x = Some p \<Longrightarrow> \<exists>z \<in> set L. owns z p"
    and "\<And>v. v \<in> set vs \<Longrightarrow> key v \<noteq> key x"
    and "\<And>v p. v \<in> set vs \<Longrightarrow> origin x = Some p \<Longrightarrow> \<not> owns v p"
    and "\<And>v p. v \<in> set vs \<Longrightarrow> origin v = Some p \<Longrightarrow> \<not> owns x p"
  shows "fold (put key owns origin) vs (put key owns origin x L) =
    put key owns origin x (fold (put key owns origin) vs L)"
  using assms
proof (induction vs arbitrary: B L)
  case (Cons v vs)
  have "put key owns origin v (put key owns origin x L) = put key owns origin x (put key owns origin v L)"
  proof (rule put_commute)
    show "key v \<noteq> key x" using Cons.prems(4) by simp
    show "\<not> owns x p \<and> (\<exists>z \<in> set L. owns z p)" if "origin v = Some p" for p
      using Cons.prems(1,2,6) that by (auto dest!: ready_origin)
    show "\<not> owns v p \<and> (\<exists>z \<in> set L. owns z p)" if "origin x = Some p" for p
      using Cons.prems(3,5) that by auto
  qed
  moreover have "fold (put key owns origin) vs (put key owns origin x (put key owns origin v L)) =
      put key owns origin x (fold (put key owns origin) vs (put key owns origin v L))"
  proof (rule Cons.IH [of "insert v B"])
    show "\<not> owns x p" if "u \<in> set vs" "origin u = Some p" for u p using Cons.prems(6) [of u p] that by simp
  qed (use Cons.prems(1-5) in auto)
  ultimately show ?case by simp
qed simp

theorem orders_agree:
  assumes "causal ready {} xs" "causal ready {} ys" "mset xs = mset ys"
  shows "fold (put key owns origin) xs [] = fold (put key owns origin) ys []"
  using assms
proof (induction ys arbitrary: xs rule: rev_induct)
  case (snoc x ys)
  have "x \<in> set xs" using snoc.prems(3) by (metis in_set_conv_decomp mset_eq_setD)
  then obtain us vs where xs: "xs = us @ x # vs" by (auto simp: in_set_conv_decomp)
  have same: "mset (us @ vs) = mset ys" using snoc.prems(3) by (simp add: xs)
  then have sets: "set us \<union> set vs = set ys" by (metis mset_eq_setD set_append)
  have ys: "causal ready {} ys" "ready (set ys) x" using snoc.prems(2) by (simp_all add: causal_append)
  have us: "causal ready {} us" "ready (set us) x" "causal ready (insert x (set us)) vs"
    using snoc.prems(1) by (simp_all add: xs causal_append)
  have not_x: "\<not> owns x p" if "v \<in> set vs" "origin v = Some p" for v p
  proof -
    have "\<exists>z \<in> set ys. owns z p" using causal_origin [OF ys(1) _ that(2)] that(1) sets by auto
    then show ?thesis using ready_apart [OF ys(2)] by blast
  qed
  have not_v: "\<not> owns v p" if "v \<in> set vs" "origin x = Some p" for v p
  proof -
    have "\<exists>z \<in> set us. owns z p" by (rule ready_origin [OF us(2) that(2)])
    then show ?thesis using causal_apart [OF us(3), of _ v p] that(1) by auto
  qed
  have without: "causal ready (set us) vs" by (rule causal_without [OF us(3)]) (rule not_x)
  have "fold (put key owns origin) (x # vs) (fold (put key owns origin) us []) =
      put key owns origin x (fold (put key owns origin) vs (fold (put key owns origin) us []))"
    using put_last [OF without, of "fold (put key owns origin) us []" x] ready_origin [OF us(2)]
      causal_apart [OF us(3), of x] not_x not_v
    by (simp add: set_fold_put)
  moreover have "fold (put key owns origin) (us @ vs) [] = fold (put key owns origin) ys []"
    using us(1) without by (intro snoc.IH ys(1) same) (simp add: causal_append)
  ultimately show ?case by (simp add: xs)
qed simp

end


section \<open>The items of integrate.go\<close>

text \<open>
  The order that \<open>lssIsBefore\<close> compares by, what an item covers, and when an item can be
  integrated: its left origin is there, and it starts where its client's earlier items end or later.
\<close>

definition item_key :: "Item \<Rightarrow> u64 \<times> ID" where
  "item_key it = ((case it_OriginLeft it of Some p \<Rightarrow> Clock p + 1 | None \<Rightarrow> 0), it_ID it)"

definition item_start :: "Item \<Rightarrow> nat" where
  "item_start it = unat (Clock (it_ID it))"

definition item_stop :: "Item \<Rightarrow> nat" where
  "item_stop it = item_start it + unat (it_Length it)"

definition item_owns :: "Item \<Rightarrow> ID \<Rightarrow> bool" where
  "item_owns it p \<longleftrightarrow> Client (it_ID it) = Client p \<and> item_start it \<le> unat (Clock p) \<and> unat (Clock p) < item_stop it"

definition item_ready :: "Item set \<Rightarrow> Item \<Rightarrow> bool" where
  "item_ready B it \<longleftrightarrow> item_stop it < 2 ^ 64 \<and>
    (\<forall>i \<in> B. Client (it_ID i) = Client (it_ID it) \<longrightarrow> item_start i < item_start it \<and> item_stop i \<le> item_start it) \<and>
    (case it_OriginLeft it of None \<Rightarrow> True | Some p \<Rightarrow> \<exists>i \<in> B. item_owns i p)"

lemma less_pair: "(b, y) < (a :: 'a::linorder, x :: 'b::linorder) \<longleftrightarrow> (if a \<noteq> b then b < a else y < x)"
  by auto

lemma lssIsBefore_key: "lssIsBefore it other \<longleftrightarrow> item_key other < item_key it"
  unfolding lssIsBefore_def item_key_def less_pair by (simp add: Let_def compareIDs_greater)

interpretation inserts: replicated_list item_key item_owns it_OriginLeft item_ready
proof
  fix B x y p
  show "item_ready B x \<Longrightarrow> it_OriginLeft x = Some p \<Longrightarrow> \<exists>z \<in> B. item_owns z p" by (simp add: item_ready_def)
  show "item_ready B x \<Longrightarrow> y \<in> B \<Longrightarrow> item_key x \<noteq> item_key y" by (force simp: item_ready_def item_key_def item_start_def)
  show "item_ready B x \<Longrightarrow> y \<in> B \<Longrightarrow> item_owns x p \<Longrightarrow> \<not> item_owns y p" by (force simp: item_ready_def item_owns_def)
  show "item_ready (insert y B) x \<Longrightarrow> (\<And>p. it_OriginLeft x = Some p \<Longrightarrow> \<not> item_owns y p) \<Longrightarrow> item_ready B x"
    by (auto simp: item_ready_def split: option.splits)
qed

text \<open>
  An item as \<open>Text.Insert\<close> sends it: without a right origin; one without a left origin names the
  parent, the others take the parent from their left origin.
\<close>

definition plain_insert :: "gostring \<Rightarrow> Item \<Rightarrow> bool" where
  "plain_insert name it \<longleftrightarrow> text_item it \<and> \<not> it_Deleted it \<and> it_OriginRight it = None \<and> it_Parent it = None \<and>
    it_parentName it = (if it_OriginLeft it = None then name else [])"

definition arrange :: "Item list \<Rightarrow> Item list" where
  "arrange its = fold (put item_key item_owns it_OriginLeft) its []"

text \<open>All of an item but its links and its parent, which integration fills in.\<close>

definition alike :: "Item \<Rightarrow> Item \<Rightarrow> bool" where
  "alike i j \<longleftrightarrow> it_ID i = it_ID j \<and> it_OriginLeft i = it_OriginLeft j \<and>
    it_OriginRight i = it_OriginRight j \<and> it_ParentSub i = it_ParentSub j \<and> agree i j"

lemma alike_shown: "alike i j \<Longrightarrow> shown i = shown j"
  using agree_shown by (simp add: alike_def)

lemma alike_key: "alike i j \<Longrightarrow> item_key i = item_key j"
  by (simp add: alike_def agree_def item_key_def)

lemma alike_owns: "alike i j \<Longrightarrow> item_owns i p \<longleftrightarrow> item_owns j p"
  by (simp add: alike_def agree_def item_owns_def item_start_def item_stop_def)

lemma alike_trans: "alike i j \<Longrightarrow> alike j k \<Longrightarrow> alike i k"
  by (simp add: alike_def agree_def)

lemma alike_vis: "list_all2 (\<lambda>a x. alike (h ! a) x) as xs \<Longrightarrow> vis h as = concat (map shown xs)"
  by (induction rule: list_all2_induct) (simp_all add: alike_shown)

lemma lss_insert_Nil: "lss_insert h it right a [] = [a]"
  by (simp add: lss_insert_def)

lemma lss_insert_Cons: "lss_insert h it None a (b # bs) =
    (if lssIsBefore it (h ! b) then a # b # bs else b # lss_insert h it None a bs)"
  by (simp add: lss_insert_def passes_def)

text \<open>Where \<open>integrate.go\<close> puts an address is where the arrangement puts the item.\<close>

lemma lss_insert_sink:
  assumes "list_all2 (\<lambda>a x. alike (h ! a) x) as xs" "alike (h ! a) x" "alike it x"
  shows "list_all2 (\<lambda>a x. alike (h ! a) x) (lss_insert h it None a as) (sink item_key x xs)"
  using assms
  by (induction rule: list_all2_induct)
    (simp_all add: lss_insert_Nil lss_insert_Cons lssIsBefore_key alike_key [of _ x] alike_key)

definition owner :: "heap \<Rightarrow> ID option \<Rightarrow> addr list \<Rightarrow> addr list \<times> addr list" where
  "owner h p as = (case p of None \<Rightarrow> ([], as)
     | Some q \<Rightarrow> (let us = takeWhile (\<lambda>a. \<not> item_owns (h ! a) q) as; vs = dropWhile (\<lambda>a. \<not> item_owns (h ! a) q) as in
        (us @ take 1 vs, drop 1 vs)))"

lemma owner_append: "owner h p as = (us, vs) \<Longrightarrow> as = us @ vs"
  by (auto simp: owner_def Let_def split: option.splits)

lemma lss_insert_put:
  assumes "list_all2 (\<lambda>a x. alike (h ! a) x) as xs" "alike (h ! a) x" "alike it x"
    and "owner h (it_OriginLeft x) as = (us, vs)"
  shows "list_all2 (\<lambda>a x. alike (h ! a) x) (us @ lss_insert h it None a vs) (put item_key item_owns it_OriginLeft x xs)"
proof (cases "it_OriginLeft x")
  case None
  then show ?thesis using assms lss_insert_sink [OF assms(1-3)] by (simp add: put_def owner_def)
next
  case (Some q)
  have "list_all2 (\<lambda>a x. alike (h ! a) x)
      (fst (owner h (Some q) as) @ lss_insert h it None a (snd (owner h (Some q) as))) (sink_after item_key item_owns q x xs)"
    using assms(1)
  proof (induction rule: list_all2_induct)
    case (Cons b bs y ys)
    show ?case
    proof (cases "item_owns (h ! b) q")
      case True
      then show ?thesis
        using Cons alike_owns [of "h ! b" y q] lss_insert_sink [OF Cons(2) assms(2,3)]
        by (simp add: owner_def Let_def)
    next
      case False
      then show ?thesis using Cons alike_owns [of "h ! b" y q] by (simp add: owner_def Let_def)
    qed
  qed (simp add: owner_def Let_def lss_insert_Nil assms(2))
  then show ?thesis using assms(4) Some by (simp add: put_def)
qed

text \<open>The state after integrating \<open>its\<close>, in this order, into a new document.\<close>

definition arranged :: "gostring \<Rightarrow> Item list \<Rightarrow> Doc \<Rightarrow> addr list \<Rightarrow> bool" where
  "arranged name its d as \<longleftrightarrow>
    (if gm_get (d_share d) name = None then its = [] \<and> as = [] else text_list d name as) \<and>
    list_all2 (\<lambda>a x. alike (d_heap d ! a) x) as (arrange its) \<and>
    (\<forall>a \<in> set as. it_Parent (d_heap d ! a) = Some name \<and> a < length (d_heap d)) \<and>
    (\<forall>c. clocks_ok (d_heap d) (store_items (d_store d) c)) \<and>
    (\<forall>c. set (store_items (d_store d) c) = {a \<in> set as. Client (it_ID (d_heap d ! a)) = c}) \<and>
    gm_ok (d_store d) \<and> (\<forall>c. gm_get (d_store d) c \<noteq> Some []) \<and>
    (\<forall>c. list_all2 (\<lambda>a x. alike (d_heap d ! a) x) (store_items (d_store d) c) (filter (\<lambda>x. Client (it_ID x) = c) its)) \<and>
    d_ds d = []"

lemma text_list_share: "text_list d name as \<Longrightarrow> gm_get (d_share d) name \<noteq> None"
  by (auto simp: text_list_def)

lemma arranged_new: "arranged name [] (new_doc c) []"
  by (simp add: arranged_def arrange_def new_doc_def newStructStore_def newDeleteSet_def store_items_def)

lemma set_arrange: "set (arrange its) = set its"
  by (simp add: arrange_def set_fold_put)

lemma list_all2_bex: "list_all2 P as xs \<Longrightarrow> a \<in> set as \<Longrightarrow> \<exists>x \<in> set xs. P a x"
  by (induction rule: list_all2_induct) auto

lemma list_all2_bex': "list_all2 P as xs \<Longrightarrow> x \<in> set xs \<Longrightarrow> \<exists>a \<in> set as. P a x"
  by (induction rule: list_all2_induct) auto

lemma owns_clock: "item_owns (h ! a) p \<longleftrightarrow>
    Client (it_ID (h ! a)) = Client p \<and> item_clock h a \<le> unat (Clock p) \<and> unat (Clock p) < item_end h a"
  by (simp add: item_owns_def item_start_def item_stop_def item_clock_def item_end_def)

lemma getItem_owner:
  assumes "clocks_ok h (store_items s (Client p))" "b \<in> set (store_items s (Client p))" "item_owns (h ! b) p"
  shows "getItem h s p = Some b"
proof -
  let ?l = "store_items s (Client p)"
  have cov: "covers h (Clock p) a \<longleftrightarrow> item_clock h a \<le> unat (Clock p) \<and> unat (Clock p) < item_end h a" if "a \<in> set ?l" for a
    using covers_unat clocks_ok_end [OF assms(1) that] by blast
  then have "find (covers h (Clock p)) ?l \<noteq> None"
    using assms(2,3) by (auto simp: find_None_iff owns_clock)
  then obtain a where a: "find (covers h (Clock p)) ?l = Some a" by auto
  then have "a \<in> set ?l" "covers h (Clock p) a" by (auto simp: find_Some_iff)
  then have "a = b" using cover_unique [OF assms(1) _ assms(2)] cov assms(3) by (auto simp: owns_clock)
  with a show ?thesis by (simp add: getItem_find [OF assms(1)] find_item_def)
qed

lemma owner_rear:
  assumes "\<exists>b \<in> set as. item_owns (h ! b) q" "owner h (Some q) as = (us, vs)"
  shows "\<exists>b. rear us = Some b \<and> b \<in> set as \<and> item_owns (h ! b) q"
proof -
  let ?P = "\<lambda>a. \<not> item_owns (h ! a) q"
  obtain b ws where ws: "dropWhile ?P as = b # ws" using assms(1) by (cases "dropWhile ?P as") (auto simp: dropWhile_eq_Nil_conv)
  then have "\<not> ?P b" using hd_dropWhile [of ?P as] by (metis list.sel(1) neq_Nil_conv)
  moreover have "b \<in> set as" using ws by (metis list.set_intros(1) set_dropWhileD)
  moreover have "us = takeWhile ?P as @ [b]" using assms(2) ws by (simp add: owner_def Let_def)
  ultimately show ?thesis by (simp add: rear_def)
qed

lemma arranged_member:
  assumes "arranged name its d as" "b \<in> set as"
  shows "\<exists>x \<in> set its. alike (d_heap d ! b) x"
  using assms list_all2_bex [of _ as "arrange its" b] by (auto simp: arranged_def set_arrange)

lemma arranged_bound: "arranged name its d as \<Longrightarrow> b \<in> set as \<Longrightarrow> b < length (d_heap d)"
  by (simp add: arranged_def)

lemma arranged_clocks:
  assumes "arranged name its d as" "item_ready (set its) it" "b \<in> set (store_items (d_store d) (Client (it_ID it)))"
  shows "item_end (d_heap d) b \<le> item_start it \<and> item_clock (d_heap d) b < item_start it"
proof -
  have b: "b \<in> set as" "Client (it_ID (d_heap d ! b)) = Client (it_ID it)" using assms(1,3) by (auto simp: arranged_def)
  obtain x where "x \<in> set its" "alike (d_heap d ! b) x" using arranged_member [OF assms(1) b(1)] by blast
  then show ?thesis using assms(2) b(2)
    by (auto simp: item_ready_def simp: alike_def agree_def item_start_def item_stop_def item_clock_def item_end_def)
qed

lemma arranged_store:
  fixes d :: Doc
  defines "h \<equiv> d_heap d" and "a \<equiv> length (d_heap d)"
  assumes pre: "arranged name its d as" and ready: "item_ready (set its) it" and i: "same_clock i it"
  shows "clocks_ok (h @ [i]) (store_items (addItem (h @ [i]) (d_store d) a) c)"
    and "set (store_items (addItem (h @ [i]) (d_store d) a) c) = {b \<in> insert a (set as). Client (it_ID ((h @ [i]) ! b)) = c}"
proof -
  have at: "(h @ [i]) ! a = i" "\<And>b. b \<in> set as \<Longrightarrow> (h @ [i]) ! b = h ! b" "a \<notin> set as"
    using arranged_bound [OF pre] by (auto simp: h_def a_def nth_append)
  have slice: "set (store_items (d_store d) c) = {b \<in> set as. Client (it_ID (h ! b)) = c}" for c
    using pre by (simp add: arranged_def h_def)
  show "set (store_items (addItem (h @ [i]) (d_store d) a) c) = {b \<in> insert a (set as). Client (it_ID ((h @ [i]) ! b)) = c}"
    using at slice by (auto simp: store_items_addItem)
  have old: "clocks_ok (h @ [i]) (store_items (d_store d) c)" for c
  proof (rule clocks_ok_cong)
    show "clocks_ok h (store_items (d_store d) c)" using pre by (simp add: arranged_def h_def)
    show "same_clock ((h @ [i]) ! b) (h ! b)" if "b \<in> set (store_items (d_store d) c)" for b
      using that slice at(2) by (simp add: same_clock_def)
  qed
  have "clocks_ok (h @ [i]) (store_items (d_store d) (Client (it_ID i)) @ [a])"
  proof (rule clocks_ok_snoc [OF old])
    show "item_end (h @ [i]) a < 2 ^ 64"
      using ready i at(1) by (simp add: item_ready_def item_end_def item_clock_def item_stop_def item_start_def same_clock_def)
    assume "store_items (d_store d) (Client (it_ID i)) \<noteq> []"
    then have l: "last (store_items (d_store d) (Client (it_ID i))) \<in> set (store_items (d_store d) (Client (it_ID i)))" by simp
    then show "item_end (h @ [i]) (last (store_items (d_store d) (Client (it_ID i)))) \<le> item_clock (h @ [i]) a"
      using arranged_clocks [OF pre ready, of "last (store_items (d_store d) (Client (it_ID i)))"] i at slice
      by (simp add: same_clock_def item_end_def item_clock_def item_start_def h_def)
  qed
  then show "clocks_ok (h @ [i]) (store_items (addItem (h @ [i]) (d_store d) a) c)"
    using old [of c] at(1) by (auto simp: store_items_addItem)
qed

lemma arranged_lookup:
  fixes d :: Doc
  defines "h \<equiv> d_heap d" and "a \<equiv> length (d_heap d)"
  assumes pre: "arranged name its d as" and ready: "item_ready (set its) it" and i: "same_clock i it"
    and p: "it_OriginLeft it = Some p" and own: "owner (h @ [i]) (Some p) as = (us, vs)"
  shows "\<exists>b \<in> set as. rear us = Some b \<and> getItem (h @ [i]) (addItem (h @ [i]) (d_store d) a) p = Some b"
proof -
  have at: "\<And>b. b \<in> set as \<Longrightarrow> (h @ [i]) ! b = h ! b"
    using arranged_bound [OF pre] by (auto simp: h_def nth_append)
  obtain x where x: "x \<in> set its" "item_owns x p" using ready p by (auto simp: item_ready_def)
  then obtain b where "b \<in> set as" "alike (h ! b) x"
    using pre list_all2_bex' [of "\<lambda>a x. alike (d_heap d ! a) x" as "arrange its" x]
    by (auto simp: arranged_def set_arrange h_def)
  then have "\<exists>b \<in> set as. item_owns ((h @ [i]) ! b) p" using x(2) alike_owns at by metis
  then obtain b where b: "rear us = Some b" "b \<in> set as" "item_owns ((h @ [i]) ! b) p"
    using owner_rear [OF _ own] by blast
  have "getItem (h @ [i]) (addItem (h @ [i]) (d_store d) a) p = Some b"
  proof (rule getItem_owner [OF _ _ b(3)])
    show "clocks_ok (h @ [i]) (store_items (addItem (h @ [i]) (d_store d) a) (Client p))"
      unfolding h_def a_def by (rule arranged_store [OF pre ready i])
    show "b \<in> set (store_items (addItem (h @ [i]) (d_store d) a) (Client p))"
      using b(2,3) arranged_store(2) [OF pre ready i] by (simp add: h_def a_def item_owns_def)
  qed
  with b show ?thesis by blast
qed

lemma list_all2_weaken:
  "list_all2 P as xs \<Longrightarrow> (\<And>a x. a \<in> set as \<Longrightarrow> P a x \<Longrightarrow> Q a x) \<Longrightarrow> list_all2 Q as xs"
  by (induction rule: list_all2_induct) auto

text \<open>What placing an item leaves of every item: all but the links.\<close>

lemma upd_item_get: "(\<And>it. g (f it) = g it) \<Longrightarrow> g (d_heap (upd_item a f d) ! b) = g (d_heap d ! b)"
  by (cases "a < length (d_heap d)") (auto simp: upd_item_def nth_list_update list_update_beyond)

lemma place_item_get:
  assumes "place_item a d = Ret d'" "\<And>it l. g (it\<lparr>it_Left := l\<rparr>) = g it" "\<And>it r. g (it\<lparr>it_Right := r\<rparr>) = g it"
  shows "g (d_heap d' ! b) = g (d_heap d ! b)"
  using assms(1)
  by (auto simp: place_item_def Let_def link_item_def upd_item_get [where g = g] assms(2,3) split: prod.splits option.splits)

definition unlinked :: "Item \<Rightarrow> Item" where
  "unlinked x = x\<lparr>it_Left := None, it_Right := None\<rparr>"

lemma unlinked_alike: "unlinked i = unlinked j \<Longrightarrow> alike i j \<and> it_Parent i = it_Parent j"
  by (cases i; cases j) (simp add: unlinked_def alike_def agree_def)

lemma place_item_alike:
  assumes "place_item a d = Ret d'"
  shows "alike (d_heap d' ! b) (d_heap d ! b) \<and> it_Parent (d_heap d' ! b) = it_Parent (d_heap d ! b)"
  by (rule unlinked_alike, rule place_item_get [OF assms]) (simp_all add: unlinked_def)

text \<open>Up to the scan: the item is stored and has its parent.\<close>

lemma integrate_plain_stored:
  assumes pre: "arranged name its d as" and it: "plain_insert name it" and ready: "item_ready (set its) it" and name: "name \<noteq> []"
  obtains d4 where "integrateItem it d = place_item (length (d_heap d)) d4"
    "d_heap d4 = d_heap d @ [it\<lparr>it_Parent := Some name\<rparr>]" "d_ds d4 = []"
    "d_store d4 = addItem (d_heap d4) (d_store d) (length (d_heap d))" "text_list d4 name as"
proof -
  let ?h = "d_heap d" and ?a = "length (d_heap d)" and ?new = "it\<lparr>it_Parent := Some name\<rparr>"
  define d2 where "d2 = store_add ?a (d\<lparr>d_heap := ?h @ [it]\<rparr>)"
  define d4 where "d4 = upd_item ?a (\<lambda>i. i\<lparr>it_Parent := Some name\<rparr>)
    (if gm_get (d_share d) name = None then share_put name newText d2 else d2)"
  have k: "it_Kind it = contentString" and ds: "d_ds d = []"
    using it pre by (auto simp: plain_insert_def text_item_def arranged_def)
  have h2: "d_heap d2 = ?h @ [it]" "d_share d2 = d_share d" "d_ds d2 = []" "d_store d2 = addItem (?h @ [it]) (d_store d) ?a"
    using ds by (simp_all add: d2_def store_add_def)
  have h4: "d_heap d4 = ?h @ [?new]" "d_ds d4 = []" "d_store d4 = addItem (?h @ [?new]) (d_store d) ?a"
    by (simp_all add: d4_def upd_item_def share_put_def h2 addItem_def)
  have at: "(?h @ [i]) ! b = ?h ! b" if "b \<in> set as" for b i using arranged_bound [OF pre that] by (simp add: nth_append)
  have none: "doc_getItem d (it_ID it) = None"
  proof -
    let ?l = "store_items (d_store d) (Client (it_ID it))"
    have ok: "clocks_ok ?h ?l" using pre by (simp add: arranged_def)
    have "\<not> covers ?h (Clock (it_ID it)) b" if "b \<in> set ?l" for b
      using arranged_clocks [OF pre ready that] covers_unat [OF clocks_ok_end [OF ok that]] by (simp add: item_start_def)
    then show ?thesis by (simp add: doc_getItem_def getItem_find [OF ok] find_item_def find_None_iff)
  qed
  have res: "inherit_parent ?a (resolve_by_name ?a d2) = d4"
  proof (cases "it_OriginLeft it")
    case None
    have "resolve_by_name ?a d2 = d4"
      using it name k None pre
      by (auto simp: resolve_by_name_def Let_def h2 plain_insert_def lazy_type_def d4_def arranged_def text_list_def split: option.split)
    then show ?thesis by (simp add: inherit_parent_def Let_def h4)
  next
    case (Some p)
    have "resolve_by_name ?a d2 = d2" using it Some by (simp add: resolve_by_name_def Let_def h2 plain_insert_def)
    moreover obtain us' vs' where own': "owner (?h @ [it]) (Some p) as = (us', vs')" by fastforce
    obtain b where "b \<in> set as" "getItem (?h @ [it]) (addItem (?h @ [it]) (d_store d) ?a) p = Some b"
      using arranged_lookup [OF pre ready _ Some own'] by (auto simp: same_clock_def)
    moreover from this have "it_Parent (?h ! b) = Some name" "gm_get (d_share d) name \<noteq> None"
      using pre by (simp_all add: arranged_def) (auto split: if_splits)
    ultimately show ?thesis
      using it Some at [of b it] by (auto simp: inherit_parent_def Let_def h2 opt_getItem_def doc_getItem_def plain_insert_def d4_def)
  qed
  have "integrateItem it d = place_item ?a d4"
  proof -
    have "\<not> isDeleted (d_ds d2) (it_ID it)" by (simp add: h2(3) isDeleted_def ds_ranges_def)
    then show ?thesis
      unfolding integrateItem_def alloc_def Let_def prod.case d2_def [symmetric] using none by (simp add: res)
  qed
  moreover have "text_list d4 name as"
  proof (cases "gm_get (d_share d) name = None")
    case True
    then show ?thesis using pre by (auto simp: arranged_def text_list_def d4_def newText_def share_put_def update_conv')
  next
    case False
    then have t: "text_list d name as" using pre by (simp add: arranged_def)
    then have "linked (d_heap d4) as" by (simp add: text_list_def h4 linked_heap_append)
    moreover have "d_share d4 = d_share d" using False by (auto simp: d4_def h2)
    ultimately show ?thesis using t at by (simp add: text_list_def h4)
  qed
  ultimately show thesis using that h4 by simp
qed

text \<open>After it: any document with the list grown by \<open>lss_insert\<close> and the other items alike.\<close>

lemma arranged_grown:
  fixes d :: Doc
  defines "a \<equiv> length (d_heap d)"
  assumes pre: "arranged name its d as" and ready: "item_ready (set its) it"
    and new: "alike new it" "it_Parent new = Some name" and own: "owner (d_heap d @ [new]) (it_OriginLeft it) as = (us, vs)"
    and as': "as' = us @ lss_insert (d_heap d @ [new]) new None a vs" "text_list d' name as'"
    and kept: "\<And>b. b \<in> set as' \<Longrightarrow> alike (d_heap d' ! b) ((d_heap d @ [new]) ! b) \<and>
      it_Parent (d_heap d' ! b) = it_Parent ((d_heap d @ [new]) ! b)"
    and len: "length (d_heap d') = Suc a" and store: "d_store d' = addItem (d_heap d @ [new]) (d_store d) a" and ds: "d_ds d' = []"
  shows "arranged name (its @ [it]) d' as'"
proof -
  let ?h = "d_heap d" and ?h4 = "d_heap d @ [new]"
  have at: "?h4 ! b = ?h ! b" "b < a" if "b \<in> set as" for b using arranged_bound [OF pre that] by (simp_all add: nth_append a_def)
  have new_at: "?h4 ! a = new" by (simp add: a_def)
  have same: "same_clock new it" using new(1) by (simp add: alike_def agree_def same_clock_def)
  have set': "set as' = insert a (set as)"
  proof -
    have "set vs = set (takeWhile (passes ?h4 new None) vs) \<union> set (dropWhile (passes ?h4 new None) vs)"
      by (metis set_append takeWhile_dropWhile_id)
    then show ?thesis by (auto simp: as'(1) owner_append [OF own] lss_insert_def)
  qed
  have "list_all2 (\<lambda>b x. alike (?h4 ! b) x) as (arrange its)"
    using pre at(1) by (auto simp: arranged_def list_all2_conv_all_nth)
  then have "list_all2 (\<lambda>b x. alike (?h4 ! b) x) as' (arrange (its @ [it]))"
    using lss_insert_put [of ?h4 as "arrange its" a it new us vs] own new new_at as'(1) by (simp add: arrange_def)
  then have l2: "list_all2 (\<lambda>b x. alike (d_heap d' ! b) x) as' (arrange (its @ [it]))"
    by (rule list_all2_weaken) (use kept in \<open>blast intro: alike_trans\<close>)
  have par: "it_Parent (d_heap d' ! b) = Some name \<and> b < length (d_heap d')" if "b \<in> set as'" for b
    using kept [OF that] that pre at [of b] new(2) new_at len unfolding set' by (auto simp: arranged_def)
  note st = arranged_store [OF pre ready same, folded a_def]
  have ids: "same_clock (d_heap d' ! b) (?h4 ! b)" if "b \<in> insert a (set as)" for b
    using kept [of b] that by (simp add: set' alike_def agree_def same_clock_def)
  have clk: "clocks_ok (d_heap d') (store_items (d_store d') c)" for c
    unfolding store by (rule clocks_ok_cong [OF st(1)]) (use st(2) ids in auto)
  have slice: "set (store_items (d_store d') c) = {b \<in> set as'. Client (it_ID (d_heap d' ! b)) = c}" for c
    unfolding store st(2) set' using ids by (auto simp: same_clock_def)
  have order: "list_all2 (\<lambda>b x. alike (d_heap d' ! b) x) (store_items (d_store d') c) (filter (\<lambda>x. Client (it_ID x) = c) (its @ [it]))" for c
  proof -
    have "list_all2 (\<lambda>b x. alike (d_heap d' ! b) x) (store_items (d_store d) c) (filter (\<lambda>x. Client (it_ID x) = c) its)"
    proof (rule list_all2_weaken)
      show "list_all2 (\<lambda>b x. alike (d_heap d ! b) x) (store_items (d_store d) c) (filter (\<lambda>x. Client (it_ID x) = c) its)"
        using pre by (simp add: arranged_def)
      fix b x assume b: "b \<in> set (store_items (d_store d) c)" "alike (d_heap d ! b) x"
      then have "b \<in> set as" using pre by (simp add: arranged_def)
      then show "alike (d_heap d' ! b) x" using b(2) kept [of b] at [of b] by (auto simp: set' intro: alike_trans)
    qed
    moreover have "alike (d_heap d' ! a) it" using kept [of a] new(1) new_at by (auto simp: set' intro: alike_trans)
    ultimately show ?thesis
      using same new_at by (auto simp: store store_items_addItem same_clock_def intro: list_all2_appendI)
  qed
  have keys: "gm_ok (d_store d')" "\<forall>c. gm_get (d_store d') c \<noteq> Some []"
    using pre by (simp_all add: store addItem_def arranged_def Let_def gm.inv_put update_conv')
  show ?thesis unfolding arranged_def using as'(2) text_list_share [OF as'(2)] l2 par clk slice keys order ds by simp
qed

lemma integrate_plain:
  assumes pre: "arranged name its d as" and it: "plain_insert name it" and ready: "item_ready (set its) it" and name: "name \<noteq> []"
  shows "\<exists>d' as'. integrateItem it d = Ret d' \<and> arranged name (its @ [it]) d' as'"
proof -
  let ?a = "length (d_heap d)" and ?new = "it\<lparr>it_Parent := Some name\<rparr>"
  obtain d4 where run: "integrateItem it d = place_item ?a d4" and h4: "d_heap d4 = d_heap d @ [?new]" "d_ds d4 = []"
    "d_store d4 = addItem (d_heap d4) (d_store d) ?a" and t4: "text_list d4 name as"
    by (rule integrate_plain_stored [OF pre it ready name])
  obtain us vs where own: "owner (d_heap d @ [?new]) (it_OriginLeft it) as = (us, vs)" by fastforce
  let ?as' = "us @ lss_insert (d_heap d4) ?new None ?a vs"
  have new: "d_heap d4 ! ?a = ?new" "alike ?new it" "text_item ?new" "it_OriginRight it = None"
    using it by (auto simp: h4 plain_insert_def text_item_def item_runes_def alike_def agree_def)
  have below: "\<forall>b \<in> set as. b < ?a" using arranged_bound [OF pre] by simp
  have t4': "text_list d4 name (us @ vs)" using t4 by (simp add: owner_append [OF own])
  obtain d' where p: "place_item ?a d4 = Ret d'" "text_list d' name ?as'"
    "length (d_heap d') = length (d_heap d4)" "d_store d' = d_store d4" "d_ds d' = d_ds d4"
  proof (rule place_item_text [OF t4', of ?a ?as'])
    show "?a \<notin> set (us @ vs)" using below by (auto simp: owner_append [OF own, symmetric])
    show "opt_getItem d4 (it_OriginLeft (d_heap d4 ! ?a)) = rear us"
    proof (cases "it_OriginLeft it")
      case None
      then show ?thesis using own new by (simp add: opt_getItem_def owner_def)
    next
      case (Some q)
      then show ?thesis using arranged_lookup [OF pre ready _ Some, of ?new us vs] own new
        by (auto simp: opt_getItem_def doc_getItem_def h4 same_clock_def)
    qed
  qed (use new in \<open>simp_all add: opt_getItem_def, simp add: h4\<close>)
  have "arranged name (its @ [it]) d' ?as'"
  proof (rule arranged_grown [OF pre ready new(2) _ own _ p(2)])
    fix b assume "b \<in> set ?as'"
    show "alike (d_heap d' ! b) ((d_heap d @ [?new]) ! b) \<and> it_Parent (d_heap d' ! b) = it_Parent ((d_heap d @ [?new]) ! b)"
      using place_item_alike [OF p(1), of b] by (simp add: h4(1))
  qed (use p h4 in simp_all)
  with run p(1) show ?thesis by auto
qed

lemma arranged_text:
  assumes "arranged name its d as"
  shows "text_String name d = Ret (string_of_runes (concat (map shown (arrange its))))"
proof (cases "gm_get (d_share d) name")
  case None
  then show ?thesis using assms by (simp add: arranged_def arrange_def text_String_def text_start_def string_loop.simps)
next
  case (Some st)
  then show ?thesis
    using assms text_String_list [of d name as] alike_vis [of "d_heap d" as "arrange its"]
    by (simp add: arranged_def text_vis_def)
qed

section \<open>Applying updates\<close>

text \<open>
  What a replica that only receives keeps: \<open>I its d\<close> after it has integrated \<open>its\<close>, for items
  of the kind \<open>P\<close>. The invariant depends on the items, the types and the store only.
\<close>

locale receiver =
  fixes I :: "Item list \<Rightarrow> Doc \<Rightarrow> bool" and P :: "Item \<Rightarrow> bool"
  assumes start: "I [] (new_doc c)"
    and step: "I its d \<Longrightarrow> P it \<Longrightarrow> item_ready (set its) it \<Longrightarrow> \<exists>d'. integrateItem it d = Ret d' \<and> I (its @ [it]) d'"
    and no_deletes: "I its d \<Longrightarrow> d_ds d = []"
    and opened: "I its d \<Longrightarrow> I its (snd (begin_tx origin d)\<lparr>d_ds := []\<rparr>)"
    and closed: "I its d \<Longrightarrow> I its (fireObservers t (d\<lparr>d_currentTx := None\<rparr>))"
begin

lemma integrate_all:
  "causal item_ready (set its) new \<Longrightarrow> I its d \<Longrightarrow> \<forall>it \<in> set new. P it \<Longrightarrow>
   \<exists>d'. ofold integrateItem new d = Ret d' \<and> I (its @ new) d'"
proof (induction new arbitrary: its d)
  case (Cons it new)
  obtain d1 where d1: "integrateItem it d = Ret d1" "I (its @ [it]) d1" using step [OF Cons.prems(2)] Cons.prems by auto
  have "\<exists>d'. ofold integrateItem new d1 = Ret d' \<and> I ((its @ [it]) @ new) d'"
    using Cons.prems by (intro Cons.IH [OF _ d1(2)]) auto
  with d1(1) show ?case by simp
qed simp

lemma apply_update:
  assumes u: "decodeUpdateV1 u = Ret (new, [])" and pre: "I its d"
    and new: "causal item_ready (set its) new" "\<forall>it \<in> set new. P it"
  shows "\<exists>d'. ApplyUpdate u origin d = Ret d' \<and> I (its @ new) d'"
proof -
  have ds: "d_ds d = []" by (rule no_deletes [OF pre])
  obtain d3 where d3: "ofold integrateItem new (snd (begin_tx origin d)\<lparr>d_ds := []\<rparr>) = Ret d3" "I (its @ new) d3"
    using integrate_all [OF new(1) opened [OF pre] new(2)] by blast
  have "ApplyUpdate u origin d = Ret (fireObservers (length (d_txs d)) (d3\<lparr>d_currentTx := None\<rparr>))"
    using d3(1) no_deletes [OF d3(2)] ds
    by (simp add: ApplyUpdate_def u apply_decoded_def begin_tx_def accumulate_ds_def apply_ds_def)
  with closed [OF d3(2)] show ?thesis by blast
qed

end

text \<open>Updates without deletions, each with the items it carries.\<close>

definition carrying :: "(Item \<Rightarrow> bool) \<Rightarrow> (byte list \<times> Item list) list \<Rightarrow> bool" where
  "carrying P ps \<longleftrightarrow> (\<forall>(u, items) \<in> set ps. decodeUpdateV1 u = Ret (items, []) \<and> (\<forall>it \<in> set items. P it))"

definition carried :: "(byte list \<times> Item list) list \<Rightarrow> Item list" where
  "carried ps = concat (map snd ps)"

definition causal_updates :: "(byte list \<times> Item list) list \<Rightarrow> bool" where
  "causal_updates ps \<longleftrightarrow> causal item_ready {} (carried ps)"

context receiver
begin

lemma apply_more:
  assumes "carrying P ps" "causal item_ready (set its) (carried ps)" "I its d"
  shows "\<exists>d'. ofold (\<lambda>u. ApplyUpdate u origin) (map fst ps) d = Ret d' \<and> I (its @ carried ps) d'"
  using assms
proof (induction ps arbitrary: its d)
  case (Cons p ps)
  obtain u items where p: "p = (u, items)" by fastforce
  obtain d1 where d1: "ApplyUpdate u origin d = Ret d1" "I (its @ items) d1"
    using apply_update [OF _ Cons.prems(3), of u items origin] Cons.prems(1,2)
    by (auto simp: p carrying_def carried_def causal_append)
  have "\<exists>d'. ofold (\<lambda>u. ApplyUpdate u origin) (map fst ps) d1 = Ret d' \<and> I ((its @ items) @ carried ps) d'"
    using Cons.prems by (intro Cons.IH [OF _ _ d1(2)]) (auto simp: p carrying_def carried_def causal_append)
  with d1(1) show ?case by (simp add: p carried_def)
qed (simp add: carried_def)

lemma apply_all:
  "carrying P ps \<Longrightarrow> causal_updates ps \<Longrightarrow>
   \<exists>d. ofold (\<lambda>u. ApplyUpdate u origin) (map fst ps) (new_doc c) = Ret d \<and> I (carried ps) d"
  using apply_more [OF _ _ start] by (simp add: causal_updates_def)

end

text \<open>Texts are such receivers.\<close>

lemma arranged_cong:
  "arranged name its d as \<Longrightarrow> d_heap d' = d_heap d \<Longrightarrow> d_share d' = d_share d \<Longrightarrow> d_store d' = d_store d \<Longrightarrow>
   d_ds d' = [] \<Longrightarrow> arranged name its d' as"
  by (auto simp: arranged_def text_list_def)

interpretation text_receiver: receiver "\<lambda>its d. \<exists>as. arranged name its d as" "\<lambda>it. name \<noteq> [] \<and> plain_insert name it"
  for name
proof
  fix its d it origin t c
  show "\<exists>as. arranged name [] (new_doc c) as" using arranged_new by blast
  show "\<exists>as. arranged name its d as \<Longrightarrow> d_ds d = []" by (auto simp: arranged_def)
  show "\<exists>as. arranged name its d as \<Longrightarrow> name \<noteq> [] \<and> plain_insert name it \<Longrightarrow> item_ready (set its) it \<Longrightarrow>
    \<exists>d'. integrateItem it d = Ret d' \<and> (\<exists>as. arranged name (its @ [it]) d' as)"
    using integrate_plain by blast
  show "\<exists>as. arranged name its d as \<Longrightarrow> \<exists>as. arranged name its (snd (begin_tx origin d)\<lparr>d_ds := []\<rparr>) as"
    by (elim exE, rule exI, erule arranged_cong) (simp_all add: begin_tx_def)
  show "\<exists>as. arranged name its (fireObservers t (d\<lparr>d_currentTx := None\<rparr>)) as" if pre: "\<exists>as. arranged name its d as"
  proof -
    obtain as where as: "arranged name its d as" using pre by blast
    have "arranged name its (fireObservers t (d\<lparr>d_currentTx := None\<rparr>)) as"
      by (rule arranged_cong [OF as]) (use as in \<open>simp_all add: fireObservers_def Let_def arranged_def\<close>)
    then show ?thesis ..
  qed
qed

lemma same_updates:
  assumes "mset qs = mset ps"
  shows "mset (carried ps) = mset (carried qs)" "carrying P qs \<longleftrightarrow> carrying P ps"
  using assms mset_eq_setD [OF assms] by (simp_all add: carried_def carrying_def mset_concat flip: sum_mset_sum_list)

lemma arrange_order:
  "causal_updates ps \<Longrightarrow> causal_updates qs \<Longrightarrow> mset qs = mset ps \<Longrightarrow> arrange (carried ps) = arrange (carried qs)"
  using inserts.orders_agree same_updates(1) unfolding causal_updates_def arrange_def by blast

end
