(* ===== verification/Replication.thy ===== *)
theory Replication
  imports Convergence
begin

text \<open>
  From one replica to another: the update that a transaction emits for an insert into an empty
  text, decoded and applied to a new document. The lemmas follow the item through
  \<open>itemToEncoded\<close>, the wire and \<open>encodedToItem\<close>.
\<close>

section \<open>The inserted item on its way\<close>

definition first_item :: "u64 \<Rightarrow> gostring \<Rightarrow> gostring \<Rightarrow> Item" where
  "first_item c name s =
    zero_Item\<lparr>it_ID := mkID c 0, it_Parent := Some name, it_Kind := contentString,
      it_Content := GString s, it_Length := of_nat (rune_count s)\<rparr>"

text \<open>The item as the receiver decodes it: the parent by name, the length in UTF-16 units.\<close>

definition arrived_item :: "u64 \<Rightarrow> gostring \<Rightarrow> gostring \<Rightarrow> Item" where
  "arrived_item c name s =
    zero_Item\<lparr>it_ID := mkID c 0, it_parentName := name, it_Kind := contentString,
      it_Content := GString s, it_Length := of_nat (utf16Len s)\<rparr>"

definition empty_text :: "gostring \<Rightarrow> Doc \<Rightarrow> bool" where
  "empty_text name d \<longleftrightarrow> gm_get (d_share d) name = Some newText \<and> d_heap d = [] \<and> d_store d = [] \<and> d_currentTx d = None"

lemma encoded_first:
  "itemToEncoded (first_item c name s) = zero_item\<lparr>ei_ClientID := c, ei_Length := of_nat (rune_count s),
     ei_InfoByte := 4, ei_ContentRef := 4, ei_ContentData := GString s, ei_ParentIsYKey := True, ei_ParentYKey := name\<rparr>"
  by (simp add: itemToEncoded_def first_item_def zero_Item_def zero_item_def contentKindToRef_def Let_def)

lemma first_update_ok:
  "bytes_fit name \<Longrightarrow> bytes_fit s \<Longrightarrow> update_ok (pending_update [first_item c name s] [])"
  by (simp add: pending_update_def encoded_first update_ok_def item_ok_def info_ok_def parent_ok_def content_ok_def
      zero_item_def group_by_client_def ds_append_def max_alloc_def)

lemma first_update_decoded:
  "update_items (update_canon (pending_update [first_item c name s] [])) = [arrived_item c name s]"
  "update_ds (update_canon (pending_update [first_item c name s] [])) = []"
  by (simp_all add: pending_update_def encoded_first update_canon_def group_by_client_def ds_append_def sort_desc_def
      update_items_def update_ds_def newDeleteSet_def item_norm_def zero_item_def no_origins_def content_norm_def
      item_len_def content_len_def encodedToItem_def zero_Item_def arrived_item_def List.map_filter_def)

section \<open>The sender\<close>

definition after_insert :: "gostring \<Rightarrow> gostring \<Rightarrow> goany \<Rightarrow> Doc \<Rightarrow> Doc" where
  "after_insert name s origin d = d\<lparr>d_store := [(d_clientID d, [0])], d_heap := [first_item (d_clientID d) name s],
     d_share := gm_set name (TText (Some 0) []) (d_share d),
     d_txs := d_txs d @ [\<lparr>tx_origin = origin, tx_pendingItems = [0], tx_pendingDeletes = [], tx_changedTypes = [name]\<rparr>],
     d_currentTx := None\<rparr>"

lemma Insert_first:
  assumes "empty_text name d" "s \<noteq> []"
  shows "Transact (text_Insert name 0 s) origin d =
    obind (encodeUpdateV1 [first_item (d_clientID d) name s] [])
      (\<lambda>b. Ret (fireObservers (length (d_txs d)) (call_handlers b origin (after_insert name s origin d))))"
  using assms
  by (simp add: Transact_def begin_tx_def text_Insert_def findPositionAt_def text_start_def newText_def
      skip_deleted_right.simps empty_text_def alloc_def Let_def store_add_def link_item_def upd_item_def
      setFirstItem_def share_put_def tx_addItem_def note_changed_def zero_Item_def first_item_def rune_count_def
      nth_append list_update_append addItem_def store_items_def doc_getState_def getState_def after_insert_def
      split: option.splits)

lemma text_item_string:
  "length (runes_of s) < 2 ^ 64 \<Longrightarrow> it_Kind it = contentString \<Longrightarrow> it_Content it = GString s \<Longrightarrow>
   it_Length it = of_nat (rune_count s) \<Longrightarrow> text_item it"
  by (simp add: text_item_def item_runes_def rune_count_def unat_of_nat_ok)

lemma after_insert_text:
  assumes "length (runes_of s) < 2 ^ 64"
  shows "text_list (after_insert name s origin d) name [0]"
    and "text_vis (after_insert name s origin d) [0] = runes_of s"
  using assms text_item_string [of s "first_item (d_clientID d) name s"]
  by (simp_all add: text_list_def text_vis_def after_insert_def first_item_def zero_Item_def shown_def item_runes_def
      update_conv')

lemma fireObservers_text:
  "text_list d name as \<Longrightarrow> text_list (fireObservers t (call_handlers b origin d)) name as"
  "text_vis (fireObservers t (call_handlers b origin d)) as = text_vis d as"
  by (simp_all add: fireObservers_def call_handlers_def Let_def text_list_def text_vis_def)

section \<open>The receiver\<close>

lemma arrived_insert:
  assumes "length (runes_of s) < 2 ^ 64" "utf16Len s = rune_count s"
  shows "plain_insert name (arrived_item c name s)" "item_ready B (arrived_item c name s) \<longleftrightarrow> (\<forall>i \<in> B. Client (it_ID i) \<noteq> c)"
  using assms text_item_string [of s "arrived_item c name s"]
  by (auto simp: plain_insert_def item_ready_def arrived_item_def zero_Item_def item_stop_def item_start_def rune_count_def
      unat_of_nat_ok)

lemma Apply_first:
  assumes name: "name \<noteq> []" and len: "length (runes_of s) < 2 ^ 64" "utf16Len s = rune_count s"
    and data: "DecodeUpdateV1 b = Ret (update_canon (pending_update [first_item c name s] []))"
  shows "\<exists>d. ApplyUpdate b origin (new_doc c') = Ret d \<and> text_String name d = Ret (string_of_runes (runes_of s))"
proof -
  have "decodeUpdateV1 b = Ret ([arrived_item c name s], [])" by (simp add: decodeUpdateV1_def data first_update_decoded)
  then obtain d as where d: "ApplyUpdate b origin (new_doc c') = Ret d" "arranged name [arrived_item c name s] d as"
    using text_receiver.apply_update [of b "[arrived_item c name s]" name "[]" "new_doc c'" origin] arranged_new [of name c']
      arrived_insert [OF len] name by auto
  then show ?thesis
    using arranged_text [OF d(2)] by (simp add: arrange_def put_def arrived_item_def zero_Item_def shown_def item_runes_def)
qed

section \<open>An insert and its copy\<close>

text \<open>
  An insert into an empty text replicates: the transaction returns, hands the same update to
  every registered handler, and a new document of any client that applies the update shows the
  same text as the sender.
\<close>
lemma insert_replicates:
  assumes "empty_text name d" and "name \<noteq> []" and "s \<noteq> []" and "bytes_fit name" and "bytes_fit s"
    and "utf16Len s = rune_count s"
  shows "\<exists>u d' r. Transact (text_Insert name 0 s) origin d = Ret d' \<and>
    (\<forall>h \<in> set (d_updateHandlers d). UpdateFired (ih_fn h) u origin \<in> set (d_events d')) \<and>
    ApplyUpdate u origin' (new_doc c') = Ret r \<and>
    text_String name d' = Ret (string_of_runes (runes_of s)) \<and> text_String name r = text_String name d'"
proof -
  have len: "length (runes_of s) < 2 ^ 64"
    using utf16Len_le_bytes [of s] assms(5,6) by (simp add: rune_count_def bytes_fit_def max_alloc_def)
  have ok: "update_ok (pending_update [first_item (d_clientID d) name s] [])"
    by (rule first_update_ok [OF assms(4,5)])
  obtain u where u: "encodeUpdateV1 [first_item (d_clientID d) name s] [] = Ret u"
    "DecodeUpdateV1 u = Ret (update_canon (pending_update [first_item (d_clientID d) name s] []))"
    using DecodeUpdateV1_Encode [OF ok] by (auto simp: encodeUpdateV1_def) (metis append.right_neutral)
  let ?d = "fireObservers (length (d_txs d)) (call_handlers u origin (after_insert name s origin d))"
  have "Transact (text_Insert name 0 s) origin d = Ret ?d" by (simp add: Insert_first [OF assms(1,3)] u(1))
  moreover have "\<forall>h \<in> set (d_updateHandlers d). UpdateFired (ih_fn h) u origin \<in> set (d_events ?d)"
    by (simp add: fireObservers_def call_handlers_def after_insert_def Let_def)
  moreover have "text_String name ?d = Ret (string_of_runes (runes_of s))"
    using text_String_list [OF fireObservers_text(1) [OF after_insert_text(1) [OF len]]]
    by (simp add: fireObservers_text(2) after_insert_text(2) [OF len])
  moreover obtain r where "ApplyUpdate u origin' (new_doc c') = Ret r" "text_String name r = Ret (string_of_runes (runes_of s))"
    using Apply_first [OF assms(2) len assms(6) u(2)] by blast
  ultimately show ?thesis by auto
qed

end
