(* ===== verification/Deviations.thy ===== *)
theory Deviations
  imports Replication Awareness Transport
begin

text \<open>
  Concrete runs on which the code does not do what it is for: they bound what the correctness
  theorems can say. Each run is evaluated on the model, from new documents and through the
  wire format where two replicas are involved.
\<close>

section \<open>Evaluating a run\<close>

definition tn :: gostring where "tn = [0x74]"

lemma runes_run [simp]:
  "runes_of [0x61] = [0x61]" "runes_of [0x62] = [0x62]" "runes_of [0x78] = [0x78]" "runes_of [0x61, 0x62] = [0x61, 0x62]"
  "runes_of [0x63, 0x64] = [0x63, 0x64]"
  by (simp_all add: runes_of_ascii)

lemmas run_state = new_doc_def newStructStore_def newDeleteSet_def share_put_def newText_def OnUpdate_def
  begin_tx_def tx_addItem_def tx_addDeletedItem_def note_changed_def fireObservers_def call_handlers_def fire_type_def
  text_fireObservers_def array_fireObservers_def map_fireObservers_def zero_Item_def Let_def alloc_def upd_item_def nth_append list_update_append

lemmas run_store = store_add_def addItem_def store_items_def doc_getState_def getState_def doc_getItem_def opt_getItem_def
  getItem_def sort_search_def sort_search_loop.simps isDeleted_def ds_ranges_def in_range_def

lemmas run_text = text_Insert_def findPositionAt_def text_start_def find_pos_loop.simps skip_deleted_right.simps
  splitItemAt_def split_off_def strContent_def string_of_runes_def encode_rune.simps byte_of_nat_def link_item_def
  setFirstItem_def rune_count_def text_String_def string_loop.simps

lemmas run_delete = text_Delete_def delete_loop.simps delete_body_def mark_deleted_def

lemmas run_integrate = integrateItem_def resolve_by_name_def inherit_parent_def place_item_def resolveParent_def
  itemAfter_def firstItem_def lss_scan.simps lssIsBefore_def compareIDs_def lazy_type_def

lemmas run_encode = itemToEncoded_def zero_Item_def zero_item_def contentKindToRef_def Let_def group_by_client_def
  ds_append_def sort_desc_def to_eid_def

lemmas run_decode = update_ok_def item_ok_def info_ok_def parent_ok_def content_ok_def max_alloc_def bytes_fit_def
  update_canon_def update_items_def update_ds_def newDeleteSet_def item_norm_def no_origins_def content_norm_def
  item_len_def content_len_def encodedToItem_def List.map_filter_def from_eid_def utf16Len_def

section \<open>An insert inside a received item\<close>

text \<open>
  Peer 1 inserts \<open>"ab"\<close>, then \<open>"x"\<close> between the two characters. Its second update names the
  character \<open>a\<close> as the left origin, but the receiver looks up the whole item \<open>"ab"\<close> and does not
  split it.
\<close>

definition peer1 :: Doc where
  "peer1 = snd (OnUpdate 0 (share_put tn newText (new_doc 1)))"

definition item_x :: Item where
  "item_x = zero_Item\<lparr>it_ID := mkID 1 2, it_Left := Some 0, it_Right := Some 1, it_OriginLeft := Some (mkID 1 0),
     it_Parent := Some tn, it_Kind := contentString, it_Content := GString [0x78], it_Length := 1\<rparr>"

definition arrived_x :: Item where
  "arrived_x = zero_Item\<lparr>it_ID := mkID 1 2, it_OriginLeft := Some (mkID 1 0), it_Kind := contentString,
     it_Content := GString [0x78], it_Length := 1\<rparr>"

definition after_first :: "byte list \<Rightarrow> Doc" where
  "after_first b = fireObservers 0 (call_handlers b GNil (after_insert tn [0x61, 0x62] GNil peer1))"

lemma first_run:
  assumes "encodeUpdateV1 [first_item 1 tn [0x61, 0x62]] [] = Ret b"
  shows "Transact (text_Insert tn 0 [0x61, 0x62]) GNil peer1 = Ret (after_first b)"
  using Insert_first [of tn peer1 "[0x61, 0x62]" GNil] assms
  by (simp add: empty_text_def peer1_def after_first_def run_state)

lemma second_run:
  assumes "encodeUpdateV1 [item_x] [] = Ret b2"
  shows "\<exists>d. Transact (text_Insert tn 1 [0x78]) GNil (after_first b1) = Ret d \<and>
    d_events d = [UpdateFired 0 b1 GNil, UpdateFired 0 b2 GNil] \<and> text_String tn d = Ret [0x61, 0x78, 0x62]"
  using assms
  by (simp add: after_first_def after_insert_def first_item_def peer1_def Transact_def run_state run_store run_text item_x_def)

lemma x_update:
  "update_ok (pending_update [item_x] [])"
  "update_items (update_canon (pending_update [item_x] [])) = [arrived_x]"
  "update_ds (update_canon (pending_update [item_x] [])) = []"
  by (simp_all add: run_encode run_decode pending_update_def item_x_def arrived_x_def)

lemma receiver_run:
  "\<exists>d1 d2. apply_decoded [arrived_item 1 tn [0x61, 0x62]] [] GNil (new_doc 2) = Ret d1 \<and>
     apply_decoded [arrived_x] [] GNil d1 = Ret d2 \<and> text_String tn d2 = Ret [0x61, 0x62, 0x78]"
  by (simp add: apply_decoded_def accumulate_ds_def apply_ds_def arrived_item_def arrived_x_def run_state run_store
      run_integrate run_text tn_def utf16Len_def)

text \<open>The update of a transaction, as the receiver decodes it.\<close>

lemma sent_update:
  assumes "update_ok (pending_update its dead)"
  shows "\<exists>b. encodeUpdateV1 its dead = Ret b \<and>
    decodeUpdateV1 b = Ret (update_items (update_canon (pending_update its dead)),
      update_ds (update_canon (pending_update its dead)))"
proof -
  obtain b where "EncodeUpdateV1 (pending_update its dead) = Ret b"
    "DecodeUpdateV1 (b @ []) = Ret (update_canon (pending_update its dead))"
    using DecodeUpdateV1_Encode [OF assms] by blast
  then show ?thesis by (simp add: encodeUpdateV1_def decodeUpdateV1_def)
qed

text \<open>
  An insert between two characters of a received item goes to the wrong place on the
  peer: after \<open>"ab"\<close> and \<open>"x"\<close> between its two characters, the sender shows \<open>"axb"\<close>, and a new
  document that applies its two updates in order shows \<open>"abx"\<close>.
\<close>
theorem middle_insert_misplaced:
  "\<exists>u1 u2 a1 a2 b1 b2.
     Transact (text_Insert tn 0 [0x61, 0x62]) GNil peer1 = Ret a1 \<and>
     Transact (text_Insert tn 1 [0x78]) GNil a1 = Ret a2 \<and>
     d_events a2 = [UpdateFired 0 u1 GNil, UpdateFired 0 u2 GNil] \<and>
     ApplyUpdate u1 GNil (new_doc 2) = Ret b1 \<and> ApplyUpdate u2 GNil b1 = Ret b2 \<and>
     text_String tn a2 = Ret [0x61, 0x78, 0x62] \<and> text_String tn b2 = Ret [0x61, 0x62, 0x78]"
proof -
  obtain u1 where u1: "encodeUpdateV1 [first_item 1 tn [0x61, 0x62]] [] = Ret u1"
    "decodeUpdateV1 u1 = Ret ([arrived_item 1 tn [0x61, 0x62]], [])"
    using sent_update [OF first_update_ok [of tn "[0x61, 0x62]" 1]]
    by (auto simp: tn_def bytes_fit_def max_alloc_def first_update_decoded)
  obtain u2 where u2: "encodeUpdateV1 [item_x] [] = Ret u2" "decodeUpdateV1 u2 = Ret ([arrived_x], [])"
    using sent_update [OF x_update(1)] by (auto simp: x_update)
  show ?thesis using first_run [OF u1(1)] second_run [OF u2(1), of u1] receiver_run u1(2) u2(2)
    by (auto simp: ApplyUpdate_def)
qed

section \<open>The clock goes back\<close>

text \<open>
  A split puts the right half at the end of the client's slice, behind items of higher clocks,
  and the next clock is read off the last item of the slice.
\<close>

definition open_doc :: Doc where
  "open_doc = snd (begin_tx GNil (share_put tn newText (new_doc 1)))"

text \<open>
  In one document the next identifier can already be in use: after inserting \<open>"ab"\<close> and
  \<open>"cd"\<close> and deleting the first character, the client's clock is back from 4 to 2, and the next
  insert makes a second item with the identifier of the item \<open>"cd"\<close>.
\<close>
theorem clock_goes_back:
  "\<exists>d1 d2 d3 d4.
     text_Insert tn 0 [0x61, 0x62] open_doc = Ret d1 \<and> text_Insert tn 2 [0x63, 0x64] d1 = Ret d2 \<and>
     text_Delete tn 0 1 d2 = Ret d3 \<and> text_Insert tn 3 [0x78] d3 = Ret d4 \<and>
     doc_getState d2 1 = 4 \<and> doc_getState d3 1 = 2 \<and>
     it_ID (d_heap d4 ! 1) = mkID 1 2 \<and> it_ID (d_heap d4 ! 3) = mkID 1 2 \<and>
     it_Content (d_heap d4 ! 1) = GString [0x63, 0x64] \<and> it_Content (d_heap d4 ! 3) = GString [0x78]"
  by (simp add: open_doc_def run_state run_store run_text run_delete)

section \<open>What an update leaves out\<close>

text \<open>
  An insert inside an item of the same transaction cuts the pending item, and the right half is
  in the store but not among the pending items.
\<close>

definition item_a :: Item where
  "item_a = zero_Item\<lparr>it_ID := mkID 1 0, it_Right := Some 2, it_Parent := Some tn,
     it_Kind := contentString, it_Content := GString [0x61], it_Length := 1\<rparr>"

lemma one_transaction:
  assumes "encodeUpdateV1 [item_a, item_x] [] = Ret b"
  shows "\<exists>d. Transact (\<lambda>e. obind (text_Insert tn 0 [0x61, 0x62] e) (text_Insert tn 1 [0x78])) GNil peer1 = Ret d \<and>
    d_events d = [UpdateFired 0 b GNil] \<and> text_String tn d = Ret [0x61, 0x78, 0x62]"
  using assms
  by (simp add: peer1_def Transact_def run_state run_store run_text item_a_def item_x_def numeral_2_eq_2)

text \<open>The wire carries the clock of a client's first item only, so the gap in the clocks is lost.\<close>

lemma gap_lost: "encodeUpdateV1 [item_a, item_x] [] = encodeUpdateV1 [item_a, item_x\<lparr>it_ID := mkID 1 1\<rparr>] []"
  by (simp add: encodeUpdateV1_def pending_update_def EncodeUpdateV1_def writeUpdateV1_def run_encode item_a_def
      item_x_def write_group_def writeEncodedItem_def writeItemContent_def)

lemma ax_update:
  "update_ok (pending_update [item_a, item_x\<lparr>it_ID := mkID 1 1\<rparr>] [])"
  "update_items (update_canon (pending_update [item_a, item_x\<lparr>it_ID := mkID 1 1\<rparr>] [])) =
     [arrived_item 1 tn [0x61], arrived_x\<lparr>it_ID := mkID 1 1\<rparr>]"
  "update_ds (update_canon (pending_update [item_a, item_x\<lparr>it_ID := mkID 1 1\<rparr>] [])) = []"
  by (simp_all add: run_encode run_decode pending_update_def item_a_def item_x_def arrived_x_def arrived_item_def tn_def)

lemma ax_run:
  "\<exists>d. apply_decoded [arrived_item 1 tn [0x61], arrived_x\<lparr>it_ID := mkID 1 1\<rparr>] [] GNil (new_doc 2) = Ret d \<and>
     text_String tn d = Ret [0x61, 0x78]"
  by (simp add: apply_decoded_def accumulate_ds_def apply_ds_def arrived_item_def arrived_x_def run_state run_store
      run_integrate run_text tn_def utf16Len_def)

text \<open>
  A transaction that inserts \<open>"ab"\<close> and then \<open>"x"\<close> between the two characters emits an update
  without the \<open>b\<close>: the sender shows \<open>"axb"\<close>, a new document that applies the update shows
  \<open>"ax"\<close>.
\<close>
theorem transaction_loses_text:
  "\<exists>u a b.
     Transact (\<lambda>e. obind (text_Insert tn 0 [0x61, 0x62] e) (text_Insert tn 1 [0x78])) GNil peer1 = Ret a \<and>
     d_events a = [UpdateFired 0 u GNil] \<and> ApplyUpdate u GNil (new_doc 2) = Ret b \<and>
     text_String tn a = Ret [0x61, 0x78, 0x62] \<and> text_String tn b = Ret [0x61, 0x78]"
proof -
  obtain u where u: "encodeUpdateV1 [item_a, item_x] [] = Ret u"
    "decodeUpdateV1 u = Ret ([arrived_item 1 tn [0x61], arrived_x\<lparr>it_ID := mkID 1 1\<rparr>], [])"
    using sent_update [OF ax_update(1)] by (auto simp: ax_update gap_lost)
  show ?thesis using one_transaction [OF u(1)] ax_run u(2) by (auto simp: ApplyUpdate_def)
qed

text \<open>A state update has the items and no delete set, and an item on the wire has no deletion mark.\<close>

definition dead_item :: Item where
  "dead_item = first_item 1 tn [0x61, 0x62]\<lparr>it_Deleted := True\<rparr>"

lemma dead_update: "update_ok (pending_update [] [dead_item])"
  by (simp add: run_encode run_decode pending_update_def dead_item_def first_item_def)

lemma delete_run:
  assumes "encodeUpdateV1 [] [dead_item] = Ret b2"
  shows "\<exists>d. Transact (text_Delete tn 0 2) GNil (after_first b1) = Ret d \<and> text_String tn d = Ret [] \<and>
    d_heap d = [dead_item] \<and> d_store d = [(1, [0])]"
  using assms
  by (simp add: after_first_def after_insert_def first_item_def dead_item_def peer1_def Transact_def run_state run_store
      run_text run_delete)

lemma dead_since: "items_since [dead_item] 0 [0] = [0]"
proof -
  have "Clock (it_ID dead_item) + it_Length dead_item = 2"
    by (simp add: dead_item_def first_item_def zero_Item_def rune_count_def)
  then show ?thesis by (simp add: items_since_def sort_search_def sort_search_loop.simps)
qed

lemma dead_encoded: "itemToEncoded dead_item = itemToEncoded (first_item 1 tn [0x61, 0x62])"
  by (simp add: itemToEncoded_def dead_item_def first_item_def zero_Item_def Let_def)

lemma dead_state:
  "d_heap d = [dead_item] \<Longrightarrow> d_store d = [(1, [0])] \<Longrightarrow> state_update d [] = pending_update [first_item 1 tn [0x61, 0x62]] []"
  by (simp add: state_update_def dead_since sv_get_def pending_update_def dead_encoded)

text \<open>
  Deleted text comes back from a snapshot: the document that inserted \<open>"ab"\<close> and deleted it
  shows nothing, and the document restored from its snapshot shows \<open>"ab"\<close>.
\<close>
lemma snapshot_resurrects:
  "\<exists>a1 a2 b r.
     Transact (text_Insert tn 0 [0x61, 0x62]) GNil peer1 = Ret a1 \<and> Transact (text_Delete tn 0 2) GNil a1 = Ret a2 \<and>
     Snapshot a2 = Ret b \<and> RestoreDoc rnd b = Ret r \<and>
     text_String tn a2 = Ret [] \<and> text_String tn r = Ret [0x61, 0x62]"
proof -
  let ?u = "pending_update [first_item 1 tn [0x61, 0x62]] []"
  have ok: "update_ok ?u" by (rule first_update_ok) (simp_all add: tn_def bytes_fit_def max_alloc_def)
  obtain u1 where u1: "encodeUpdateV1 [first_item 1 tn [0x61, 0x62]] [] = Ret u1" using sent_update [OF ok] by auto
  obtain u2 where "encodeUpdateV1 [] [dead_item] = Ret u2" using sent_update [OF dead_update] by auto
  then obtain a2 where a2: "Transact (text_Delete tn 0 2) GNil (after_first u1) = Ret a2" "text_String tn a2 = Ret []"
    "state_update a2 [] = ?u"
    using delete_run dead_state by blast
  obtain b where b: "EncodeUpdateV1 ?u = Ret b" "DecodeUpdateV1 (b @ []) = Ret (update_canon ?u)"
    using DecodeUpdateV1_Encode [OF ok] by blast
  obtain c where c: "NewDoc rnd = new_doc c"
    by (cases "case rnd of Some b \<Rightarrow> b | None \<Rightarrow> (0xca, 0xfe, 0x01, 0x02)") (simp add: NewDoc_def Let_def)
  obtain r where "RestoreDoc rnd b = Ret r" "text_String tn r = Ret [0x61, 0x62]"
    using Apply_first [of tn "[0x61, 0x62]" b 1 GNil c] b(2)
    by (auto simp: RestoreDoc_def c tn_def rune_count_def utf16Len_def string_of_runes_def encode_rune.simps byte_of_nat_def)
  then show ?thesis using first_run [OF u1] a2 b(1) by (auto simp: Snapshot_def EncodeStateAsUpdate_def)
qed

section \<open>The relay's mutex\<close>

text \<open>
  An update whose item declares a string of \<open>2 ^ 63\<close> bytes: \<open>make\<close> panics inside \<open>ApplyUpdate\<close>,
  which the relay calls with the room's mutex held and without a deferred unlock.
\<close>

definition hostile_update :: "byte list" where
  "hostile_update = WriteVarUint 1 @ WriteVarUint 1 @ WriteVarUint 1 @ WriteVarUint 0 @ [4] @ WriteVarUint 1 @
     WriteVarBytes [] @ WriteVarUint (2 ^ 63)"

lemma hostile_panics: "DecodeUpdateV1 hostile_update = Panic MakeSliceLen"
proof -
  have str: "ReadVarString (WriteVarUint (2 ^ 63)) = Panic MakeSliceLen"
    using ReadVarUint_write [of "2 ^ 63" "[]"]
    by (simp add: ReadVarString_def ReadVarBytes_def make_slice_def max_alloc_def)
  have empty: "ReadVarString (WriteVarBytes [] @ rest) = Ret ([], rest)" for rest
    using ReadVarString_write [of "[]" rest] by (simp add: WriteVarString_def)
  show ?thesis
    using str by (simp add: hostile_update_def DecodeUpdateV1_def readUpdateV1_def ReadVarUint_write readEncodedItem_def
        read_full_def readParentInfo_def empty Let_def readItemContent_def)
qed

lemma hostile_fits: "bytes_fit hostile_update"
proof -
  have "length hostile_update \<le> 100"
    using length_WriteVarUint [of 1] length_WriteVarUint [of 0] length_WriteVarUint [of "2 ^ 63"]
    by (simp add: hostile_update_def WriteVarBytes_def)
  then show ?thesis by (simp add: bytes_fit_def max_alloc_def)
qed

text \<open>The message that carries it, from a client that has just joined.\<close>

definition victim :: Room where
  "victim = joined 0 (newRoom None)"

lemma victim_reach: "relay_reach victim"
  unfolding victim_def by (rule relay_reach_join [OF relay_reach.start]) (simp_all add: newRoom_def)

lemma victim_fields: "rm_conns victim 0 = Some Serving" "rm_clients victim = [0]" "\<not> rm_locked victim"
  by (simp_all add: victim_def newRoom_def)

lemma hostile_wedges: "\<exists>data. \<forall>c r. hears c data r = wedge c r"
proof -
  let ?m = "\<lparr>sm_Type = MessageYjsUpdate, sm_Payload = hostile_update\<rparr>"
  have "hears c (frame ?m) r = wedge c r" for c r
    using parse_frame_frame [of ?m] hostile_fits
    by (simp add: hears_def relay_receive_def relay_message_def MessageYjsUpdate_def MessageYjsSyncStep1_def MessageYjsSyncStep2_def
        room_apply_def ApplyUpdate_def decodeUpdateV1_def hostile_panics wedge_def goto_def)
  then show ?thesis by blast
qed

lemma victim_wedged: "\<exists>r. relay_reach r \<and> relay_step r (wedge 0 victim) \<and> \<not> rm_locked r"
proof -
  obtain data where data: "\<forall>c r. hears c data r = wedge c r" using hostile_wedges by blast
  let ?r = "goto 0 (Handling data) victim"
  have "relay_reach ?r" by (rule relay_reach.step [OF victim_reach relay_step.read [OF victim_fields(1)]])
  moreover have "relay_step ?r (wedge 0 victim)"
    using relay_step.handle [of ?r 0 data] data victim_fields(3) by (simp add: hears_def)
  ultimately show ?thesis using victim_fields(3) by fastforce
qed

text \<open>
  C40. One message of one client deadlocks its room for ever. There is a frame that any connection
  of any room can send: when the relay has read and handled it, the room's mutex is locked, and in
  every run from there it stays so; nobody joins, leaves or has an update applied.
\<close>
theorem relay_deadlock:
  "\<exists>data. \<forall>c r. rm_conns r c = Some Serving \<longrightarrow> \<not> rm_locked r \<longrightarrow> relay_step\<^sup>*\<^sup>* r (hears c data r) \<and>
    (\<forall>r'. relay_step\<^sup>*\<^sup>* (hears c data r) r' \<longrightarrow> rm_locked r' \<and> rm_doc r' = rm_doc r \<and> rm_clients r' = rm_clients r)"
proof -
  obtain data where data: "\<forall>c r. hears c data r = wedge c r" using hostile_wedges by blast
  have "rm_locked r' \<and> rm_doc r' = rm_doc r \<and> rm_clients r' = rm_clients r" if "relay_step\<^sup>*\<^sup>* (wedge c r) r'" for c r r'
    using locked_forever [OF that] by (simp add: wedge_def)
  then show ?thesis using data hears_steps by metis
qed

theorem relay_deadlock_witness: "\<exists>r. relay_reach r \<and> rm_locked r \<and> rm_clients r = [0]"
proof (rule exE [OF relay_deadlock])
  fix data
  assume "\<forall>c r. rm_conns r c = Some Serving \<longrightarrow> \<not> rm_locked r \<longrightarrow> relay_step\<^sup>*\<^sup>* r (hears c data r) \<and>
    (\<forall>r'. relay_step\<^sup>*\<^sup>* (hears c data r) r' \<longrightarrow> rm_locked r' \<and> rm_doc r' = rm_doc r \<and> rm_clients r' = rm_clients r)"
  note run = mp [OF mp [OF spec [OF spec [OF this]] victim_fields(1)] victim_fields(3)]
  have "rm_locked (hears 0 data victim) \<and> rm_clients (hears 0 data victim) = [0]"
    using mp [OF spec [OF conjunct2 [OF run]] rtranclp.rtrancl_refl] victim_fields(2) by simp
  then show ?thesis using relay_reach_steps [OF conjunct1 [OF run] victim_reach] by blast
qed

section \<open>A range that wraps around\<close>

lemma array_delete_loop_wrapped:
  assumes "linked (d_heap d) as" "index + len < index"
  shows "array_delete_loop tx index len (front as) pos d = Some d"
  using assms(1)
proof (induction as arbitrary: pos)
  case (Cons a as)
  have "\<not> pos \<ge> index" if "\<not> pos \<ge> index + len" using that assms(2) by simp
  with Cons show ?case by (subst array_delete_loop.simps) (auto simp: Let_def)
qed (simp add: array_delete_loop.simps)

text \<open>
  When the end of the range wraps around, for instance a delete of the largest length to mean
  the rest of the array, \<open>Array.Delete\<close> deletes nothing at all.
\<close>
theorem array_delete_wraps:
  assumes "array_list d name as" and "d_currentTx d = Some tx" and "2 ^ 64 \<le> unat index + unat len"
  shows "array_Delete name index len d = Ret d"
proof -
  have "unat (index + len) < unat index"
    using assms(3) unat_lt64 [of len] unat_lt64 [of index] by (simp add: unat_word_ariths le_mod_geq)
  then have "index + len < index" by (simp add: word_less_nat_alt)
  moreover from this have "len \<noteq> 0" by auto
  ultimately show ?thesis
    using assms(1) array_delete_loop_wrapped [of d as index len tx 0]
    by (simp add: array_Delete_def assms(2) array_list_start) (simp add: array_list_def)
qed

lemma runes_run_more [simp]: "runes_of [0x63] = [0x63]" "runes_of [0x64] = [0x64]"
  "runes_of [0x61, 0x62, 0x63, 0x64] = [0x61, 0x62, 0x63, 0x64]"  "runes_of [0x62, 0x63, 0x64] = [0x62, 0x63, 0x64]"
  by (simp_all add: runes_of_ascii)

section \<open>Overlapping delete ranges\<close>

definition abcd :: Item where
  "abcd = zero_Item\<lparr>it_ID := mkID 1 0, it_Parent := Some tn, it_Kind := contentString,
     it_Content := GString [0x61, 0x62, 0x63, 0x64], it_Length := 4\<rparr>"

definition four :: Doc where
  "four = (snd (begin_tx GNil (new_doc 2)))\<lparr>d_heap := [abcd], d_store := [(1, [0])], d_share := [(tn, TText (Some 0) [])]\<rparr>"

lemmas run_ranges = applyDeleteRange_def splitAtClock_def insertIntoStore_def

text \<open>
  Two delete ranges of one client do not commute: on \<open>"abcd"\<close>, the range of \<open>bcd\<close> and then the
  range of \<open>c\<close> inside it show the \<open>d\<close> again, as the split inside the deleted item makes a right
  half that is not deleted; in the other order only the \<open>a\<close> is left.
\<close>
lemma overlapping_deletes_diverge:
  "\<exists>d1 d2 e1 e2.
     applyDeleteRange 0 1 1 3 four = Ret d1 \<and> applyDeleteRange 0 1 2 1 d1 = Ret d2 \<and>
     applyDeleteRange 0 1 2 1 four = Ret e1 \<and> applyDeleteRange 0 1 1 3 e1 = Ret e2 \<and>
     text_String tn d1 = Ret [0x61] \<and> text_String tn d2 = Ret [0x61, 0x64] \<and> text_String tn e2 = Ret [0x61]"
  by (simp add: four_def abcd_def run_state run_store run_text run_ranges) (simp add: word_le_nat_alt)


section \<open>Two values in one array insert\<close>

text \<open>
  After a deletion has left the store out of order, the second value of one \<open>Insert\<close> looks the
  first one up and finds an item of a text.
\<close>

definition an :: gostring where "an = [0x61]"
lemmas run_array = array_Insert_def findItemAtIndex_def find_index_loop.simps array_start_def add_value_def array_item_def
  last_id_def array_ToSlice_def slice_loop.simps

definition item_at :: "u64 \<Rightarrow> ID option \<Rightarrow> addr option \<Rightarrow> addr option \<Rightarrow> rune list \<Rightarrow> Item" where
  "item_at k ol l r s = zero_Item\<lparr>it_ID := mkID 1 k, it_OriginLeft := ol, it_Left := l, it_Right := r, it_Parent := Some tn,
    it_Kind := contentString, it_Content := GString (string_of_runes s), it_Length := of_nat (length s)\<rparr>"

lemma three_inserts:
  "\<exists>d1 d2 d3. text_Insert tn 0 [0x61, 0x62] (share_put an newArray open_doc) = Ret d1 \<and> text_Insert tn 2 [0x63] d1 = Ret d2 \<and>
     text_Insert tn 3 [0x64] d2 = Ret d3 \<and> d_heap d3 = [item_at 0 None None (Some 1) [0x61, 0x62],
       item_at 2 (Some (mkID 1 1)) (Some 0) (Some 2) [0x63], item_at 3 (Some (mkID 1 2)) (Some 1) None [0x64]] \<and>
     d_store d3 = [(1, [0, 1, 2])] \<and> d_share d3 = [(tn, TText (Some 0) []), (an, TArray None [])] \<and>
     d_clientID d3 = 1 \<and> d_currentTx d3 = Some 0 \<and> length (d_txs d3) = 1"
  by (simp add: open_doc_def run_state run_store run_text tn_def an_def newArray_def item_at_def)

lemma delete_first:
  assumes "d_heap d = [item_at 0 None None (Some 1) [0x61, 0x62],
       item_at 2 (Some (mkID 1 1)) (Some 0) (Some 2) [0x63], item_at 3 (Some (mkID 1 2)) (Some 1) None [0x64]]"
    "d_store d = [(1, [0, 1, 2])]" "d_share d = [(tn, TText (Some 0) []), (an, TArray None [])]"
    "d_clientID d = 1" "d_currentTx d = Some 0"
  shows "\<exists>d4. text_Delete tn 0 1 d = Ret d4 \<and> d_heap d4 = [(item_at 0 None None (Some 3) [0x61])\<lparr>it_Deleted := True\<rparr>,
       item_at 2 (Some (mkID 1 1)) (Some 3) (Some 2) [0x63], item_at 3 (Some (mkID 1 2)) (Some 1) None [0x64],
       item_at 1 (Some (mkID 1 0)) (Some 0) (Some 1) [0x62]] \<and>
     d_store d4 = [(1, [0, 1, 2, 3])] \<and> d_share d4 = d_share d \<and> d_clientID d4 = 1 \<and> d_currentTx d4 = Some 0"
  by (simp add: assms run_state run_store run_text run_delete item_at_def)


definition value_at :: "u64 \<Rightarrow> ID option \<Rightarrow> addr option \<Rightarrow> goany \<Rightarrow> Item" where
  "value_at k ol l v = zero_Item\<lparr>it_ID := mkID 1 k, it_OriginLeft := ol, it_Left := l, it_Parent := Some an,
    it_Kind := contentAny, it_Content := v, it_Length := 1\<rparr>"

lemma first_value:
  assumes "d_heap d = [i0, i1, i2, i3]" "d_store d = [(1, [0, 1, 2, 3])]" "d_share d = [(tn, TText (Some 0) []), (an, TArray None [])]"
    "d_clientID d = 1" "d_currentTx d = Some 0" "doc_getState d 1 = 2"
  shows "\<exists>d'. add_value 0 an None None v d = (4, d') \<and> d_heap d' = [i0, i1, i2, i3, value_at 2 None None v] \<and>
    d_store d' = [(1, [0, 1, 2, 3, 4])] \<and> d_share d' = [(tn, TText (Some 0) []), (an, TArray (Some 4) [])] \<and>
    d_clientID d' = 1"
  using assms
  by (simp add: add_value_def array_item_def last_id_def link_item_def setFirstItem_def share_put_def store_add_def addItem_def
     store_items_def upd_item_def alloc_def Let_def value_at_def tx_addItem_def tn_def an_def zero_Item_def)

lemma second_value:
  assumes "d_heap d = [i0, item_at 2 ol l r s, i2, i3, value_at 2 None None w]" "d_store d = [(1, [0, 1, 2, 3, 4])]"
    "d_clientID d = 1" "doc_getState d 1 = 3" "length s = 1"
  shows "\<exists>d'. add_value 0 an (Some 1) None v d = (5, d') \<and>
   d_heap d' = [i0, item_at 2 ol l (Some 5) s, i2, i3, value_at 2 None None w, value_at 3 (Some (mkID 1 2)) (Some 1) v] \<and>
   d_share d' = d_share d"
  using assms
  by (simp add: add_value_def array_item_def last_id_def link_item_def setFirstItem_def share_put_def store_add_def addItem_def
     store_items_def upd_item_def alloc_def Let_def value_at_def tx_addItem_def tn_def an_def zero_Item_def item_at_def)

lemma insert_two:
  assumes "d_heap d = [(item_at 0 None None (Some 3) [0x61])\<lparr>it_Deleted := True\<rparr>,
       item_at 2 (Some (mkID 1 1)) (Some 3) (Some 2) [0x63], item_at 3 (Some (mkID 1 2)) (Some 1) None [0x64],
       item_at 1 (Some (mkID 1 0)) (Some 0) (Some 1) [0x62]]"
    "d_store d = [(1, [0, 1, 2, 3])]" "d_share d = [(tn, TText (Some 0) []), (an, TArray None [])]"
    "d_clientID d = 1" "d_currentTx d = Some 0"
  shows "text_String tn d = Ret [0x62, 0x63, 0x64]"
   "\<exists>d5. array_Insert an 0 [GBool False, GBool True] d = Ret d5 \<and>
     text_String tn d5 = Ret [0x62, 0x63] \<and> array_ToSlice an d5 = Ret [GBool False]"
proof -
  show "text_String tn d = Ret [0x62, 0x63, 0x64]"
    by (simp add: assms run_state run_text item_at_def)
  have st: "doc_getState d 1 = 2" by (simp add: assms run_store item_at_def zero_Item_def Let_def)
  obtain d1 where d1: "add_value 0 an None None (GBool False) d = (4, d1)" "d_heap d1 = d_heap d @ [value_at 2 None None (GBool False)]"
    "d_store d1 = [(1, [0, 1, 2, 3, 4])]" "d_share d1 = [(tn, TText (Some 0) []), (an, TArray (Some 4) [])]" "d_clientID d1 = 1"
    using first_value [OF assms st] assms(1) by auto
  have st1: "doc_getState d1 1 = 3" by (simp add: d1 assms(1) run_store value_at_def zero_Item_def Let_def)
  have hit: "doc_getItem d1 (mkID 1 2) = Some 1"
    by (simp add: d1 assms(1) run_store value_at_def item_at_def zero_Item_def Let_def)
  have h1: "d_heap d1 = [(item_at 0 None None (Some 3) [0x61])\<lparr>it_Deleted := True\<rparr>,
       item_at 2 (Some (mkID 1 1)) (Some 3) (Some 2) [0x63], item_at 3 (Some (mkID 1 2)) (Some 1) None [0x64],
       item_at 1 (Some (mkID 1 0)) (Some 0) (Some 1) [0x62], value_at 2 None None (GBool False)]"
    by (simp add: d1(2) assms(1))
  obtain d2 where d2: "add_value 0 an (Some 1) None (GBool True) d1 = (5, d2)"
    "d_heap d2 = [(item_at 0 None None (Some 3) [0x61])\<lparr>it_Deleted := True\<rparr>,
       item_at 2 (Some (mkID 1 1)) (Some 3) (Some 5) [0x63], item_at 3 (Some (mkID 1 2)) (Some 1) None [0x64],
       item_at 1 (Some (mkID 1 0)) (Some 0) (Some 1) [0x62], value_at 2 None None (GBool False), value_at 3 (Some (mkID 1 2)) (Some 1) (GBool True)]"
    "d_share d2 = d_share d1"
    using second_value [OF h1 d1(3,5) st1, of "GBool True"] by auto
  have "array_Insert an 0 [GBool False, GBool True] d = Ret d2"
    using d1 d2 st1 hit assms(1,3-5)
    by (simp add: array_Insert_def findItemAtIndex_def array_start_def tn_def an_def value_at_def zero_Item_def)
  moreover have "text_String tn d2 = Ret [0x62, 0x63]"
    by (simp add: d1 d2 run_state run_text item_at_def value_at_def)
  moreover have "array_ToSlice an d2 = Ret [GBool False]"
    by (simp add: d1 d2 run_state run_array item_at_def value_at_def tn_def an_def)
  ultimately show "\<exists>d5. array_Insert an 0 [GBool False, GBool True] d = Ret d5 \<and>
     text_String tn d5 = Ret [0x62, 0x63] \<and> array_ToSlice an d5 = Ret [GBool False]" by blast
qed

text \<open>
  Inserting two values into an array can cut a text of the same document: after three inserts
  and a deletion in the text, the second value is linked behind the text's \<open>c\<close>, the array has
  one value, and the text has lost its last character.
\<close>
theorem array_insert_cuts_text:
  "\<exists>d1 d2 d3 d4 d5.
     text_Insert tn 0 [0x61, 0x62] (share_put an newArray open_doc) = Ret d1 \<and> text_Insert tn 2 [0x63] d1 = Ret d2 \<and>
     text_Insert tn 3 [0x64] d2 = Ret d3 \<and> text_Delete tn 0 1 d3 = Ret d4 \<and> text_String tn d4 = Ret [0x62, 0x63, 0x64] \<and>
     array_Insert an 0 [GBool False, GBool True] d4 = Ret d5 \<and>
     text_String tn d5 = Ret [0x62, 0x63] \<and> array_ToSlice an d5 = Ret [GBool False]"
proof -
  obtain d1 d2 d3 where 3: "text_Insert tn 0 [0x61, 0x62] (share_put an newArray open_doc) = Ret d1"
    "text_Insert tn 2 [0x63] d1 = Ret d2" "text_Insert tn 3 [0x64] d2 = Ret d3"
    "d_heap d3 = [item_at 0 None None (Some 1) [0x61, 0x62],
       item_at 2 (Some (mkID 1 1)) (Some 0) (Some 2) [0x63], item_at 3 (Some (mkID 1 2)) (Some 1) None [0x64]]"
    "d_store d3 = [(1, [0, 1, 2])]" "d_share d3 = [(tn, TText (Some 0) []), (an, TArray None [])]"
    "d_clientID d3 = 1" "d_currentTx d3 = Some 0"
    using three_inserts by blast
  obtain d4 where 4: "text_Delete tn 0 1 d3 = Ret d4" "d_heap d4 = [(item_at 0 None None (Some 3) [0x61])\<lparr>it_Deleted := True\<rparr>,
       item_at 2 (Some (mkID 1 1)) (Some 3) (Some 2) [0x63], item_at 3 (Some (mkID 1 2)) (Some 1) None [0x64],
       item_at 1 (Some (mkID 1 0)) (Some 0) (Some 1) [0x62]]"
    "d_store d4 = [(1, [0, 1, 2, 3])]" "d_share d4 = d_share d3" "d_clientID d4 = 1" "d_currentTx d4 = Some 0"
    using delete_first [OF 3(4-8)] by blast
  then have "d_share d4 = [(tn, TText (Some 0) []), (an, TArray None [])]" using 3(6) by simp
  from insert_two [OF 4(2,3) this 4(5,6)] 3(1-3) 4(1) show ?thesis by metis
qed

text \<open>The same call can make the array a cycle.\<close>

definition pushed_at :: "u64 \<Rightarrow> ID option \<Rightarrow> addr option \<Rightarrow> addr option \<Rightarrow> goany \<Rightarrow> Item" where
  "pushed_at k ol l r v = (value_at k ol l v)\<lparr>it_Right := r\<rparr>"

lemma push_two:
  "\<exists>d1 d2 d3. text_Insert tn 0 [0x61, 0x62] (share_put an newArray open_doc) = Ret d1 \<and>
     array_Push an [GBool False, GBool True] d1 = Ret d2 \<and> text_Delete tn 0 1 d2 = Ret d3 \<and>
     d_heap d3 = [(item_at 0 None None (Some 3) [0x61])\<lparr>it_Deleted := True\<rparr>, pushed_at 2 None None (Some 2) (GBool False),
       pushed_at 3 (Some (mkID 1 2)) (Some 1) None (GBool True), item_at 1 (Some (mkID 1 0)) (Some 0) None [0x62]] \<and>
     d_store d3 = [(1, [0, 1, 2, 3])] \<and> d_share d3 = [(tn, TText (Some 0) []), (an, TArray (Some 1) [])] \<and>
     d_clientID d3 = 1 \<and> d_currentTx d3 = Some 0"
  by (simp add: open_doc_def run_state run_store run_text run_delete tn_def an_def newArray_def item_at_def value_at_def pushed_at_def
     array_Push_def array_start_def last_loop.simps add_value_def array_item_def last_id_def)

lemma cycle_first:
  assumes "d_heap d = [i0, pushed_at 2 None None r v, i2, i3]" "d_store d = [(1, [0, 1, 2, 3])]"
    "d_share d = [(tn, TText (Some 0) []), (an, TArray (Some 1) [])]" "d_clientID d = 1" "doc_getState d 1 = 2"
  shows "\<exists>d'. add_value 0 an None (Some 1) w d = (4, d') \<and>
    d_heap d' = [i0, pushed_at 2 None (Some 4) r v, i2, i3, pushed_at 2 None None (Some 1) w] \<and>
    d_store d' = [(1, [0, 1, 2, 3, 4])] \<and> array_start d' an = Some 4 \<and> d_clientID d' = 1 \<and> d_currentTx d' = d_currentTx d"
  using assms
  by (simp add: add_value_def array_item_def last_id_def link_item_def setFirstItem_def share_put_def store_add_def addItem_def
     store_items_def upd_item_def alloc_def Let_def value_at_def pushed_at_def tx_addItem_def array_start_def tn_def an_def zero_Item_def)

lemma cycle_second:
  assumes "d_heap d = [i0, pushed_at 2 None l r v, i2, i3, i4]" "d_clientID d = 1" "doc_getState d 1 = 3"
  shows "\<exists>d'. add_value 0 an (Some 1) (Some 1) w d = (5, d') \<and>
    d_heap d' = [i0, pushed_at 2 None (Some 5) (Some 5) v, i2, i3, i4, pushed_at 3 (Some (mkID 1 2)) (Some 1) (Some 1) w] \<and>
    d_share d' = d_share d \<and> d_currentTx d' = d_currentTx d"
  using assms
  by (simp add: add_value_def array_item_def last_id_def link_item_def store_add_def addItem_def
     upd_item_def alloc_def Let_def value_at_def pushed_at_def tx_addItem_def zero_Item_def)

lemma insert_cycle:
  assumes "d_heap d = [(item_at 0 None None (Some 3) [0x61])\<lparr>it_Deleted := True\<rparr>, pushed_at 2 None None (Some 2) (GBool False),
       pushed_at 3 (Some (mkID 1 2)) (Some 1) None (GBool True), item_at 1 (Some (mkID 1 0)) (Some 0) None [0x62]]"
     "d_store d = [(1, [0, 1, 2, 3])]" "d_share d = [(tn, TText (Some 0) []), (an, TArray (Some 1) [])]"
     "d_clientID d = 1" "d_currentTx d = Some 0"
  shows "\<exists>d'. array_Insert an 0 [GNil, GNil] d = Ret d' \<and> array_start d' an = Some 4 \<and>
    it_Right (d_heap d' ! 4) = Some 1 \<and> it_Left (d_heap d' ! 1) = Some 5 \<and> it_Right (d_heap d' ! 1) = Some 5 \<and>
    it_Right (d_heap d' ! 5) = Some 1 \<and> d_currentTx d' = Some 0"
proof -
  have st: "doc_getState d 1 = 2" "array_start d an = Some 1"
    by (simp_all add: assms run_store item_at_def zero_Item_def array_start_def tn_def an_def)
  obtain d1 where d1: "add_value 0 an None (Some 1) GNil d = (4, d1)"
    "d_heap d1 = [(item_at 0 None None (Some 3) [0x61])\<lparr>it_Deleted := True\<rparr>, pushed_at 2 None (Some 4) (Some 2) (GBool False),
       pushed_at 3 (Some (mkID 1 2)) (Some 1) None (GBool True), item_at 1 (Some (mkID 1 0)) (Some 0) None [0x62],
       pushed_at 2 None None (Some 1) GNil]"
    "d_store d1 = [(1, [0, 1, 2, 3, 4])]" "array_start d1 an = Some 4" "d_clientID d1 = 1" "d_currentTx d1 = Some 0"
    using cycle_first [OF assms(1-4) st(1), of GNil] assms(5) by auto
  have st1: "doc_getState d1 1 = 3" "doc_getItem d1 (mkID 1 2) = Some 1"
    by (simp_all add: d1(2,3) run_store value_at_def pushed_at_def item_at_def zero_Item_def)
  obtain d2 where d2: "add_value 0 an (Some 1) (Some 1) GNil d1 = (5, d2)"
    "d_heap d2 = [(item_at 0 None None (Some 3) [0x61])\<lparr>it_Deleted := True\<rparr>, pushed_at 2 None (Some 5) (Some 5) (GBool False),
       pushed_at 3 (Some (mkID 1 2)) (Some 1) None (GBool True), item_at 1 (Some (mkID 1 0)) (Some 0) None [0x62],
       pushed_at 2 None None (Some 1) GNil, pushed_at 3 (Some (mkID 1 2)) (Some 1) (Some 1) GNil]"
    "d_share d2 = d_share d1" "d_currentTx d2 = Some 0"
    using cycle_second [OF d1(2,5) st1(1), of GNil] d1(6) by auto
  have "it_Right (d_heap d1 ! 4) = Some 1" by (simp add: d1(2) pushed_at_def)
  then have "array_Insert an 0 [GNil, GNil] d = Ret d2"
    using d1(1,5) d2(1) st st1 assms(4,5) by (simp add: array_Insert_def findItemAtIndex_def)
  moreover have "array_start d2 an = Some 4" using d1(4) d2(3) by (simp add: array_start_def)
  ultimately show ?thesis using d2(2,4) by (simp add: pushed_at_def value_at_def)
qed

text \<open>A loop along right neighbours does not end when they stay in a set of items.\<close>

definition endless :: "heap \<Rightarrow> addr set \<Rightarrow> bool" where
  "endless h S \<longleftrightarrow> (\<forall>a \<in> S. \<exists>b \<in> S. it_Right (h ! a) = Some b)"

lemma endless_loops:
  assumes "endless h S" "a \<in> S"
  shows "slice_loop h (Some a) out = None" "count_loop h (Some a) n = None" "last_loop h (Some a) l = None"
proof -
  have "h' = h \<longrightarrow> p \<notin> Some ` S" if "slice_loop h' p out = Some r" for h' p out r
    by (rule slice_loop.raw_induct [OF _ that, where P = "\<lambda>h' p out r. h' = h \<longrightarrow> p \<notin> Some ` S"])
      (use assms(1) in \<open>fastforce simp: endless_def split: option.splits\<close>)
  then show "slice_loop h (Some a) out = None" using assms(2) by (cases "slice_loop h (Some a) out") blast+
  have "h' = h \<longrightarrow> p \<notin> Some ` S" if "count_loop h' p out = Some r" for h' p out r
    by (rule count_loop.raw_induct [OF _ that, where P = "\<lambda>h' p out r. h' = h \<longrightarrow> p \<notin> Some ` S"])
      (use assms(1) in \<open>fastforce simp: endless_def split: option.splits\<close>)
  then show "count_loop h (Some a) n = None" using assms(2) by (cases "count_loop h (Some a) n") blast+
  have "h' = h \<longrightarrow> p \<notin> Some ` S" if "last_loop h' p out = Some r" for h' p out r
    by (rule last_loop.raw_induct [OF _ that, where P = "\<lambda>h' p out r. h' = h \<longrightarrow> p \<notin> Some ` S"])
      (use assms(1) in \<open>fastforce simp: endless_def split: option.splits\<close>)
  then show "last_loop h (Some a) l = None" using assms(2) by (cases "last_loop h (Some a) l") blast+
qed

text \<open>
  Inserting two values into an array can make it a cycle: after a text insert, a push of two values
  and a deletion of the text's first character, the second value of the insert has one and the same
  item as both neighbours. From then on \<open>ToSlice\<close>, \<open>Len\<close> and \<open>Push\<close> do not return.
\<close>
theorem array_insert_makes_cycle:
  "\<exists>d1 d2 d3 d4.
     text_Insert tn 0 [0x61, 0x62] (share_put an newArray open_doc) = Ret d1 \<and>
     array_Push an [GBool False, GBool True] d1 = Ret d2 \<and> text_Delete tn 0 1 d2 = Ret d3 \<and>
     array_Insert an 0 [GNil, GNil] d3 = Ret d4 \<and> it_Left (d_heap d4 ! 1) = it_Right (d_heap d4 ! 1) \<and>
     array_ToSlice an d4 = Diverge \<and> array_Len an d4 = Diverge \<and> array_Push an [GNil] d4 = Diverge"
proof -
  obtain d1 d2 d3 where 3: "text_Insert tn 0 [0x61, 0x62] (share_put an newArray open_doc) = Ret d1"
     "array_Push an [GBool False, GBool True] d1 = Ret d2" "text_Delete tn 0 1 d2 = Ret d3"
     "d_heap d3 = [(item_at 0 None None (Some 3) [0x61])\<lparr>it_Deleted := True\<rparr>, pushed_at 2 None None (Some 2) (GBool False),
       pushed_at 3 (Some (mkID 1 2)) (Some 1) None (GBool True), item_at 1 (Some (mkID 1 0)) (Some 0) None [0x62]]"
     "d_store d3 = [(1, [0, 1, 2, 3])]" "d_share d3 = [(tn, TText (Some 0) []), (an, TArray (Some 1) [])]"
     "d_clientID d3 = 1" "d_currentTx d3 = Some 0"
    using push_two by blast
  obtain d4 where 4: "array_Insert an 0 [GNil, GNil] d3 = Ret d4" "array_start d4 an = Some 4" "it_Right (d_heap d4 ! 4) = Some 1"
     "it_Left (d_heap d4 ! 1) = Some 5" "it_Right (d_heap d4 ! 1) = Some 5" "it_Right (d_heap d4 ! 5) = Some 1" "d_currentTx d4 = Some 0"
    using insert_cycle [OF 3(4-8)] by blast
  have "endless (d_heap d4) {4, 1, 5}" using 4 by (simp add: endless_def)
  from endless_loops [OF this, of 4] 4(2,7) have "array_ToSlice an d4 = Diverge" "array_Len an d4 = Diverge"
    "array_Push an [GNil] d4 = Diverge"
    by (simp_all add: array_ToSlice_def array_Len_def array_Push_def)
  with 3(1-3) 4(1,4,5) show ?thesis by metis
qed


section \<open>Supplementary characters from a peer\<close>

definition emoji2 :: gostring where
  "emoji2 = string_of_runes [0x1F600, 0x1F600]"

lemma emoji2_bytes: "emoji2 = [0xF0, 0x9F, 0x98, 0x80, 0xF0, 0x9F, 0x98, 0x80]"
  by (simp add: emoji2_def string_of_runes_def encode_rune.simps byte_of_nat_def valid_rune_def)

lemma emoji2_runes: "runes_of emoji2 = [0x1F600, 0x1F600]" "utf16Len emoji2 = 4" "emoji2 \<noteq> []" "length emoji2 = 8"
proof -
  show r: "runes_of emoji2 = [0x1F600, 0x1F600]" unfolding emoji2_def by (subst runes_of_string_of_runes) (simp_all add: valid_rune_def)
  show "utf16Len emoji2 = 4" using r by (simp add: utf16Len_def)
  show "emoji2 \<noteq> []" "length emoji2 = 8" by (simp_all add: emoji2_bytes)
qed

lemma emoji_run:
  "\<exists>d. apply_decoded [arrived_item 1 tn emoji2] [] GNil (new_doc 2) = Ret d \<and> text_Len tn d = Ret 4 \<and>
     text_String tn d = Ret emoji2 \<and> Transact (text_Insert tn 3 [0x78]) GNil d = Panic SliceBounds"
  by (simp add: apply_decoded_def accumulate_ds_def apply_ds_def arrived_item_def run_state run_store
      run_integrate run_text tn_def emoji2_runes emoji2_def [symmetric] Transact_def text_Len_def len_loop.simps del: string_of_runes_def)

text \<open>
  An insert inside a text can panic: a document that has received two supplementary characters
  from a peer reports length 4, and inserting at index 3 panics on a slice bound, as the decoded
  item's length counts UTF-16 units and the split counts runes.
\<close>
theorem insert_panics_on_received_text:
  "\<exists>u d. encodeUpdateV1 [first_item 1 tn emoji2] [] = Ret u \<and> ApplyUpdate u GNil (new_doc 2) = Ret d \<and>
     text_String tn d = Ret emoji2 \<and> text_Len tn d = Ret 4 \<and>
     Transact (text_Insert tn 3 [0x78]) GNil d = Panic SliceBounds"
proof -
  obtain u where u: "encodeUpdateV1 [first_item 1 tn emoji2] [] = Ret u"
    "decodeUpdateV1 u = Ret ([arrived_item 1 tn emoji2], [])"
    using sent_update [OF first_update_ok [of tn emoji2 1]]
    by (auto simp: tn_def bytes_fit_def max_alloc_def first_update_decoded emoji2_runes)
  then show ?thesis using emoji_run by (auto simp: ApplyUpdate_def)
qed

section \<open>A formatting mark\<close>

text \<open>What the decoder makes of a formatting mark: an item of length zero.\<close>

definition format_mark :: Item where
  "format_mark = zero_Item\<lparr>it_ID := mkID 1 0, it_parentName := tn, it_Kind := contentFormat,
     it_Content := GObj [(gostr ''key'', GString []), (gostr ''value'', GNil)]\<rparr>"

lemma first_mark:
  "\<exists>d. integrateItem format_mark (new_doc 2) = Ret d \<and> d_heap d = [format_mark\<lparr>it_Parent := Some tn\<rparr>] \<and>
     d_store d = [(1, [0])] \<and> d_share d = [(tn, TText (Some 0) [])] \<and> d_ds d = []"
  by (simp add: format_mark_def tn_def run_state run_store run_integrate link_item_def setFirstItem_def)

lemma second_mark:
  assumes "d_heap d = [format_mark\<lparr>it_Parent := Some tn\<rparr>]" "d_store d = [(1, [0])]"
    "d_share d = [(tn, TText (Some 0) [])]" "d_ds d = []"
  shows "\<exists>d'. integrateItem format_mark d = Ret d' \<and> d_store d' = [(1, [0, 1])]"
proof -
  have "doc_getItem d (mkID 1 0) = None" by (simp add: assms run_store format_mark_def zero_Item_def Let_def)
  then show ?thesis
    using assms
    by (simp add: format_mark_def tn_def run_state run_store integrateItem_def resolve_by_name_def inherit_parent_def
        place_item_def resolveParent_def itemAfter_def firstItem_def lssIsBefore_def compareIDs_def link_item_def
        lss_scan.simps [of _ _ _ _ None] lss_scan.simps [of _ _ _ _ "Some _"])
qed

text \<open>
  Integrating a formatting mark is not idempotent: the decoder gives it length zero, so no
  identifier is ever found in it, and receiving the same mark twice stores it twice.
\<close>
theorem format_mark_duplicated:
  "\<exists>d1 d2. integrateItem format_mark (new_doc 2) = Ret d1 \<and> integrateItem format_mark d1 = Ret d2 \<and>
     store_items (d_store d1) 1 = [0] \<and> store_items (d_store d2) 1 = [0, 1]"
  using first_mark second_mark by (fastforce simp: store_items_def)

end
