(* ===== verification/Appending.thy ===== *)
theory Appending
  imports Sessions Deviations
begin

text \<open>
  Peers that take turns. Each one writes behind all the text it has, and every other peer applies
  the update of that transaction before anyone writes again. A local insert at the end leaves the
  document as receiving its item leaves a peer's, so one invariant (\<open>arranged\<close>, with the same
  items for all) holds of the writer and of the readers.
\<close>

section \<open>The item of an insert at the end\<close>

definition tail_origin :: "heap \<Rightarrow> addr list \<Rightarrow> ID option" where
  "tail_origin h as = (case rear as of None \<Rightarrow> None
     | Some l \<Rightarrow> Some (mkID (Client (it_ID (h ! l))) (Clock (it_ID (h ! l)) + it_Length (h ! l) - 1)))"

definition typed_item :: "gostring \<Rightarrow> ID \<Rightarrow> ID option \<Rightarrow> gostring \<Rightarrow> Item" where
  "typed_item name i origin s = zero_Item\<lparr>it_ID := i, it_OriginLeft := origin, it_Parent := Some name,
     it_Kind := contentString, it_Content := GString s, it_Length := of_nat (rune_count s)\<rparr>"

text \<open>The same item as a peer decodes it.\<close>

definition heard_item :: "gostring \<Rightarrow> ID \<Rightarrow> ID option \<Rightarrow> gostring \<Rightarrow> Item" where
  "heard_item name i origin s = zero_Item\<lparr>it_ID := i, it_OriginLeft := origin,
     it_parentName := (if origin = None then name else []),
     it_Kind := contentString, it_Content := GString s, it_Length := of_nat (utf16Len s)\<rparr>"

lemma typed_update:
  assumes "bytes_fit name" "bytes_fit s"
  shows "update_ok (pending_update [typed_item name i origin s] [])"
    and "update_items (update_canon (pending_update [typed_item name i origin s] [])) = [heard_item name i origin s]"
    and "update_ds (update_canon (pending_update [typed_item name i origin s] [])) = []"
  using assms
  by (cases i; cases origin; simp add: run_encode run_decode pending_update_def typed_item_def heard_item_def)+

section \<open>Where it goes\<close>

text \<open>Items with something to show, and with the length of what they show.\<close>

definition said :: "Item \<Rightarrow> bool" where
  "said x \<longleftrightarrow> shown x \<noteq> [] \<and> unat (it_Length x) = length (shown x)"

lemma vis_empty: "vis h as = [] \<Longrightarrow> \<forall>a \<in> set as. shown (h ! a) \<noteq> [] \<Longrightarrow> as = []"
  by (cases as) auto

lemma position_at_end:
  assumes t: "text_list d name as" and small: "length (text_vis d as) < 2 ^ 64" and all: "\<forall>a \<in> set as. shown (d_heap d ! a) \<noteq> []"
  shows "findPositionAt name (of_nat (length (text_vis d as))) d = Ret ((rear as, None), d)"
proof (cases "as = []")
  case True
  then show ?thesis using t
    by (simp add: findPositionAt_def text_vis_def text_list_start skip_deleted_right.simps rear_def)
next
  case False
  let ?h = "d_heap d" and ?n = "of_nat (length (text_vis d as)) :: u64"
  have n: "unat ?n = length (vis ?h as)" using small by (simp add: unat_of_nat_ok text_vis_def)
  have l: "linked ?h as" "\<forall>a \<in> set as. text_item (?h ! a)" using t by (auto simp: text_list_def)
  have "vis ?h as \<noteq> []" using False all vis_empty by blast
  then have pos: "unat (0 :: u64) < unat ?n" "?n \<noteq> 0" using n by auto
  have "\<exists>r. find_pos_loop ?h ?n (front as) 0 None = Some r \<and> pos_at ?h as (unat ?n - unat (0 :: u64)) None r"
    by (rule find_pos_loop_list [OF l]) (use small pos in \<open>simp_all add: text_vis_def\<close>)
  then obtain r where r: "find_pos_loop ?h ?n (front as) 0 None = Some r" "pos_at ?h as (length (vis ?h as)) None r"
    using n by auto
  show ?thesis
  proof (cases r)
    case (After a)
    then obtain xs ys where x: "as = xs @ a # ys" "length (vis ?h (xs @ [a])) = length (vis ?h as)"
      using r(2) by (auto simp: pos_at_def)
    then have "ys = []" using vis_empty [of ?h ys] all by simp
    then have "rear as = Some a" "it_Right (?h ! a) = None"
      using x(1) l(1) linked_right [of ?h xs a ys] by (simp_all add: rear_def)
    then show ?thesis using r(1) After pos(2) text_list_start [OF t]
      by (simp add: findPositionAt_def skip_deleted_right.simps)
  next
    case (Inside a off)
    then show ?thesis using r(2) by (auto simp: pos_at_def)
  next
    case (AtEnd p)
    then show ?thesis using r(2) by (auto simp: pos_at_def)
  qed
qed

lemma arranged_shown: "arranged name its d as \<Longrightarrow> \<forall>x \<in> set its. shown x \<noteq> [] \<Longrightarrow> \<forall>a \<in> set as. shown (d_heap d ! a) \<noteq> []"
  using arranged_member by (fastforce dest: alike_shown)

lemma arranged_vis: "arranged name its d as \<Longrightarrow> text_vis d as = concat (map shown (arrange its))"
  using alike_vis [of "d_heap d" as "arrange its"] by (simp add: arranged_def text_vis_def)

text \<open>The origin is the last character, which the last item and no other one owns.\<close>

lemma tail_owned:
  assumes pre: "arranged name its d as" and said: "\<forall>x \<in> set its. said x" and p: "tail_origin (d_heap d) as = Some p"
  shows "as \<noteq> []" "item_owns (d_heap d ! last as) p" "\<exists>x \<in> set its. item_owns x p"
proof -
  let ?l = "d_heap d ! last as"
  show ne: "as \<noteq> []" using p by (auto simp: tail_origin_def rear_def)
  then have p': "p = mkID (Client (it_ID ?l)) (Clock (it_ID ?l) + it_Length ?l - 1)" using p by (simp add: tail_origin_def rear_def)
  have l: "last as \<in> set as" using ne by simp
  obtain x where x: "x \<in> set its" "alike ?l x" using arranged_member [OF pre l] by blast
  have "clocks_ok (d_heap d) (store_items (d_store d) (Client (it_ID ?l)))" using pre by (simp add: arranged_def)
  moreover have "last as \<in> set (store_items (d_store d) (Client (it_ID ?l)))" using pre l by (simp add: arranged_def)
  ultimately have "item_end (d_heap d) (last as) < 2 ^ 64" by (rule clocks_ok_end)
  then have sum: "unat (Clock (it_ID ?l)) + unat (it_Length ?l) < 2 ^ 64" by (simp add: item_end_def item_clock_def)
  have "0 < unat (it_Length ?l)" using said x by (auto simp: said_def alike_def agree_def)
  then have "unat (Clock (it_ID ?l) + it_Length ?l - 1) = unat (Clock (it_ID ?l)) + unat (it_Length ?l) - 1"
    using sum by (subst unat_minus_one) (auto simp: unat_plus_ok word_neq_0_conv word_less_nat_alt)
  then show owns: "item_owns ?l p" using \<open>0 < unat (it_Length ?l)\<close> by (simp add: p' item_owns_def item_start_def item_stop_def)
  then show "\<exists>x \<in> set its. item_owns x p" using x alike_owns by blast
qed

lemma sole_owner:
  assumes "arranged name its d as" "a \<in> set as" "b \<in> set as" "item_owns (d_heap d ! a) p" "item_owns (d_heap d ! b) p"
  shows "a = b"
proof -
  have "getItem (d_heap d) (d_store d) p = Some e" if "e \<in> set as" "item_owns (d_heap d ! e) p" for e
    using assms(1) that by (intro getItem_owner) (auto simp: arranged_def item_owns_def)
  from this [OF assms(2,4)] this [OF assms(3,5)] show ?thesis by simp
qed

lemma tail_owner:
  assumes pre: "arranged name its d as" and said: "\<forall>x \<in> set its. said x" and share: "gm_get (d_share d) name \<noteq> None"
  shows "owner (d_heap d @ [i]) (tail_origin (d_heap d) as) as = (as, [])"
proof (cases "tail_origin (d_heap d) as")
  case None
  then show ?thesis by (auto simp: owner_def tail_origin_def rear_def split: if_splits)
next
  case (Some p)
  let ?h = "d_heap d @ [i]"
  have at: "?h ! b = d_heap d ! b" if "b \<in> set as" for b using arranged_bound [OF pre that] by (simp add: nth_append)
  obtain us vs where own: "owner ?h (Some p) as = (us, vs)" by fastforce
  note tail = tail_owned [OF pre said Some]
  have last_in: "last as \<in> set as" using tail(1) by simp
  then have "\<exists>b \<in> set as. item_owns (?h ! b) p" using tail(2) at by metis
  then obtain b where b: "rear us = Some b" "b \<in> set as" "item_owns (d_heap d ! b) p"
    using owner_rear [OF _ own] at by metis
  then have "b = last as" using sole_owner [OF pre _ last_in _ tail(2)] by blast
  then have "last as \<in> set us" using b(1) last_in_set [of us] by (auto simp: rear_def simp del: last_in_set split: if_splits)
  moreover have "distinct as" using pre share by (simp add: arranged_def text_list_def)
  ultimately have "vs = []" using owner_append [OF own] by (cases vs rule: rev_cases) auto
  then show ?thesis using own owner_append [OF own] Some by simp
qed

lemma clocks_ok_last: "clocks_ok h as \<Longrightarrow> a \<in> set as \<Longrightarrow> item_end h a \<le> item_end h (last as)"
proof (induction h as arbitrary: a rule: clocks_ok.induct)
  case (3 h x y as)
  have "item_end h x \<le> item_end h y" using 3(2) by (simp add: item_end_def)
  also have "item_end h y \<le> item_end h (last (y # as))" using 3 by simp
  finally show ?case using 3 by (cases "a = x") simp_all
qed simp_all

text \<open>The new item can be integrated wherever the old ones have been.\<close>

lemma item_stop_state:
  assumes pre: "arranged name its d as" and x: "x \<in> set its" "Client (it_ID x) = c"
  shows "item_stop x \<le> unat (doc_getState d c)"
proof -
  let ?l = "store_items (d_store d) c"
  have ok: "clocks_ok (d_heap d) ?l" using pre by (simp add: arranged_def)
  obtain b where b: "b \<in> set as" "alike (d_heap d ! b) x"
    using pre list_all2_bex' [of "\<lambda>a x. alike (d_heap d ! a) x" as "arrange its" x] x(1) by (auto simp: arranged_def set_arrange)
  then have "b \<in> set ?l" using pre x(2) by (simp add: arranged_def alike_def)
  then have "item_end (d_heap d) b \<le> item_end (d_heap d) (last ?l)" "?l \<noteq> []"
    using clocks_ok_last [OF ok] by auto
  then show ?thesis using getState_end [OF ok] b(2)
    by (simp add: doc_getState_def item_end_def item_clock_def item_stop_def item_start_def alike_def agree_def)
qed

lemma state_bound:
  assumes pre: "arranged name its d as" and stops: "\<forall>x \<in> set its. item_stop x \<le> n"
  shows "unat (doc_getState d c) \<le> n"
proof -
  let ?l = "store_items (d_store d) c"
  have ok: "clocks_ok (d_heap d) ?l" using pre by (simp add: arranged_def)
  have "item_end (d_heap d) (last ?l) \<le> n" if "?l \<noteq> []"
  proof -
    have "last ?l \<in> set as" using last_in_set [OF that] pre by (auto simp: arranged_def)
    then obtain x where "x \<in> set its" "alike (d_heap d ! last ?l) x" using arranged_member [OF pre] by blast
    then show ?thesis using stops by (auto simp: alike_def agree_def item_end_def item_clock_def item_stop_def item_start_def)
  qed
  then show ?thesis by (simp add: doc_getState_def getState_end [OF ok])
qed

lemma heard_ready:
  fixes c :: u64
  assumes pre: "arranged name its d as" and said: "\<forall>x \<in> set its. said x \<and> item_stop x \<le> n"
    and s: "s \<noteq> []" "utf16Len s = rune_count s" "n + rune_count s < 2 ^ 64"
    and origin: "\<forall>p. origin = Some p \<longrightarrow> (\<exists>x \<in> set its. item_owns x p)"
  defines "it \<equiv> heard_item name (mkID c (doc_getState d c)) origin s"
  shows "item_ready (set its) it" "said it" "item_stop it \<le> n + rune_count s" "plain_insert name it" "shown it = runes_of s"
proof -
  have shown: "shown it = runes_of s" by (simp add: it_def heard_item_def zero_Item_def shown_def item_runes_def)
  have len: "unat (it_Length it) = rune_count s" using s(2,3) by (simp add: it_def heard_item_def unat_of_nat_ok)
  have "runes_of s \<noteq> []" using s(1) by (cases s) (simp_all add: runes_of.simps Let_def split_beta)
  then show said': "said it" using shown len by (simp add: said_def rune_count_def)
  have start: "item_start it = unat (doc_getState d c)" "Client (it_ID it) = c"
    by (simp_all add: it_def heard_item_def item_start_def)
  show stop: "item_stop it \<le> n + rune_count s"
    using state_bound [OF pre, of n c] said by (simp add: item_stop_def start len)
  have "item_start i < item_start it \<and> item_stop i \<le> item_start it" if "i \<in> set its" "Client (it_ID i) = c" for i
  proof -
    have "0 < unat (it_Length i)" using said that(1) by (auto simp: said_def)
    then show ?thesis using item_stop_state [OF pre that] by (simp add: start item_stop_def)
  qed
  moreover have "\<exists>i \<in> set its. item_owns i p" if "it_OriginLeft it = Some p" for p
    using origin that by (simp add: it_def heard_item_def)
  ultimately show "item_ready (set its) it"
    using stop s(3) by (auto simp: item_ready_def start(2) split: option.split)
  show "plain_insert name it"
    using said' len shown by (auto simp: plain_insert_def text_item_def it_def heard_item_def zero_Item_def said_def shown_def item_runes_def)
  show "shown it = runes_of s" by (rule shown)
qed

section \<open>Writing\<close>

text \<open>Linking the item behind all others.\<close>

lemma append_linked:
  fixes d :: Doc
  defines "a \<equiv> length (d_heap d)"
  assumes pre: "arranged name its d as" and share: "gm_get (d_share d) name \<noteq> None" and said: "\<forall>x \<in> set its. said x"
    and ready: "item_ready (set its) it" and it: "it_OriginLeft it = tail_origin (d_heap d) as"
    and new: "alike new it" "it_Parent new = Some name" "text_item new"
    and d3: "d3 = store_add a (d\<lparr>d_heap := d_heap d @ [new]\<rparr>)"
  shows "arranged name (its @ [it]) (link_item name None a (rear as) None d3) (as @ [a])"
    and "d_heap (link_item name None a (rear as) None d3) ! a = new\<lparr>it_Left := rear as, it_Right := None\<rparr>"
    and "text_vis (link_item name None a (rear as) None d3) (as @ [a]) = text_vis d as @ shown new"
proof -
  let ?d4 = "link_item name None a (rear as) None d3" and ?h = "d_heap d @ [new]"
  have t: "text_list d name as" using pre share by (simp add: arranged_def)
  have h3: "d_heap d3 = ?h" "d_store d3 = addItem ?h (d_store d) a" "d_ds d3 = []" "d_share d3 = d_share d"
    using pre by (simp_all add: d3 store_add_def arranged_def)
  have below: "b < a" "?h ! b = d_heap d ! b" if "b \<in> set as" for b
    using arranged_bound [OF pre that] by (simp_all add: a_def nth_append)
  have t3: "text_list d3 name (as @ [])"
    using t below(2) by (simp add: text_list_def h3 linked_heap_append)
  have a3: "a < length (d_heap d3)" "a \<notin> set (as @ [])" "text_item (d_heap d3 ! a)"
    using below(1) new(3) by (auto simp: h3 a_def)
  have rear: "l < a" if "rear as = Some l" for l using that below(1) [of l] by (auto simp: rear_def split: if_splits)
  note li = link_item_text [OF t3 a3(1-3), where sub = None, simplified]
  have heap: "d_heap ?d4 ! b = (if b = a then (?h ! b)\<lparr>it_Left := rear as, it_Right := None\<rparr>
      else if rear as = Some b then (?h ! b)\<lparr>it_Right := Some a\<rparr> else ?h ! b)" if "b \<le> a" for b
    using link_item_heap(2) [of a d3 "rear as" None b name None] a3(1) that rear by (fastforce simp: h3 a_def)
  then show new_at: "d_heap ?d4 ! a = new\<lparr>it_Left := rear as, it_Right := None\<rparr>" by (simp add: a_def)
  have "vis (d_heap ?d4) as = vis (d_heap d) as"
  proof (rule vis_cong)
    fix b assume "b \<in> set as"
    then show "agree (d_heap ?d4 ! b) (d_heap d ! b)" using heap [of b] below [of b] by (simp add: agree_def)
  qed
  then show "text_vis ?d4 (as @ [a]) = text_vis d as @ shown new"
    by (simp add: text_vis_def new_at shown_def item_runes_def)
  show "arranged name (its @ [it]) ?d4 (as @ [a])"
  proof (rule arranged_grown [OF pre ready new(1,2), folded a_def])
    show "owner ?h (it_OriginLeft it) as = (as, [])" unfolding it by (rule tail_owner [OF pre said share])
    show "text_list ?d4 name (as @ [a])" by (rule li)
    fix b assume "b \<in> set (as @ [a])"
    then have "b \<le> a" using below(1) by fastforce
    then show "alike (d_heap ?d4 ! b) (?h ! b) \<and> it_Parent (d_heap ?d4 ! b) = it_Parent (?h ! b)"
      by (simp add: heap alike_def agree_def)
  qed (use li h3 in \<open>simp_all add: lss_insert_Nil a_def\<close>)
qed

lemma link_item_keeps [simp]:
  "d_updateHandlers (link_item parent sub a left p d) = d_updateHandlers d"
  "d_events (link_item parent sub a left p d) = d_events d"
  by (auto simp: link_item_def setFirstItem_def share_put_def Let_def split: option.splits SharedType.splits)

text \<open>Everyone in the conversation: the items so far, the text they show, one handler.\<close>

definition talking :: "gostring \<Rightarrow> Item list \<Rightarrow> Doc \<Rightarrow> bool" where
  "talking name its d \<longleftrightarrow> (\<exists>as. arranged name its d as) \<and> gm_get (d_share d) name \<noteq> None \<and> d_currentTx d = None \<and>
    d_updateHandlers d = [\<lparr>ih_id = 0, ih_fn = 0\<rparr>]"

fun gapless :: "Item list \<Rightarrow> bool" where
  "gapless (x # y # zs) = (Clock (it_ID y) = Clock (it_ID x) + it_Length x \<and> gapless (y # zs))"
| "gapless _ = True"

definition own :: "u64 \<Rightarrow> Item list \<Rightarrow> Item list" where
  "own c its = filter (\<lambda>x. Client (it_ID x) = c) its"

text \<open>The origin of each item is in the one before.\<close>

definition follows :: "Item \<Rightarrow> Item \<Rightarrow> bool" where
  "follows x y \<longleftrightarrow> (\<exists>p. it_OriginLeft y = Some p \<and> item_owns x p)"

definition spoken :: "gostring \<Rightarrow> Item list \<Rightarrow> rune list \<Rightarrow> bool" where
  "spoken name its rs \<longleftrightarrow> concat (map shown its) = rs \<and>
    (\<forall>x \<in> set its. said x \<and> item_stop x \<le> length rs \<and> (\<exists>i origin s. x = heard_item name i origin s \<and> bytes_fit s)) \<and>
    arrange its = its \<and> causal item_ready {} its \<and> (\<forall>c. gapless (own c its)) \<and> successively follows its"

lemma gapless_snoc: "gapless (xs @ [y]) \<longleftrightarrow>
    gapless xs \<and> (xs \<noteq> [] \<longrightarrow> Clock (it_ID y) = Clock (it_ID (last xs)) + it_Length (last xs))"
  by (induction xs rule: gapless.induct) auto

text \<open>The new item stands behind all others.\<close>

lemma put_tail:
  "owns z p \<Longrightarrow> \<forall>y \<in> set ys. \<not> owns y p \<Longrightarrow> origin x = Some p \<Longrightarrow> put key owns origin x (ys @ [z]) = ys @ [z, x]"
  by (induction ys) (auto simp: put_def)

lemma arrange_tail:
  assumes pre: "arranged name its d as" and said: "\<forall>x \<in> set its. said x" and share: "gm_get (d_share d) name \<noteq> None"
    and arr: "arrange its = its" and it: "it_OriginLeft it = tail_origin (d_heap d) as"
  shows "arrange (its @ [it]) = its @ [it]"
proof (cases "tail_origin (d_heap d) as")
  case None
  then have "as = []" by (auto simp: tail_origin_def rear_def split: if_splits)
  then have "its = []" using pre arr by (simp add: arranged_def)
  then show ?thesis by (simp add: arrange_def put_def it None)
next
  case (Some p)
  let ?h = "d_heap d @ [it]"
  note tail = tail_owned [OF pre said Some]
  have at: "?h ! b = d_heap d ! b" if "b \<in> set as" for b using arranged_bound [OF pre that] by (simp add: nth_append)
  have l2: "list_all2 (\<lambda>a x. alike (?h ! a) x) as its"
    using pre arr at by (auto simp: arranged_def list_all2_conv_all_nth)
  obtain bs b where as: "as = bs @ [b]" using tail(1) by (metis rev_exhaust)
  then obtain ys z where its: "its = ys @ [z]" "list_all2 (\<lambda>a x. alike (?h ! a) x) bs ys" "alike (?h ! b) z"
    using l2 by (auto simp: list_all2_append1 list_all2_Cons1)
  have "distinct as" using pre share by (simp add: arranged_def text_list_def)
  then have "\<not> item_owns (?h ! a) p" if "a \<in> set bs" for a
    using sole_owner [OF pre, of a b p] tail(2) that at [of a] by (auto simp: as)
  then have "\<forall>y \<in> set ys. \<not> item_owns y p" using list_all2_bex' [OF its(2)] alike_owns by metis
  moreover have "item_owns z p" using tail(2) its(3) at alike_owns by (auto simp: as)
  ultimately show ?thesis using put_tail [of item_owns z p ys it_OriginLeft it item_key] arr it Some by (simp add: arrange_def its(1))
qed

text \<open>A client's next item starts where its last one stops.\<close>

lemma gapless_next:
  assumes pre: "arranged name its d as" and gaps: "\<forall>c. gapless (own c its)"
    and it: "Client (it_ID it) = c" "Clock (it_ID it) = doc_getState d c"
  shows "gapless (own e (its @ [it]))"
proof (cases "e = c \<and> own c its \<noteq> []")
  case True
  let ?l = "store_items (d_store d) c"
  have l2: "list_all2 (\<lambda>a x. alike (d_heap d ! a) x) ?l (own c its)" using pre by (simp add: arranged_def own_def)
  then have "?l \<noteq> []" using True by auto
  then have "alike (d_heap d ! last ?l) (last (own c its))"
    using list_all2_nthD2 [OF l2, of "length (own c its) - 1"] True list_all2_lengthD [OF l2] by (simp add: last_conv_nth)
  then have "doc_getState d c = Clock (it_ID (last (own c its))) + it_Length (last (own c its))"
    using \<open>?l \<noteq> []\<close> by (simp add: doc_getState_def getState_def Let_def alike_def agree_def)
  then show ?thesis using True gaps it by (simp add: own_def gapless_snoc)
next
  case False
  then show ?thesis using gaps it by (auto simp: own_def gapless_snoc)
qed

lemma arranged_share: "arranged name its d as \<Longrightarrow> its \<noteq> [] \<Longrightarrow> gm_get (d_share d) name \<noteq> None"
  by (auto simp: arranged_def split: if_splits)

lemma Insert_at_end:
  assumes pre: "arranged name its d as" and share: "gm_get (d_share d) name \<noteq> None" and spoken: "spoken name its rs"
    and s: "s \<noteq> []" "utf16Len s = rune_count s" "length rs + rune_count s < 2 ^ 64" and tx: "d_currentTx d = Some t" and fit: "bytes_fit s"
  defines "i \<equiv> mkID (d_clientID d) (doc_getState d (d_clientID d))" and "origin \<equiv> tail_origin (d_heap d) as"
    and "a \<equiv> length (d_heap d)"
  shows "\<exists>d'. text_Insert name (of_nat (length rs)) s d = Ret (tx_addItem t a d') \<and>
    arranged name (its @ [heard_item name i origin s]) d' (as @ [a]) \<and>
    d_heap d' ! a = (typed_item name i origin s)\<lparr>it_Left := rear as, it_Right := None\<rparr> \<and>
    d_clientID d' = d_clientID d \<and> d_txs d' = d_txs d \<and> d_updateHandlers d' = d_updateHandlers d \<and> d_events d' = d_events d \<and>
    spoken name (its @ [heard_item name i origin s]) (rs @ runes_of s)"
proof -
  let ?it = "heard_item name i origin s" and ?new = "typed_item name i origin s"
  let ?d3 = "store_add a (d\<lparr>d_heap := d_heap d @ [?new]\<rparr>)"
  let ?d4 = "link_item name None a (rear as) None ?d3"
  have said: "\<forall>x \<in> set its. said x" "\<forall>x \<in> set its. said x \<and> item_stop x \<le> length rs" using spoken by (auto simp: spoken_def)
  have rs: "text_vis d as = rs" using arranged_vis [OF pre] spoken by (auto simp: spoken_def)
  have own: "\<forall>p. origin = Some p \<longrightarrow> (\<exists>x \<in> set its. item_owns x p)"
    using tail_owned(3) [OF pre said(1)] by (simp add: origin_def)
  note ready = heard_ready [OF pre said(2) s own, where c = "d_clientID d", folded i_def]
  have new: "alike ?new ?it" "it_Parent ?new = Some name" "text_item ?new"
    using s(2,3) by (simp_all add: alike_def agree_def typed_item_def heard_item_def zero_Item_def shown_def item_runes_def text_item_def
        rune_count_def unat_of_nat_ok)
  note run = append_linked [OF pre share said(1) ready(1) _ new refl, folded a_def]
  have at: "it_OriginLeft ?it = tail_origin (d_heap d) as" by (simp add: heard_item_def origin_def)
  have t: "text_list d name as" using pre share by (simp add: arranged_def)
  have "\<forall>x \<in> set its. shown x \<noteq> []" using said(1) by (simp add: said_def)
  from position_at_end [OF t _ arranged_shown [OF pre this]] have pos: "findPositionAt name (of_nat (length rs)) d = Ret ((rear as, None), d)"
    using s(3) by (simp add: rs)
  have "text_Insert name (of_nat (length rs)) s d = Ret (tx_addItem t a ?d4)"
    using s(1) tx pos
    by (simp add: text_Insert_def alloc_def Let_def a_def typed_item_def zero_Item_def i_def origin_def tail_origin_def rune_count_def)
  moreover have "arranged name (its @ [?it]) ?d4 (as @ [a])" "d_heap ?d4 ! a = ?new\<lparr>it_Left := rear as, it_Right := None\<rparr>"
    by (rule run [OF at])+
  moreover have "spoken name (its @ [?it]) (rs @ runes_of s)"
  proof -
    have "shown ?new = runes_of s" by (simp add: typed_item_def zero_Item_def shown_def item_runes_def)
    moreover have arr: "arrange (its @ [?it]) = its @ [?it]"
      using arrange_tail [OF pre said(1) share _ at] spoken by (simp add: spoken_def)
    ultimately have "concat (map shown (its @ [?it])) = rs @ runes_of s"
      using arranged_vis [OF run(1) [OF at]] run(3) [OF at] by (simp add: rs)
    moreover have "\<forall>x \<in> set (its @ [?it]). said x \<and> item_stop x \<le> length (rs @ runes_of s)"
      using said(2) ready(2,3) by (auto simp: rune_count_def)
    moreover have "\<forall>x \<in> set (its @ [?it]). \<exists>i origin s. x = heard_item name i origin s \<and> bytes_fit s"
      using spoken fit by (auto simp: spoken_def)
    moreover have "causal item_ready {} (its @ [?it])" using spoken ready(1) by (simp add: spoken_def causal_append)
    moreover have "gapless (own c (its @ [?it]))" for c
      using gapless_next [OF pre, of ?it "d_clientID d"] spoken by (simp add: spoken_def heard_item_def i_def)
    moreover have "successively follows (its @ [?it])"
    proof (cases "its = []")
      case False
      have l2: "list_all2 (\<lambda>a x. alike (d_heap d ! a) x) as its" using pre spoken by (simp add: arranged_def spoken_def)
      then have "as \<noteq> []" using False by auto
      then obtain p where p: "origin = Some p" by (auto simp: origin_def tail_origin_def rear_def)
      have "alike (d_heap d ! last as) (last its)"
        using list_all2_nthD2 [OF l2, of "length its - 1"] False list_all2_lengthD [OF l2] \<open>as \<noteq> []\<close> by (simp add: last_conv_nth)
      then have "item_owns (last its) p" using tail_owned(2) [OF pre said(1) p [unfolded origin_def]] alike_owns by blast
      then show ?thesis using spoken p by (auto simp: spoken_def successively_append_iff follows_def heard_item_def)
    qed simp
    ultimately show ?thesis using arr by (simp add: spoken_def)
  qed
  moreover have "d_clientID ?d4 = d_clientID d" "d_txs ?d4 = d_txs d" "d_updateHandlers ?d4 = d_updateHandlers d" "d_events ?d4 = d_events d"
    by (simp_all add: store_add_def)
  ultimately show ?thesis by blast
qed

lemma encoded_linked: "encodeUpdateV1 [x\<lparr>it_Left := l, it_Right := r\<rparr>] [] = encodeUpdateV1 [x] []"
  by (simp add: encodeUpdateV1_def pending_update_def itemToEncoded_def Let_def)

section \<open>A conversation\<close>

text \<open>
  One peer writes at an index; \<open>write_at\<close> gives the updates that its handlers are called with, and
  \<open>speak\<close> writes behind its text. Every other peer applies them, as the receive loop of a client does.
\<close>

fun fired :: "event list \<Rightarrow> byte list list" where
  "fired [] = []"
| "fired (UpdateFired fn u origin # es) = u # fired es"
| "fired (ObserverFired name fn origin # es) = fired es"

definition write_at :: "gostring \<Rightarrow> u64 \<Rightarrow> gostring \<Rightarrow> Doc \<Rightarrow> (Doc \<times> byte list list) outcome" where
  "write_at name n s d =
    obind (Transact (text_Insert name n s) GNil d) (\<lambda>d'.
    Ret (d', fired (drop (length (d_events d)) (d_events d'))))"

definition speak :: "gostring \<Rightarrow> gostring \<Rightarrow> Doc \<Rightarrow> (Doc \<times> byte list list) outcome" where
  "speak name s d =
    obind (text_Len name d) (\<lambda>n. write_at name n s d)"

definition hear :: "byte list list \<Rightarrow> Doc \<Rightarrow> Doc outcome" where
  "hear = ofold (\<lambda>u. ApplyUpdate u remote_origin)"

fun each :: "('a \<Rightarrow> 'b outcome) \<Rightarrow> 'a list \<Rightarrow> 'b list outcome" where
  "each f [] = Ret []"
| "each f (x # xs) = obind (f x) (\<lambda>y. obind (each f xs) (\<lambda>ys. Ret (y # ys)))"

definition turn :: "gostring \<Rightarrow> nat \<times> gostring \<Rightarrow> Doc list \<Rightarrow> Doc list outcome" where
  "turn name t ds =
    obind (speak name (snd t) (ds ! fst t)) (\<lambda>(d', us).
    each (\<lambda>k. if k = fst t then Ret d' else hear us (ds ! k)) [0..<length ds])"

definition member :: "gostring \<Rightarrow> u64 \<Rightarrow> Doc" where
  "member name c = snd (OnUpdate 0 (share_put name newText (new_doc c)))"

lemma fired_append: "fired (xs @ ys) = fired xs @ fired ys"
  by (induction xs rule: fired.induct) auto

lemma fired_type: "fired (fire_type origin d n) = []"
proof -
  have "fired (map (\<lambda>fn. ObserverFired n fn origin) obs) = []" for obs by (induction obs) auto
  then show ?thesis
    by (simp add: fire_type_def text_fireObservers_def map_fireObservers_def array_fireObservers_def
        split: option.split SharedType.split)
qed

lemma fired_observers: "fired (concat (map (fire_type origin d) ns)) = []"
  by (induction ns) (simp_all add: fired_append fired_type)

text \<open>The update of one item takes not much more than its name and its content.\<close>

lemma typed_update_length:
  assumes "encodeUpdateV1 [typed_item name i origin s] [] = Ret u"
  shows "length u \<le> 81 + length name + length s"
proof -
  have w: "length (WriteVarUint n) \<le> 10" for n by (rule length_WriteVarUint)
  have e: "length (writeEncodedID x) \<le> 20" for x using add_mono [OF w w] by (simp add: writeEncodedID_def)
  have v: "length (WriteVarString x) \<le> 10 + length x" for x using w by (simp add: WriteVarString_def WriteVarBytes_def)
  let ?ei = "itemToEncoded (typed_item name i origin s)"
  have "\<exists>b. writeEncodedItem ?ei = Ret b \<and> length b \<le> 31 + length name + length s"
  proof (cases origin)
    case None
    then show ?thesis using w [of 1] v [of name] v [of s]
      by (simp add: writeEncodedItem_def typed_item_def run_encode writeItemContent_def writeParentInfo_def)
  next
    case (Some p)
    then show ?thesis using e [of "to_eid p"] v [of s]
      by (simp add: writeEncodedItem_def typed_item_def run_encode writeItemContent_def)
  qed
  then obtain b where b: "writeEncodedItem ?ei = Ret b" "length b \<le> 31 + length name + length s" by blast
  have "u_Items (pending_update [typed_item name i origin s] []) = [?ei]" "u_DeleteSet (pending_update [typed_item name i origin s] []) = []"
    by (simp_all add: pending_update_def)
  then have "u = WriteVarUint 1 @ (WriteVarUint 1 @ WriteVarUint (ei_ClientID ?ei) @ WriteVarUint (ei_Clock ?ei) @ b) @ WriteVarUint 0"
    using assms b(1) by (simp add: encodeUpdateV1_def EncodeUpdateV1_def writeUpdateV1_def group_by_client_def ds_append_def sort_desc_def
        write_group_def)
  then show ?thesis using b(2) w [of 1] w [of 0] w [of "ei_ClientID ?ei"] w [of "ei_Clock ?ei"] by simp
qed

text \<open>A transaction that inserts one item, whatever its place: the update that the handler gets.\<close>

lemma Transact_insert:
  assumes d: "d_currentTx d = None" "d_updateHandlers d = [\<lparr>ih_id = 0, ih_fn = 0\<rparr>]" and fit: "bytes_fit name" "bytes_fit s"
    and ins: "text_Insert name n s (snd (begin_tx GNil d)) = Ret (tx_addItem (length (d_txs d)) a d2)"
    and new: "d_heap d2 ! a = (typed_item name i origin s)\<lparr>it_Left := l, it_Right := r\<rparr>"
    and kept: "d_clientID d2 = d_clientID d" "d_txs d2 = d_txs (snd (begin_tx GNil d))" "d_updateHandlers d2 = d_updateHandlers d"
      "d_events d2 = d_events d"
  shows "\<exists>u d'. Transact (text_Insert name n s) GNil d = Ret d' \<and> fired (drop (length (d_events d)) (d_events d')) = [u] \<and>
    decodeUpdateV1 u = Ret ([heard_item name i origin s], []) \<and> length u \<le> 81 + length name + length s \<and>
    d_heap d' = d_heap d2 \<and> d_share d' = d_share d2 \<and>
    d_store d' = d_store d2 \<and> d_ds d' = d_ds d2 \<and> d_updateHandlers d' = d_updateHandlers d \<and> d_currentTx d' = None \<and>
    d_clientID d' = d_clientID d"
proof -
  obtain u where u: "encodeUpdateV1 [typed_item name i origin s] [] = Ret u" "decodeUpdateV1 u = Ret ([heard_item name i origin s], [])"
    using sent_update [OF typed_update(1) [OF fit]] typed_update(2,3) [OF fit] by metis
  let ?t = "length (d_txs d)"
  let ?d3 = "(tx_addItem ?t a d2)\<lparr>d_currentTx := None\<rparr>"
  let ?d4 = "fireObservers ?t (call_handlers u GNil ?d3)"
  have tx: "d_txs d2 ! ?t = \<lparr>tx_origin = GNil, tx_pendingItems = [], tx_pendingDeletes = [], tx_changedTypes = []\<rparr>" "?t < length (d_txs d2)"
    by (simp_all add: kept(2) begin_tx_def)
  have pending: "tx_pendingItems (d_txs ?d3 ! ?t) = [a]" "tx_pendingDeletes (d_txs ?d3 ! ?t) = []"
    using tx by (simp_all add: tx_addItem_def note_changed_def new typed_item_def zero_Item_def Let_def split: option.splits)
  have "d_heap ?d3 = d_heap d2" by (simp add: tx_addItem_def Let_def)
  then have "Transact (text_Insert name n s) GNil d = Ret ?d4"
    using d(1) ins new u(1) pending by (simp add: Transact_def begin_tx_def Let_def encoded_linked)
  moreover have "fired (drop (length (d_events d)) (d_events ?d4)) = [u]"
    using d(2) kept(3,4)
    by (simp add: fireObservers_def call_handlers_def tx_addItem_def Let_def fired_append fired_observers)
  ultimately show ?thesis using u(2) kept(1,3) typed_update_length [OF u(1)]
    by (intro exI [of _ u] exI [of _ ?d4]) (simp add: fireObservers_def call_handlers_def tx_addItem_def Let_def)
qed

lemma speak_ok:
  assumes talk: "talking name its d" and spoken: "spoken name its rs"
    and s: "s \<noteq> []" "utf16Len s = rune_count s" "length rs + rune_count s < 2 ^ 64" and fit: "bytes_fit name" "bytes_fit s"
  shows "\<exists>d' u it. speak name s d = Ret (d', [u]) \<and> decodeUpdateV1 u = Ret ([it], []) \<and> plain_insert name it \<and>
    item_ready (set its) it \<and> talking name (its @ [it]) d' \<and> spoken name (its @ [it]) (rs @ runes_of s) \<and>
    d_clientID d' = d_clientID d \<and> Client (it_ID it) = d_clientID d \<and> length u \<le> 81 + length name + length s"
proof -
  obtain as where pre: "arranged name its d as" and share: "gm_get (d_share d) name \<noteq> None" "d_currentTx d = None"
    "d_updateHandlers d = [\<lparr>ih_id = 0, ih_fn = 0\<rparr>]"
    using talk by (auto simp: talking_def)
  let ?d1 = "snd (begin_tx GNil d)"
  have d1: "arranged name its ?d1 as" "d_currentTx ?d1 = Some (length (d_txs d))" "gm_get (d_share ?d1) name \<noteq> None"
    using pre share arranged_cong [OF pre, of ?d1] by (simp_all add: begin_tx_def arranged_def)
  let ?i = "mkID (d_clientID ?d1) (doc_getState ?d1 (d_clientID ?d1))" and ?o = "tail_origin (d_heap ?d1) as"
  let ?it = "heard_item name ?i ?o s" and ?a = "length (d_heap ?d1)"
  obtain d2 where d2: "text_Insert name (of_nat (length rs)) s ?d1 = Ret (tx_addItem (length (d_txs d)) ?a d2)"
    "arranged name (its @ [?it]) d2 (as @ [?a])"
    "d_heap d2 ! ?a = (typed_item name ?i ?o s)\<lparr>it_Left := rear as, it_Right := None\<rparr>"
    "d_clientID d2 = d_clientID d" "d_txs d2 = d_txs ?d1" "d_updateHandlers d2 = d_updateHandlers d" "d_events d2 = d_events d"
    "spoken name (its @ [?it]) (rs @ runes_of s)"
    using Insert_at_end [OF d1(1,3) spoken s d1(2) fit(2)] by (auto simp: begin_tx_def)
  from Transact_insert [OF share(2,3) fit d2(1,3-7)] obtain u d4 where u:
    "Transact (text_Insert name (of_nat (length rs)) s) GNil d = Ret d4" "fired (drop (length (d_events d)) (d_events d4)) = [u]"
    "decodeUpdateV1 u = Ret ([?it], [])" "length u \<le> 81 + length name + length s" "d_heap d4 = d_heap d2" "d_share d4 = d_share d2" "d_store d4 = d_store d2"
    "d_ds d4 = d_ds d2" "d_updateHandlers d4 = d_updateHandlers d" "d_currentTx d4 = None" "d_clientID d4 = d_clientID d"
    by blast
  have "text_Len name d = Ret (of_nat (length rs))"
    using text_Len_list [of d name as] arranged_vis [OF pre] pre share spoken by (auto simp: arranged_def spoken_def)
  then have "speak name s d = Ret (d4, [u])" using u(1,2) by (simp add: speak_def write_at_def)
  moreover have four: "arranged name (its @ [?it]) d4 (as @ [?a])"
    by (rule arranged_cong [OF d2(2)]) (use d2(2) u in \<open>simp_all add: arranged_def\<close>)
  then have "talking name (its @ [?it]) d4" using arranged_share [OF four] share(3) u by (auto simp: talking_def)
  moreover have "item_ready (set its) ?it" "plain_insert name ?it"
    using heard_ready [OF d1(1) _ s, of ?o "d_clientID ?d1"] tail_owned(3) [OF d1(1)] spoken by (auto simp: spoken_def)
  moreover have "Client (it_ID ?it) = d_clientID d" by (simp add: heard_item_def begin_tx_def)
  ultimately show ?thesis using u(3,4,11) d2(8) by blast
qed

lemma hear_ok:
  assumes talk: "talking name its d" and u: "decodeUpdateV1 u = Ret ([it], [])"
    and it: "plain_insert name it" "item_ready (set its) it" and name: "name \<noteq> []"
  shows "\<exists>d'. hear [u] d = Ret d' \<and> talking name (its @ [it]) d' \<and> d_clientID d' = d_clientID d"
proof -
  obtain d' where d': "ApplyUpdate u remote_origin d = Ret d'" "\<exists>as. arranged name (its @ [it]) d' as"
    using text_receiver.apply_update [of u "[it]" name its d remote_origin] talk u it name by (auto simp: talking_def)
  have "d_updateHandlers d' = d_updateHandlers d" "d_clientID d' = d_clientID d"
    using ApplyUpdate_handlers [OF d'(1)] by (simp_all add: same_handlers_def)
  moreover have "d_currentTx d' = None"
    using d'(1) by (auto simp: ApplyUpdate_def apply_decoded_def outcome_simps Let_def split_beta fireObservers_def)
  ultimately have "talking name (its @ [it]) d' \<and> d_clientID d' = d_clientID d"
    using talk d'(2) arranged_share [of name "its @ [it]" d'] by (auto simp: talking_def)
  then show ?thesis using d'(1) by (simp add: hear_def)
qed

lemma each_ok: "\<forall>x \<in> set xs. \<exists>y. f x = Ret y \<and> P x y \<Longrightarrow> \<exists>ys. each f xs = Ret ys \<and> list_all2 P xs ys"
proof (induction xs)
  case (Cons x xs)
  obtain y where "f x = Ret y" "P x y" using Cons.prems by auto
  moreover obtain ys where "each f xs = Ret ys" "list_all2 P xs ys" using Cons by auto
  ultimately show ?case by simp
qed simp

definition clients :: "Doc list \<Rightarrow> u64 list" where
  "clients ds = map d_clientID ds"

lemma turn_ok:
  assumes talk: "\<forall>d \<in> set ds. talking name its d" and spoken: "spoken name its rs" and c: "c < length ds"
    and s: "s \<noteq> []" "utf16Len s = rune_count s" "length rs + rune_count s < 2 ^ 64"
    and fit: "bytes_fit name" "bytes_fit s" and name: "name \<noteq> []"
  shows "\<exists>it ds'. turn name (c, s) ds = Ret ds' \<and> (\<forall>d \<in> set ds'. talking name (its @ [it]) d) \<and> clients ds' = clients ds \<and>
    spoken name (its @ [it]) (rs @ runes_of s) \<and> Client (it_ID it) = clients ds ! c \<and> shown it = runes_of s"
proof -
  have "talking name its (ds ! c)" using talk c by simp
  from speak_ok [OF this spoken s fit] obtain d' u it where w: "speak name s (ds ! c) = Ret (d', [u])"
    "decodeUpdateV1 u = Ret ([it], [])" "plain_insert name it" "item_ready (set its) it" "talking name (its @ [it]) d'"
    "spoken name (its @ [it]) (rs @ runes_of s)" "d_clientID d' = d_clientID (ds ! c)" "Client (it_ID it) = d_clientID (ds ! c)"
    by blast
  let ?f = "\<lambda>k. if k = c then Ret d' else hear [u] (ds ! k)"
  have "\<forall>k \<in> set [0..<length ds]. \<exists>y. ?f k = Ret y \<and> talking name (its @ [it]) y \<and> d_clientID y = d_clientID (ds ! k)"
    using w(5,7) hear_ok [OF _ w(2-4) name] talk by auto
  from each_ok [OF this] obtain ds' where ds': "each ?f [0..<length ds] = Ret ds'"
    "list_all2 (\<lambda>k y. talking name (its @ [it]) y \<and> d_clientID y = d_clientID (ds ! k)) [0..<length ds] ds'" by blast
  have "\<forall>d \<in> set ds'. talking name (its @ [it]) d" "clients ds' = clients ds"
    using ds'(2) by (auto simp: list_all2_conv_all_nth in_set_conv_nth clients_def intro: nth_equalityI)
  moreover have "shown it = runes_of s" using spoken w(6) by (simp add: spoken_def)
  ultimately show ?thesis using ds'(1) w(1,6,8) c by (auto simp: turn_def clients_def)
qed

text \<open>The runes of the turns, one after the other, and the clients that take them.\<close>

definition words :: "(nat \<times> gostring) list \<Rightarrow> rune list" where
  "words ts = concat (map (\<lambda>t. runes_of (snd t)) ts)"

definition turn_ok_for :: "nat \<Rightarrow> nat \<times> gostring \<Rightarrow> bool" where
  "turn_ok_for n t \<longleftrightarrow> fst t < n \<and> snd t \<noteq> [] \<and> bytes_fit (snd t)"

lemma talk_ok:
  assumes "\<forall>d \<in> set ds. talking name its d" "spoken name its rs" "name \<noteq> []" "bytes_fit name"
    and "\<forall>t \<in> set ts. turn_ok_for (length ds) t" and "\<forall>t \<in> set ts. bmp_only (snd t)"
    and "length rs + length (words ts) < 2 ^ 64"
  shows "\<exists>its' ds'. ofold (turn name) ts ds = Ret ds' \<and> (\<forall>d \<in> set ds'. talking name its' d) \<and> clients ds' = clients ds \<and>
    spoken name its' (rs @ words ts) \<and>
    map (\<lambda>x. (Client (it_ID x), shown x)) its' =
      map (\<lambda>x. (Client (it_ID x), shown x)) its @ map (\<lambda>t. (clients ds ! fst t, runes_of (snd t))) ts"
  using assms
proof (induction ts arbitrary: ds its rs)
  case (Cons t ts)
  obtain c s where t: "t = (c, s)" by (cases t)
  obtain it ds1 where d1: "turn name (c, s) ds = Ret ds1" "\<forall>d \<in> set ds1. talking name (its @ [it]) d" "clients ds1 = clients ds"
    "spoken name (its @ [it]) (rs @ runes_of s)" "Client (it_ID it) = clients ds ! c" "shown it = runes_of s"
    using turn_ok [OF Cons.prems(1,2), of c s] Cons.prems(3-7) by (auto simp: t rune_count_def words_def turn_ok_for_def bmp_only_iff)
  have len: "length ds1 = length ds" using arg_cong [OF d1(3), of length] by (simp add: clients_def)
  have "\<exists>its' ds'. ofold (turn name) ts ds1 = Ret ds' \<and> (\<forall>d \<in> set ds'. talking name its' d) \<and> clients ds' = clients ds1 \<and>
    spoken name its' ((rs @ runes_of s) @ words ts) \<and>
    map (\<lambda>x. (Client (it_ID x), shown x)) its' =
      map (\<lambda>x. (Client (it_ID x), shown x)) (its @ [it]) @ map (\<lambda>t. (clients ds1 ! fst t, runes_of (snd t))) ts"
    by (rule Cons.IH [OF d1(2,4)]) (use Cons.prems(3-7) len in \<open>auto simp: t words_def\<close>)
  then show ?case using d1(1,3,5,6) by (simp add: t words_def)
qed (auto simp: words_def)

lemma talking_text: "talking name its d \<Longrightarrow> spoken name its rs \<Longrightarrow> text_String name d = Ret (string_of_runes rs)"
  using arranged_text [of name its d] by (auto simp: talking_def spoken_def)

lemma member_talking: "talking name [] (member name c)" "spoken name [] []" "d_clientID (member name c) = c"
  by (auto simp: talking_def spoken_def member_def arranged_def arrange_def run_state text_list_def store_items_def own_def)

text \<open>The members of a room, from the start.\<close>

lemma conversation:
  assumes "name \<noteq> []" "bytes_fit name" "\<forall>t \<in> set ts. turn_ok_for (length cs) t" "\<forall>t \<in> set ts. bmp_only (snd t)"
    "length (words ts) < 2 ^ 64"
  shows "\<exists>its ds. ofold (turn name) ts (map (member name) cs) = Ret ds \<and> (\<forall>d \<in> set ds. talking name its d) \<and> clients ds = cs \<and>
    spoken name its (words ts) \<and>
    map (\<lambda>x. (Client (it_ID x), shown x)) its = map (\<lambda>t. (cs ! fst t, runes_of (snd t))) ts"
proof -
  have "clients (map (member name) cs) = cs" by (simp add: clients_def member_talking(3) map_idI)
  then show ?thesis
    using talk_ok [of "map (member name) cs" name "[]" "[]" ts] assms member_talking(1,2) [of name] by simp
qed

end
