(* ===== verification/Slices.thy ===== *)
theory Slices
  imports Convergence
begin

text \<open>
  The store of a document as the items that have been received: per client a slice in the order of
  the clocks, whatever list, if any, the items are linked into.
\<close>

section \<open>The slices of the store\<close>

text \<open>The store holds the items \<open>its\<close>, those of each client in the order of their clocks.\<close>

definition slices :: "Item list \<Rightarrow> Doc \<Rightarrow> bool" where
  "slices its d \<longleftrightarrow> (\<forall>c. clocks_ok (d_heap d) (store_items (d_store d) c) \<and>
    (\<forall>b \<in> set (store_items (d_store d) c). b < length (d_heap d) \<and>
      (\<exists>x \<in> set its. same_clock (d_heap d ! b) x \<and> Client (it_ID x) = c)))"

text \<open>What of \<open>item_ready\<close> the store needs: the item comes after all that its client made before.\<close>

definition later :: "Item set \<Rightarrow> Item \<Rightarrow> bool" where
  "later B it \<longleftrightarrow> item_stop it < 2 ^ 64 \<and>
    (\<forall>i \<in> B. Client (it_ID i) = Client (it_ID it) \<longrightarrow> item_start i < item_start it \<and> item_stop i \<le> item_start it)"

lemma ready_later: "item_ready B it \<Longrightarrow> later B it"
  by (simp add: item_ready_def later_def)

lemma slices_before:
  assumes "slices its d" "later (set its) it" "b \<in> set (store_items (d_store d) (Client (it_ID it)))"
  shows "item_end (d_heap d) b \<le> item_start it"
proof -
  obtain x where "x \<in> set its" "same_clock (d_heap d ! b) x" "Client (it_ID x) = Client (it_ID it)"
    using assms(1,3) by (auto simp: slices_def)
  then show ?thesis
    using assms(2) by (auto simp: later_def same_clock_def item_stop_def item_start_def item_end_def item_clock_def)
qed

lemma slices_fresh:
  assumes "slices its d" "later (set its) it"
  shows "doc_getItem d (it_ID it) = None"
proof -
  have ok: "clocks_ok (d_heap d) (store_items (d_store d) (Client (it_ID it)))" using assms(1) by (simp add: slices_def)
  have "\<not> covers (d_heap d) (Clock (it_ID it)) b" if "b \<in> set (store_items (d_store d) (Client (it_ID it)))" for b
    using slices_before [OF assms that] covers_unat [OF clocks_ok_end [OF ok that]] by (simp add: item_start_def)
  then show ?thesis by (simp add: doc_getItem_def getItem_find [OF ok] find_item_def find_None_iff)
qed

lemma slices_add:
  assumes pre: "slices its d" and ready: "later (set its) it"
    and keep: "\<And>b. b < length (d_heap d) \<Longrightarrow> same_clock (d_heap d' ! b) (d_heap d ! b)"
    and new: "same_clock (d_heap d' ! length (d_heap d)) it" "length (d_heap d') = Suc (length (d_heap d))"
    and store: "\<And>c. store_items (d_store d') c =
      (if c = Client (it_ID it) then store_items (d_store d) c @ [length (d_heap d)] else store_items (d_store d) c)"
  shows "slices (its @ [it]) d'"
proof -
  let ?a = "length (d_heap d)"
  have old: "clocks_ok (d_heap d') (store_items (d_store d) c)" for c
    by (rule clocks_ok_cong [of "d_heap d"]) (use pre keep in \<open>auto simp: slices_def\<close>)
  have "clocks_ok (d_heap d') (store_items (d_store d) (Client (it_ID it)) @ [?a])"
  proof (rule clocks_ok_snoc [OF old])
    show "item_end (d_heap d') ?a < 2 ^ 64"
      using ready new(1) by (simp add: later_def item_end_def item_clock_def item_stop_def item_start_def same_clock_def)
    let ?l = "last (store_items (d_store d) (Client (it_ID it)))"
    assume "store_items (d_store d) (Client (it_ID it)) \<noteq> []"
    then have l: "?l \<in> set (store_items (d_store d) (Client (it_ID it)))" by simp
    then have "?l < ?a" using pre by (simp add: slices_def)
    then show "item_end (d_heap d') ?l \<le> item_clock (d_heap d') ?a"
      using slices_before [OF pre ready l] keep [of ?l] new(1)
      by (simp add: same_clock_def item_end_def item_clock_def item_start_def)
  qed
  moreover have "b < length (d_heap d') \<and> (\<exists>x \<in> set (its @ [it]). same_clock (d_heap d' ! b) x \<and> Client (it_ID x) = c)"
    if "b \<in> set (store_items (d_store d) c)" for b c
    using pre that keep [of b] new(2) by (force simp: slices_def same_clock_def)
  ultimately show ?thesis
    unfolding slices_def using old new by (auto simp: store)
qed

end
