(* ===== verification/MapReplicas.thy ===== *)
theory MapReplicas
  imports Slices MapType
begin

text \<open>
  Replicas of a map that receive. The items that \<open>Map.Set\<close> sends have no origins, so
  \<open>integrate.go\<close> orders the items of one key by identifier, and the current one, the first, is
  the greatest, in whatever order they came.
\<close>

section \<open>The scan at a key\<close>

lemma lss_scan_left: "lss_scan h it right left p = Some res \<Longrightarrow> left \<noteq> None \<longrightarrow> fst res \<noteq> None"
  by (erule lss_scan.raw_induct [where P = "\<lambda>h it right left p res. left \<noteq> None \<longrightarrow> fst res \<noteq> None", rotated])
    (force split: option.splits if_splits)

lemma link_item_share:
  "gm_get (d_share d) name = Some (TMap E obs) \<Longrightarrow>
   d_share (link_item name (Some k) a left p d) =
     (if left = None then gm_set name (TMap (gm_set k a E) obs) (d_share d) else d_share d)"
  by (simp add: setFirstItem_def share_put_def split: option.split)

text \<open>An item without origins becomes the current one if it precedes the current one.\<close>

lemma place_entry:
  assumes share: "gm_get (d_share d) name = Some (TMap E obs)" and place: "place_item a d = Ret d'"
    and it: "it_Parent (d_heap d ! a) = Some name" "it_ParentSub (d_heap d ! a) = Some k"
      "it_OriginLeft (d_heap d ! a) = None" "it_OriginRight (d_heap d ! a) = None"
  shows "d_share d' = (if \<forall>f. gm_get E k = Some f \<longrightarrow> lssIsBefore (d_heap d ! a) (d_heap d ! f)
      then gm_set name (TMap (gm_set k a E) obs) (d_share d) else d_share d)"
    and "d_store d' = d_store d" "d_ds d' = d_ds d"
proof -
  have first: "itemAfter d name None (Some k) = gm_get E k" by (simp add: itemAfter_def firstItem_def share)
  obtain left p where scan: "lss_scan (d_heap d) (d_heap d ! a) None None (gm_get E k) = Some (left, p)"
    "d' = link_item name (Some k) a left p d"
    using place by (auto simp: place_item_def resolveParent_def it opt_getItem_def first Let_def split: option.splits)
  have "left = None \<longleftrightarrow> (\<forall>f. gm_get E k = Some f \<longrightarrow> lssIsBefore (d_heap d ! a) (d_heap d ! f))"
  proof (cases "gm_get E k")
    case None
    then show ?thesis using scan(1) by (simp add: lss_scan.simps)
  next
    case (Some f)
    then have "lss_scan (d_heap d) (d_heap d ! a) None None (Some f) = Some (left, p)" using scan(1) by simp
    then show ?thesis
      using Some lss_scan_left [of "d_heap d" "d_heap d ! a" None "Some f" "it_Right (d_heap d ! f)" "(left, p)"]
      by (auto simp: lss_scan.simps [of _ _ _ _ "Some f"] split: if_splits)
  qed
  then show "d_share d' = (if \<forall>f. gm_get E k = Some f \<longrightarrow> lssIsBefore (d_heap d ! a) (d_heap d ! f)
      then gm_set name (TMap (gm_set k a E) obs) (d_share d) else d_share d)"
    by (simp only: scan(2) link_item_share [OF share])
  show "d_store d' = d_store d" "d_ds d' = d_ds d" by (simp_all add: scan(2))
qed

lemma place_item_length: "place_item a d = Ret d' \<Longrightarrow> length (d_heap d') = length (d_heap d)"
  by (auto simp: place_item_def Let_def link_item_def split: prod.splits option.splits)

section \<open>The current items\<close>

definition map_insert :: "gostring \<Rightarrow> Item \<Rightarrow> bool" where
  "map_insert name it \<longleftrightarrow> arriving it \<and> it_parentName it = name \<and> it_OriginLeft it = None \<and> it_OriginRight it = None \<and>
    it_ParentSub it \<noteq> None \<and> it_Kind it = contentAny \<and> \<not> it_Deleted it"

text \<open>\<open>x\<close> is the item of the key with the greatest identifier.\<close>

definition greatest_at :: "Item list \<Rightarrow> gostring \<Rightarrow> Item \<Rightarrow> bool" where
  "greatest_at its k x \<longleftrightarrow> x \<in> set its \<and> it_ParentSub x = Some k \<and>
    (\<forall>y \<in> set its. it_ParentSub y = Some k \<longrightarrow> it_ID y \<le> it_ID x)"

definition same_entry :: "Item \<Rightarrow> Item \<Rightarrow> bool" where
  "same_entry i x \<longleftrightarrow> it_ID i = it_ID x \<and> it_Content i = it_Content x \<and> it_OriginLeft i = None \<and> \<not> it_Deleted i"

definition entry_ok :: "heap \<Rightarrow> (gostring, addr) gomap \<Rightarrow> Item list \<Rightarrow> gostring \<Rightarrow> bool" where
  "entry_ok h E its k \<longleftrightarrow> (case gm_get E k of
     None \<Rightarrow> \<forall>x \<in> set its. it_ParentSub x \<noteq> Some k
   | Some a \<Rightarrow> a < length h \<and> (\<exists>x. greatest_at its k x \<and> same_entry (h ! a) x))"

text \<open>An item that arrives takes its key if it precedes the current item there.\<close>

lemma entry_ok_step:
  assumes old: "entry_ok h E its k" and it: "it_ParentSub it = Some k0" "it_OriginLeft it = None"
    and h': "\<And>b x. b < length h \<Longrightarrow> same_entry (h ! b) x \<Longrightarrow> same_entry (h' ! b) x" "same_entry (h' ! length h) it"
      "length h' = Suc (length h)"
    and new: "\<forall>x \<in> set its. it_ID x \<noteq> it_ID it"
    and E': "E' = (if \<forall>f. gm_get E k0 = Some f \<longrightarrow> lssIsBefore it (h ! f) then gm_set k0 (length h) E else E)"
  shows "entry_ok h' E' (its @ [it]) k"
proof (cases "k = k0")
  case False
  then have "gm_get E' k = gm_get E k" by (simp add: E' update_conv')
  moreover have "greatest_at (its @ [it]) k x \<longleftrightarrow> greatest_at its k x" for x
    using False it(1) by (auto simp: greatest_at_def)
  ultimately show ?thesis
    using old False it(1) h'(1,3) by (fastforce simp: entry_ok_def split: option.splits)
next
  case k: True
  show ?thesis
  proof (cases "gm_get E k")
    case None
    then have "greatest_at (its @ [it]) k it" using old it(1) k by (auto simp: greatest_at_def entry_ok_def)
    with None show ?thesis using k h'(2,3) by (auto simp: entry_ok_def E' update_conv')
  next
    case (Some f)
    then obtain x where x: "f < length h" "greatest_at its k x" "same_entry (h ! f) x"
      using old by (auto simp: entry_ok_def)
    have before: "lssIsBefore it (h ! f) \<longleftrightarrow> it_ID x < it_ID it"
      using x(3) it(2) by (simp add: same_entry_def lssIsBefore_def compareIDs_greater)
    show ?thesis
    proof (cases "it_ID x < it_ID it")
      case True
      then have "greatest_at (its @ [it]) k it" using x(2) it(1) k by (fastforce simp: greatest_at_def)
      then show ?thesis using True before Some k h'(2,3) by (auto simp: entry_ok_def E' update_conv')
    next
      case False
      moreover have "x \<in> set its" using x(2) by (simp add: greatest_at_def)
      ultimately have "it_ID it < it_ID x" using new by (metis linorder_neqE)
      then have "greatest_at (its @ [it]) k x" using x(2) by (auto simp: greatest_at_def)
      moreover have "gm_get E' k = Some f" using False before Some k by (auto simp: E')
      ultimately show ?thesis using x(1,3) h'(1,3) by (auto simp: entry_ok_def)
    qed
  qed
qed

text \<open>The state after integrating \<open>its\<close>, in this order, into a new document.\<close>

definition mapped :: "gostring \<Rightarrow> Item list \<Rightarrow> Doc \<Rightarrow> bool" where
  "mapped name its d \<longleftrightarrow> doc_wf d \<and> slices its d \<and> d_ds d = [] \<and> inj_on it_ID (set its) \<and>
    (if its = [] then gm_get (d_share d) name = None
     else \<exists>E obs. gm_get (d_share d) name = Some (TMap E obs) \<and> (\<forall>k. entry_ok (d_heap d) E its k))"

lemma mapped_new: "mapped name [] (new_doc c)"
  unfolding mapped_def by (simp add: doc_wf_new) (simp add: slices_def new_doc_def newStructStore_def newDeleteSet_def store_items_def)

lemma integrate_map_insert:
  assumes pre: "mapped name its d" and it: "map_insert name it" and ready: "item_ready (set its) it" and name: "name \<noteq> []"
  shows "\<exists>d'. integrateItem it d = Ret d' \<and> mapped name (its @ [it]) d'"
proof -
  let ?h = "d_heap d" and ?a = "length (d_heap d)" and ?new = "it\<lparr>it_Parent := Some name\<rparr>"
  define d2 where "d2 = store_add ?a (d\<lparr>d_heap := ?h @ [it]\<rparr>)"
  define d4 where "d4 = upd_item ?a (\<lambda>i. i\<lparr>it_Parent := Some name\<rparr>)
    (if its = [] then share_put name newMap d2 else d2)"
  obtain k0 where k0: "it_ParentSub it = Some k0" using it by (auto simp: map_insert_def)
  have wf: "doc_wf d" "arriving it" and ds: "d_ds d = []" using pre it by (simp_all add: mapped_def map_insert_def)
  have h2: "d_heap d2 = ?h @ [it]" "d_share d2 = d_share d" "d_ds d2 = []" "d_store d2 = addItem (?h @ [it]) (d_store d) ?a"
    using ds by (simp_all add: d2_def store_add_def)
  have h4: "d_heap d4 = ?h @ [?new]" "d_ds d4 = []" "d_store d4 = addItem (?h @ [it]) (d_store d) ?a"
    by (simp_all add: d4_def upd_item_def share_put_def h2)
  obtain E obs where E: "gm_get (d_share d4) name = Some (TMap E obs)" "\<forall>k. entry_ok ?h E its k"
  proof (cases "its = []")
    case True
    then have "gm_get (d_share d4) name = Some (TMap [] [])" "entry_ok ?h [] its k" for k
      by (simp_all add: d4_def share_put_def newMap_def update_conv' entry_ok_def)
    then show thesis using that by blast
  next
    case False
    then show thesis using pre that by (auto simp: mapped_def d4_def h2)
  qed
  have "resolve_by_name ?a d2 = d4"
    using it name pre k0
    by (auto simp: resolve_by_name_def Let_def h2 map_insert_def arriving_def lazy_type_def d4_def mapped_def split: option.split)
  moreover have "inherit_parent ?a d4 = d4" by (simp add: inherit_parent_def Let_def h4)
  ultimately have res: "inherit_parent ?a (resolve_by_name ?a d2) = d4" by simp
  have run: "integrateItem it d = place_item ?a d4"
  proof -
    have "\<not> isDeleted (d_ds d2) (it_ID it)" by (simp add: h2(3) isDeleted_def ds_ranges_def)
    moreover have "doc_getItem d (it_ID it) = None"
      by (rule slices_fresh [OF _ ready_later [OF ready]]) (use pre in \<open>simp add: mapped_def\<close>)
    ultimately show ?thesis
      unfolding integrateItem_def alloc_def Let_def prod.case d2_def [symmetric] by (simp add: res)
  qed
  obtain d' where d': "integrateItem it d = Ret d'" "doc_wf d'" using integrateItem_wf [OF wf] by blast
  then have place: "place_item ?a d4 = Ret d'" by (simp add: run)
  have at: "d_heap d4 ! ?a = ?new" "\<And>b. b < ?a \<Longrightarrow> d_heap d4 ! b = ?h ! b" by (simp_all add: h4 nth_append)
  have item: "it_OriginLeft ?new = None" "it_OriginRight ?new = None" "it_ParentSub ?new = Some k0"
    using it k0 by (simp_all add: map_insert_def)
  note entry = place_entry [OF E(1) place, unfolded at(1), OF _ item(3,1,2), simplified]
  have len: "length (d_heap d') = Suc ?a" using place_item_length [OF place] by (simp add: h4)
  have keep: "same_clock (d_heap d' ! b) (d_heap d4 ! b)" "same_entry (d_heap d' ! b) x \<longleftrightarrow> same_entry (d_heap d4 ! b) x" for b x
    using place_item_get [OF place, of "\<lambda>i. (it_ID i, it_Length i)" b]
      place_item_get [OF place, of "\<lambda>i. same_entry i x" b] by (simp_all add: same_clock_def same_entry_def)
  have "slices (its @ [it]) d'"
  proof (rule slices_add [OF _ ready_later [OF ready]])
    show "slices its d" using pre by (simp add: mapped_def)
    show "same_clock (d_heap d' ! b) (?h ! b)" if "b < ?a" for b using keep(1) [of b] at(2) [OF that] by simp
    show "same_clock (d_heap d' ! ?a) it" using keep(1) [of ?a] at(1) by (simp add: same_clock_def)
  qed (simp_all add: len entry h4 store_items_addItem)
  moreover have ids: "\<forall>x \<in> set its. it_ID x \<noteq> it_ID it" using ready by (force simp: item_ready_def item_start_def)
  then have "inj_on it_ID (set (its @ [it]))" using pre by (auto simp: mapped_def)
  moreover have "\<exists>E' obs. gm_get (d_share d') name = Some (TMap E' obs) \<and> (\<forall>k. entry_ok (d_heap d') E' (its @ [it]) k)"
  proof -
    let ?E' = "if \<forall>f. gm_get E k0 = Some f \<longrightarrow> lssIsBefore it (?h ! f) then gm_set k0 ?a E else E"
    have below: "f < ?a" if "gm_get E k0 = Some f" for f using E(2) that by (force simp: entry_ok_def split: option.splits)
    have "lssIsBefore ?new (d_heap d4 ! f) \<longleftrightarrow> lssIsBefore it (?h ! f)" if "gm_get E k0 = Some f" for f
      using at(2) [OF below [OF that]] by (simp add: lssIsBefore_def)
    then have "gm_get (d_share d') name = Some (TMap ?E' obs)"
      using entry(1) E(1) by (auto simp: update_conv')
    moreover have "entry_ok (d_heap d') ?E' (its @ [it]) k" for k
    proof (rule entry_ok_step [OF _ k0 _ _ _ len ids refl])
      show "entry_ok ?h E its k" using E(2) by simp
      show "it_OriginLeft it = None" using it by (simp add: map_insert_def)
      show "same_entry (d_heap d' ! b) x" if "b < ?a" "same_entry (?h ! b) x" for b x
        using that keep(2) at(2) by simp
      show "same_entry (d_heap d' ! ?a) it" using keep(2) [of ?a it] at(1) it by (simp add: same_entry_def map_insert_def)
    qed
    ultimately show ?thesis by blast
  qed
  ultimately show ?thesis using d' entry h4 by (auto simp: mapped_def)
qed

lemma mapped_cong:
  "mapped name its d \<Longrightarrow> doc_wf d' \<Longrightarrow> d_heap d' = d_heap d \<Longrightarrow> d_share d' = d_share d \<Longrightarrow> d_store d' = d_store d \<Longrightarrow>
   d_ds d' = [] \<Longrightarrow> mapped name its d'"
  by (cases "its = []") (auto simp: mapped_def slices_def)

interpretation map_receiver: receiver "mapped name" "\<lambda>it. name \<noteq> [] \<and> map_insert name it" for name
proof
  fix its d it origin t c
  show "mapped name [] (new_doc c)" by (rule mapped_new)
  show "mapped name its d \<Longrightarrow> d_ds d = []" by (simp add: mapped_def)
  show "mapped name its d \<Longrightarrow> name \<noteq> [] \<and> map_insert name it \<Longrightarrow> item_ready (set its) it \<Longrightarrow>
    \<exists>d'. integrateItem it d = Ret d' \<and> mapped name (its @ [it]) d'"
    using integrate_map_insert by blast
  assume pre: "mapped name its d"
  then have wf: "doc_wf d" "d_ds d = []" by (simp_all add: mapped_def)
  have "doc_wf (snd (begin_tx origin d)\<lparr>d_ds := []\<rparr>)" by (rule doc_wf_cong [OF begin_tx_wf [OF wf(1)]]) simp_all
  then show "mapped name its (snd (begin_tx origin d)\<lparr>d_ds := []\<rparr>)"
    by (rule mapped_cong [OF pre]) (simp_all add: begin_tx_def)
  have "doc_wf (d\<lparr>d_currentTx := None\<rparr>)" by (rule doc_wf_cong [OF wf(1)]) simp_all
  then show "mapped name its (fireObservers t (d\<lparr>d_currentTx := None\<rparr>))"
    by (intro mapped_cong [OF pre] fireObservers_wf) (simp_all add: fireObservers_def Let_def wf(2))
qed

text \<open>Reading it: the value of the greatest item at the key.\<close>

lemma mapped_get:
  assumes "mapped name its d"
  shows "map_Get name k d = Some v \<longleftrightarrow> (\<exists>x. greatest_at its k x \<and> it_Content x = v)"
proof (cases "its = []")
  case True
  then show ?thesis using assms by (simp add: mapped_def map_Get_def map_entries_def greatest_at_def)
next
  case False
  then obtain E obs where E: "gm_get (d_share d) name = Some (TMap E obs)" "entry_ok (d_heap d) E its k"
    using assms by (auto simp: mapped_def)
  have unique: "x = y" if "greatest_at its k x" "greatest_at its k y" for x y
    using that assms by (force simp: greatest_at_def mapped_def inj_on_def)
  show ?thesis
  proof (cases "gm_get E k")
    case None
    then show ?thesis using E by (auto simp: map_Get_def map_entries_def entry_ok_def greatest_at_def)
  next
    case (Some a)
    then obtain x where "greatest_at its k x" "same_entry (d_heap d ! a) x" using E(2) by (auto simp: entry_ok_def)
    then show ?thesis using Some E(1) unique by (auto simp: map_Get_def map_entries_def same_entry_def)
  qed
qed

lemma greatest_at_cong: "set its = set its' \<Longrightarrow> greatest_at its = greatest_at its'"
  by (simp add: greatest_at_def fun_eq_iff)

end
