(* ===== verification/Conflicts.thy ===== *)
theory Conflicts
  imports Appending MapReplicas
begin

text \<open>
  Edits made one after the other, with every update applied in order, that end differently on the
  two replicas. A local edit goes to the place its caller names; the peer places the item by its
  key, the left origin and then the identifier, and the two disagree when the smaller client edits
  in front of, or on top of, what the greater client wrote.
\<close>

section \<open>An insert at the start\<close>

lemma Insert_at_start:
  assumes talk: "talking name its d" and spoken: "spoken name its rs"
    and s: "s \<noteq> []" "utf16Len s = rune_count s" "length rs + rune_count s < 2 ^ 64" and fit: "bytes_fit name" "bytes_fit s"
  shows "\<exists>d' u x. write_at name 0 s d = Ret (d', [u]) \<and> decodeUpdateV1 u = Ret ([x], []) \<and> plain_insert name x \<and>
    item_ready (set its) x \<and> it_OriginLeft x = None \<and> Client (it_ID x) = d_clientID d \<and> shown x = runes_of s \<and>
    text_String name d' = Ret (string_of_runes (runes_of s @ rs))"
proof -
  obtain as where pre: "arranged name its d as" and share: "gm_get (d_share d) name \<noteq> None" "d_currentTx d = None"
    "d_updateHandlers d = [\<lparr>ih_id = 0, ih_fn = 0\<rparr>]"
    using talk by (auto simp: talking_def)
  let ?t = "length (d_txs d)" and ?d1 = "snd (begin_tx GNil d)" and ?a = "length (d_heap d)"
  let ?i = "mkID (d_clientID d) (doc_getState ?d1 (d_clientID d))"
  let ?new = "typed_item name ?i None s" and ?x = "heard_item name ?i None s"
  define d3 where "d3 = store_add ?a (?d1\<lparr>d_heap := d_heap d @ [?new]\<rparr>)"
  let ?d4 = "link_item name None ?a None (front as) d3"
  have d1: "arranged name its ?d1 as" using arranged_cong [OF pre, of ?d1] pre by (simp add: begin_tx_def arranged_def)
  have t: "text_list d name as" using pre share(1) by (simp add: arranged_def)
  have said: "\<forall>x \<in> set its. said x \<and> item_stop x \<le> length rs" using spoken by (auto simp: spoken_def)
  then have shown: "\<forall>a \<in> set as. shown (d_heap d ! a) \<noteq> []" using arranged_shown [OF pre] by (auto simp: said_def)
  then have "\<forall>a \<in> set as. \<not> it_Deleted (d_heap d ! a)" by (auto simp: shown_def split: if_splits)
  then have live: "dropWhile (\<lambda>a. it_Deleted (d_heap d ! a)) as = as" by (cases as) auto
  have "findPositionAt name 0 ?d1 = Ret ((None, front as), ?d1)"
    using t live text_list_start [OF t] by (simp add: findPositionAt_def begin_tx_def text_start_def skip_deleted_right_list text_list_def)
  then have ins: "text_Insert name 0 s ?d1 = Ret (tx_addItem ?t ?a ?d4)"
    using s(1) by (simp add: text_Insert_def alloc_def begin_tx_def Let_def typed_item_def zero_Item_def rune_count_def d3_def)
  have below: "b < ?a" "(d_heap d @ [?new]) ! b = d_heap d ! b" if "b \<in> set as" for b
    using arranged_bound [OF pre that] by (simp_all add: nth_append)
  have h3: "d_heap d3 = d_heap d @ [?new]" "d_share d3 = d_share d" by (simp_all add: d3_def store_add_def begin_tx_def)
  have t3: "text_list d3 name ([] @ as)" using t below(2) by (simp add: text_list_def h3 linked_heap_append)
  have "text_item ?new" using s(3) by (simp add: typed_item_def zero_Item_def text_item_def item_runes_def rune_count_def unat_of_nat_ok)
  then have a3: "?a < length (d_heap d3)" "?a \<notin> set ([] @ as)" "text_item (d_heap d3 ! ?a)" using below(1) by (auto simp: h3)
  note li = link_item_text [OF t3 a3, where sub = None, simplified]
  have front: "front as \<noteq> Some ?a" "\<And>r. front as = Some r \<Longrightarrow> r < length (d_heap d3)"
    using below(1) by (fastforce dest: front_in simp: h3)+
  have new_at: "d_heap ?d4 ! ?a = ?new\<lparr>it_Left := None, it_Right := front as\<rparr>"
    using link_item_heap(2) [of ?a d3 None "front as" ?a name None] a3(1) front by (simp add: h3)
  have "vis (d_heap ?d4) as = vis (d_heap d) as"
  proof (rule vis_cong)
    fix b assume "b \<in> set as"
    then show "agree (d_heap ?d4 ! b) (d_heap d ! b)" using li(2) [of b] below [of b] by (simp add: h3)
  qed
  then have vis: "text_vis ?d4 (?a # as) = runes_of s @ rs"
    using arranged_vis [OF pre] spoken
    by (auto simp: text_vis_def new_at spoken_def shown_def item_runes_def typed_item_def zero_Item_def)
  have kept: "d_clientID ?d4 = d_clientID d" "d_txs ?d4 = d_txs ?d1" "d_updateHandlers ?d4 = d_updateHandlers d" "d_events ?d4 = d_events d"
    by (simp_all add: d3_def store_add_def begin_tx_def)
  from Transact_insert [OF share(2,3) fit ins new_at kept] obtain u d' where u: "Transact (text_Insert name 0 s) GNil d = Ret d'"
    "fired (drop (length (d_events d)) (d_events d')) = [u]" "decodeUpdateV1 u = Ret ([?x], [])" "d_heap d' = d_heap ?d4" "d_share d' = d_share ?d4"
    by blast
  have "text_list d' name (?a # as)" using li(1) u(4,5) by (simp add: text_list_def)
  then have "text_String name d' = Ret (string_of_runes (runes_of s @ rs))"
    using text_String_list [of d' name "?a # as"] vis u(4) by (simp add: text_vis_def)
  moreover have "plain_insert name ?x" "item_ready (set its) ?x" "shown ?x = runes_of s"
    using heard_ready [OF d1 said s, of None "d_clientID d"] by simp_all
  moreover have "it_OriginLeft ?x = None" "Client (it_ID ?x) = d_clientID d" by (simp_all add: heard_item_def)
  ultimately show ?thesis using u(1-3) by (auto simp: write_at_def)
qed

text \<open>Where the peer puts it: in front of the first item, or behind everything.\<close>

lemma sink_past: "\<forall>y \<in> set ys. \<not> key y < key x \<Longrightarrow> sink key x ys = ys @ [x]"
  by (induction ys) auto

lemma causal_stops: "causal item_ready B its \<Longrightarrow> x \<in> set its \<Longrightarrow> item_stop x < 2 ^ 64"
  by (induction its arbitrary: B) (auto simp: item_ready_def)

lemma follows_origin: "successively follows (y # ys) \<Longrightarrow> \<forall>z \<in> set ys. it_OriginLeft z \<noteq> None"
  by (induction ys arbitrary: y) (auto simp: follows_def)

lemma arrange_start:
  assumes spoken: "spoken name its rs" and ready: "item_ready (set its) x" and x: "it_OriginLeft x = None" and its: "its = y # ys"
  shows "arrange (its @ [x]) = (if Client (it_ID y) \<le> Client (it_ID x) then x # its else its @ [x])"
proof -
  have y: "it_OriginLeft y = None" "item_ready {} y" "\<forall>z \<in> set ys. it_OriginLeft z \<noteq> None" "causal item_ready {y} ys"
    using spoken follows_origin [of y ys] by (auto simp: spoken_def its item_ready_def split: option.splits)
  have far: "\<not> item_key z < item_key x" if z: "z \<in> set ys" for z
  proof -
    obtain p where p: "it_OriginLeft z = Some p" using y(3) z by auto
    then obtain i where i: "i \<in> set its" "item_owns i p" using inserts.causal_origin [OF y(4) z p] by (auto simp: its)
    then have "unat (Clock p) + 1 < 2 ^ 64" using causal_stops [of "{}" its i] spoken by (auto simp: spoken_def item_owns_def)
    then have "unat (Clock p + 1) = unat (Clock p) + 1" using unat_plus_ok [of "Clock p" 1] by simp
    then have "Clock p + 1 \<noteq> 0" by auto
    then show ?thesis using x p by (simp add: item_key_def less_pair)
  qed
  have "Client (it_ID y) = Client (it_ID x) \<Longrightarrow> Clock (it_ID y) < Clock (it_ID x)"
    using ready by (auto simp: item_ready_def its item_start_def word_less_nat_alt)
  then have "item_key y < item_key x \<longleftrightarrow> Client (it_ID y) \<le> Client (it_ID x)"
    using x y(1) by (auto simp: item_key_def less_pair not_less compareIDs_le less_eq_ID_def simp flip: not_le)
  moreover have "arrange (its @ [x]) = sink item_key x its" using spoken x by (simp add: spoken_def arrange_def put_def)
  ultimately show ?thesis using sink_past [of ys item_key x] far by (simp add: its)
qed

text \<open>
  C38. What becomes elsewhere of an insert at the start. After any conversation in words without
  supplementary characters a peer inserts such words at index 0 and sees them in front. A peer that applies the update shows them in front when the
  writer's client is not smaller than the one that took the first turn, and otherwise behind the
  whole text, although nothing was concurrent.
\<close>
theorem insert_at_start_moves:
  assumes "name \<noteq> []" and "bytes_fit name" and "\<forall>t \<in> set (t # ts). turn_ok_for (length cs) t"
    and "k < length cs" and "j < length cs" and "turn_ok_for (length cs) (k, s)" and "\<forall>t' \<in> set ((k, s) # t # ts). bmp_only (snd t')"
    and "length (words (t # ts)) + rune_count s < 2 ^ 64"
  shows "\<exists>ds d' us e. ofold (turn name) (t # ts) (map (member name) cs) = Ret ds \<and>
    write_at name 0 s (ds ! k) = Ret (d', us) \<and> hear us (ds ! j) = Ret e \<and>
    text_String name d' = Ret (string_of_runes (runes_of s @ words (t # ts))) \<and>
    text_String name e = Ret (string_of_runes
      (if cs ! fst t \<le> cs ! k then runes_of s @ words (t # ts) else words (t # ts) @ runes_of s))"
proof -
  obtain its ds where ds: "ofold (turn name) (t # ts) (map (member name) cs) = Ret ds" "\<forall>d \<in> set ds. talking name its d"
    "clients ds = cs" "spoken name its (words (t # ts))" "map (\<lambda>x. (Client (it_ID x), shown x)) its = map (\<lambda>t. (cs ! fst t, runes_of (snd t))) (t # ts)"
    using conversation [OF assms(1-3)] assms(7,8) by auto
  have len: "length ds = length cs" using arg_cong [OF ds(3), of length] by (simp add: clients_def)
  obtain y ys where its: "its = y # ys" "Client (it_ID y) = cs ! fst t" using ds(5) by (cases its) auto
  have s: "s \<noteq> []" "utf16Len s = rune_count s" "bytes_fit s" using assms(6,7) by (simp_all add: turn_ok_for_def bmp_only_iff)
  have talk: "talking name its (ds ! k)" "talking name its (ds ! j)" using ds(2) assms(4,5) len by simp_all
  have client: "d_clientID (ds ! k) = cs ! k" using ds(3) assms(4) len by (metis clients_def nth_map)
  obtain d' u x where x: "write_at name 0 s (ds ! k) = Ret (d', [u])" "decodeUpdateV1 u = Ret ([x], [])" "plain_insert name x"
    "item_ready (set its) x" "it_OriginLeft x = None" "Client (it_ID x) = cs ! k" "shown x = runes_of s"
    "text_String name d' = Ret (string_of_runes (runes_of s @ words (t # ts)))"
    using Insert_at_start [OF talk(1) ds(4) s(1,2) assms(8,2) s(3)] client by auto
  obtain e where e: "hear [u] (ds ! j) = Ret e" "talking name (its @ [x]) e" using hear_ok [OF talk(2) x(2-4) assms(1)] by blast
  then obtain as where "arranged name (its @ [x]) e as" by (auto simp: talking_def)
  from arranged_text [OF this] have "text_String name e = Ret (string_of_runes
      (if cs ! fst t \<le> cs ! k then runes_of s @ words (t # ts) else words (t # ts) @ runes_of s))"
    using arrange_start [OF ds(4) x(4,5) its(1)] its(2) x(6,7) ds(4) by (auto simp: spoken_def)
  then show ?thesis using ds(1) x(1,8) e(1) by blast
qed

theorem insert_at_start_moves_witness:
  "\<exists>ds d' us e. ofold (turn tn) [(1, [0x61]), (0, [0x62])] (map (member tn) [1, 2]) = Ret ds \<and>
    write_at tn 0 [0x78] (ds ! 0) = Ret (d', us) \<and> hear us (ds ! 1) = Ret e \<and>
    text_String tn d' = Ret (string_of_runes [0x78, 0x61, 0x62]) \<and> text_String tn e = Ret (string_of_runes [0x61, 0x62, 0x78])"
proof -
  have order: "\<not> (2::u64) \<le> 1" by (simp add: word_le_nat_alt)
  show ?thesis
    using insert_at_start_moves [of tn "(1, [0x61])" "[(0, [0x62])]" "[1, 2]" 0 1 "[0x78]"]
    by (simp add: order turn_ok_for_def words_def tn_def bytes_fit_def max_alloc_def bmp_only_def rune_count_def)
qed

section \<open>A value written over another\<close>

text \<open>
  A client sets a key; another receives the item and sets the key again. The new item has no
  origin, so its place beside the old one on the first client is a matter of the two identifiers,
  and \<open>Map.Set\<close> recorded no deletion.
\<close>

definition map_peer :: "gostring \<Rightarrow> u64 \<Rightarrow> Doc" where
  "map_peer name c = snd (OnUpdate 0 (share_put name newMap (new_doc c)))"

definition entry_item :: "gostring \<Rightarrow> gostring \<Rightarrow> u64 \<Rightarrow> goany \<Rightarrow> Item" where
  "entry_item name key c v = zero_Item\<lparr>it_ID := mkID c 0, it_Parent := Some name, it_ParentSub := Some key,
     it_Kind := contentAny, it_Content := v, it_Length := 1\<rparr>"

definition arrived_entry :: "gostring \<Rightarrow> gostring \<Rightarrow> u64 \<Rightarrow> goany \<Rightarrow> Item" where
  "arrived_entry name key c v = zero_Item\<lparr>it_ID := mkID c 0, it_parentName := name, it_ParentSub := Some key,
     it_Kind := contentAny, it_Content := v, it_Length := 1\<rparr>"

text \<open>The values that the wire carries as they are.\<close>

definition scalar :: "goany \<Rightarrow> bool" where
  "scalar v \<longleftrightarrow> any_ok v \<and> any_norm v = v \<and> (\<forall>vs. v \<noteq> GArr vs)"

lemma entry_update:
  assumes "scalar v" and "bytes_fit name" and "bytes_fit key"
  shows "\<exists>u. encodeUpdateV1 [entry_item name key c v] [] = Ret u \<and> decodeUpdateV1 u = Ret ([arrived_entry name key c v], [])"
proof -
  have "update_ok (pending_update [entry_item name key c v] [])"
    using assms by (simp add: run_encode run_decode pending_update_def entry_item_def scalar_def)
  from sent_update [OF this] show ?thesis
    using assms by (cases v) (auto simp: run_encode run_decode pending_update_def entry_item_def arrived_entry_def scalar_def)
qed

lemmas run_map = map_Set_def map_Get_def map_entries_def set_entry_def newMap_def

definition entry_set :: "gostring \<Rightarrow> gostring \<Rightarrow> u64 \<Rightarrow> goany \<Rightarrow> byte list \<Rightarrow> Doc" where
  "entry_set name key c v u = (map_peer name c)\<lparr>d_heap := [entry_item name key c v], d_store := [(c, [0])],
     d_share := [(name, TMap [(key, 0)] [])],
     d_txs := [\<lparr>tx_origin = GNil, tx_pendingItems = [0], tx_pendingDeletes = [], tx_changedTypes = [name]\<rparr>],
     d_events := [UpdateFired 0 u GNil]\<rparr>"

lemma entry_run:
  assumes "encodeUpdateV1 [entry_item name key c v] [] = Ret u"
  shows "Transact (map_Set name key v) GNil (map_peer name c) = Ret (entry_set name key c v u)"
  using assms by (simp add: map_peer_def entry_set_def Transact_def entry_item_def run_state run_store run_map)

lemma overwrite_run:
  assumes "encodeUpdateV1 [entry_item name key c' v'] [] = Ret u" and "name \<noteq> []" and "c' \<noteq> c"
  shows "\<exists>d1 d2. apply_decoded [arrived_entry name key c v] [] GNil (map_peer name c') = Ret d1 \<and>
     map_Get name key d1 = Some v \<and>
     Transact (map_Set name key v') GNil d1 = Ret d2 \<and> d_events d2 = [UpdateFired 0 u GNil] \<and>
     map_Get name key d2 = Some v'"
  using assms
  by (simp add: apply_decoded_def accumulate_ds_def apply_ds_def arrived_entry_def map_peer_def Transact_def run_state run_store
      run_integrate run_map entry_item_def link_item_def setFirstItem_def)

lemma overwrite_received:
  assumes "name \<noteq> []" and "c' \<noteq> c"
  shows "\<exists>d. apply_decoded [arrived_entry name key c' v'] [] GNil (entry_set name key c v u) = Ret d \<and>
     map_Get name key d = Some (if c' < c then v else v')"
  using assms
  by (auto simp: entry_set_def entry_item_def map_peer_def apply_decoded_def accumulate_ds_def apply_ds_def
      arrived_entry_def run_state run_store run_integrate run_map link_item_def setFirstItem_def)



end
