(* ===== verification/Typing.thy ===== *)
theory Typing
  imports LocalEdits Sequence
begin

text \<open>
  The Go types of the items' contents, apart from every other invariant: no call makes an item whose
  content is not of the type that its kind promises, whatever the lists look like, cyclic ones
  included.
\<close>

section \<open>Documents of typed items\<close>

definition well_typed :: "Doc \<Rightarrow> bool" where
  "well_typed d \<longleftrightarrow> list_all typed (d_heap d)"

lemma well_typed_cong: "well_typed d \<Longrightarrow> d_heap d' = d_heap d \<Longrightarrow> well_typed d'"
  by (simp add: well_typed_def)

lemma well_typed_wf: "doc_wf d \<Longrightarrow> well_typed d"
  by (simp add: doc_wf_def well_typed_def)

lemma well_typed_upd:
  assumes "well_typed d" "a < length (d_heap d) \<Longrightarrow> typed (d_heap d ! a) \<Longrightarrow> typed (f (d_heap d ! a))"
  shows "well_typed (upd_item a f d)"
proof (cases "a < length (d_heap d)")
  case True
  then have "typed (f (d_heap d ! a))" using assms by (simp add: well_typed_def list_all_length)
  then show ?thesis
    using assms(1) set_update_subset_insert by (fastforce simp: well_typed_def upd_item_def list_all_iff)
qed (use assms(1) in \<open>simp add: well_typed_def upd_item_def list_update_beyond\<close>)

lemma typed_links: "typed it \<Longrightarrow> typed (it\<lparr>it_Left := l\<rparr>)" "typed it \<Longrightarrow> typed (it\<lparr>it_Right := r\<rparr>)"
  "typed it \<Longrightarrow> typed (it\<lparr>it_Left := l, it_Right := r\<rparr>)"
  by (simp_all add: typed_def)

lemma well_typed_fields [simp]:
  "well_typed (store_add a d) = well_typed d" "well_typed (share_put n st d) = well_typed d"
  "well_typed (setFirstItem p a sub d) = well_typed d" "well_typed (tx_addItem t a d) = well_typed d"
  "well_typed (tx_addDeletedItem t a d) = well_typed d" "well_typed (insertIntoStore a d) = well_typed d"
  "well_typed (snd (begin_tx origin d)) = well_typed d" "well_typed (fireObservers t d) = well_typed d"
  "well_typed (set_entry n k a d) = well_typed d" "well_typed (d\<lparr>d_ds := ds\<rparr>) = well_typed d"
  "well_typed (d\<lparr>d_currentTx := tx\<rparr>) = well_typed d" "well_typed (call_handlers u origin d) = well_typed d"
  by (auto simp: well_typed_def store_add_def share_put_def tx_addItem_def tx_addDeletedItem_def insertIntoStore_def begin_tx_def
      fireObservers_def set_entry_def call_handlers_def Let_def split: option.split SharedType.split)

lemma well_typed_alloc: "well_typed d \<Longrightarrow> typed it \<Longrightarrow> well_typed (snd (alloc it d))"
  by (simp add: well_typed_def alloc_def)

lemma well_typed_link: "well_typed d \<Longrightarrow> well_typed (link_item parent sub a left p d)"
  by (auto simp: link_item_def Let_def typed_links split: option.split intro!: well_typed_upd)

lemma well_typed_split_off:
  assumes "well_typed d" "a < length (d_heap d) \<Longrightarrow> typed (d_heap d ! a) \<Longrightarrow> typed (f (d_heap d ! a))" "typed ri"
  shows "well_typed (snd (split_off a f ri d))"
  using well_typed_alloc [OF well_typed_upd [where f = f, OF assms(1,2)] assms(3)]
  by (auto simp: split_off_def Let_def split_beta typed_links split: option.split intro!: well_typed_upd)

text \<open>A split's two halves are strings: what it splits has runes, so it is one.\<close>

lemma typed_shrunk: "strContent it = Ret s \<Longrightarrow> runes_of s \<noteq> [] \<Longrightarrow> typed (it\<lparr>it_Content := GString s', it_Length := n\<rparr>)"
  by (auto simp: strContent_def typed_def split: if_splits)

lemma typed_string: "typed (zero_Item\<lparr>it_ID := i, it_Left := l, it_Right := r, it_Parent := p, it_Kind := contentString,
    it_Content := GString s, it_Length := n, it_OriginLeft := o'\<rparr>)"
  by (simp add: typed_def)

abbreviation keeps_typed :: "Doc outcome \<Rightarrow> bool" where
  "keeps_typed m \<equiv> ensures well_typed m"

lemma ensures_ofold: "P s \<Longrightarrow> (\<And>x s. x \<in> set xs \<Longrightarrow> P s \<Longrightarrow> ensures P (f x s)) \<Longrightarrow> ensures P (ofold f xs s)"
  by (induction xs arbitrary: s) (auto intro!: ensures_basic ensures_bind [where Q = P])

section \<open>Remote updates\<close>

lemma place_item_typed: "well_typed d \<Longrightarrow> keeps_typed (place_item a d)"
  by (auto simp: ensures_def place_item_def Let_def well_typed_link split: option.split prod.split)

lemma integrateItem_typed:
  assumes "well_typed d" "typed it"
  shows "keeps_typed (integrateItem it d)"
proof (cases "doc_getItem d (it_ID it)")
  case None
  let ?a = "length (d_heap d)" and ?d2 = "store_add (length (d_heap d)) (snd (alloc it d))"
  define d3 where "d3 = (if isDeleted (d_ds ?d2) (it_ID it) then upd_item ?a (\<lambda>i. i\<lparr>it_Deleted := True\<rparr>) ?d2 else ?d2)"
  have "well_typed d3" using well_typed_alloc [OF assms] by (auto simp: d3_def typed_fields intro!: well_typed_upd)
  then have "well_typed (resolve_by_name ?a d3)"
    by (auto simp: resolve_by_name_def Let_def typed_fields intro!: well_typed_upd split: option.split)
  then have "well_typed (inherit_parent ?a (resolve_by_name ?a d3))"
    by (auto simp: inherit_parent_def Let_def typed_fields intro!: well_typed_upd split: option.split)
  moreover have "integrateItem it d = place_item ?a (inherit_parent ?a (resolve_by_name ?a d3))"
    using None by (simp add: integrateItem_def d3_def alloc_def Let_def cong: if_cong split del: if_split)
  ultimately show ?thesis by (simp add: place_item_typed)
qed (use assms in \<open>simp add: integrateItem_known ensures_def\<close>)

lemma splitAtClock_typed:
  assumes "well_typed d"
  shows "keeps_typed (splitAtClock c k d)"
proof -
  have half: "well_typed (snd (split_off a (\<lambda>i. i\<lparr>it_Content := GString ls, it_Length := n\<rparr>)
      (zero_Item\<lparr>it_ID := i, it_Left := l, it_Right := r, it_Parent := p, it_Kind := contentString,
        it_Content := GString s', it_Length := m, it_OriginLeft := o'\<rparr>) d))"
    if "it_Kind (d_heap d ! a) = contentString" for a ls n i l r p s' m o'
    using assms that by (intro well_typed_split_off) (auto simp: typed_def)
  then show ?thesis using assms
    by (auto simp: splitAtClock_def Let_def split_beta ensures_def outcome_simps split: option.splits if_splits)
qed

lemma mark_range_typed: "well_typed d \<Longrightarrow> well_typed (mark_range t k e as d)"
  by (induction t k e as d rule: mark_range.induct) (simp_all add: Let_def typed_fields well_typed_upd)

lemma applyDeleteRange_typed: "well_typed d \<Longrightarrow> keeps_typed (applyDeleteRange t c k n d)"
  unfolding applyDeleteRange_def Let_def
  by (intro ensures_bind [OF splitAtClock_typed] ensures_basic mark_range_typed)

lemma apply_decoded_typed:
  assumes "well_typed d" "list_all typed items"
  shows "keeps_typed (apply_decoded items ds origin d)"
proof -
  have marks: "keeps_typed (apply_ds t e d')" if "well_typed d'" for t e d'
    unfolding apply_ds_def by (rule ensures_ofold [where P = well_typed, OF that]) (auto intro!: ensures_ofold [where P = well_typed] applyDeleteRange_typed)
  have items: "keeps_typed (ofold integrateItem items d')" if "well_typed d'" for d'
    by (rule ensures_ofold [where P = well_typed, OF that integrateItem_typed]) (use assms(2) in \<open>simp_all add: list_all_iff\<close>)
  show ?thesis unfolding apply_decoded_def Let_def split_beta
    by (rule ensures_bind [OF items]) (use assms(1) in \<open>auto intro!: ensures_bind [OF marks] ensures_basic
      intro: well_typed_cong\<close>)
qed

lemma ApplyUpdate_typed:
  assumes "well_typed d"
  shows "keeps_typed (ApplyUpdate bs origin d)"
  unfolding ApplyUpdate_def
  by (rule ensures_bind [OF decoded_arriving])
    (auto simp: arriving_def list_all_iff intro!: apply_decoded_typed assms)

section \<open>Local edits\<close>

lemma splitItemAt_typed:
  assumes "well_typed d"
  shows "ensures (\<lambda>x. well_typed (snd x)) (splitItemAt a off d)"
proof -
  have half: "well_typed (snd (split_off a (\<lambda>i. i\<lparr>it_Content := GString ls, it_Length := n\<rparr>)
      (zero_Item\<lparr>it_ID := i, it_Left := l, it_Right := r, it_Parent := p, it_Kind := contentString,
        it_Content := GString s', it_Length := m, it_OriginLeft := o'\<rparr>) d))"
    if "strContent (d_heap d ! a) = Ret s" "off \<noteq> 0" "unat off \<le> length (runes_of s)" for s ls n i l r p s' m o'
  proof -
    have "0 < unat off" using that(2) by (simp add: unat_gt_0)
    then have "runes_of s \<noteq> []" using that(3) by auto
    then show ?thesis using assms that(1) by (intro well_typed_split_off typed_string) (auto intro: typed_shrunk)
  qed
  show ?thesis
  proof (cases "off = 0")
    case True
    then show ?thesis using assms by (auto simp: splitItemAt_def Let_def ensures_def split: option.splits)
  next
    case False
    then show ?thesis using half
      by (auto simp: splitItemAt_def Let_def split_beta ensures_def outcome_simps not_less split: if_splits)
  qed
qed

lemma findPositionAt_typed: "well_typed d \<Longrightarrow> ensures (\<lambda>x. well_typed (snd x)) (findPositionAt name index d)"
  using splitItemAt_typed [of d]
  by (auto simp: findPositionAt_def ensures_def outcome_simps split: option.splits position.splits if_splits)

lemma text_Insert_typed:
  assumes "well_typed d"
  shows "keeps_typed (text_Insert name i s d)"
proof -
  have add: "well_typed (link_item name None a left p (store_add a (snd (alloc it d'))))"
    if "well_typed d'" "typed it" for a left p it d'
    using that by (intro well_typed_link) (simp add: well_typed_alloc)
  show ?thesis
  proof (cases "d_currentTx d")
    case (Some tx)
    show ?thesis unfolding text_Insert_def Let_def
      by (auto simp: Some assms split_beta intro!: ensures_basic ensures_bind [OF findPositionAt_typed [OF assms]] add)
        (simp_all add: typed_def)
  qed (use assms in \<open>auto simp: text_Insert_def ensures_def\<close>)
qed

lemma mark_deleted_typed: "well_typed d \<Longrightarrow> well_typed (mark_deleted tx a d)"
  by (simp add: mark_deleted_def well_typed_upd typed_fields)

lemma delete_body_typed:
  assumes "well_typed d"
  shows "ensures (\<lambda>(pos', remaining', d'). well_typed d') (delete_body tx index a pos remaining d)"
  unfolding delete_body_def Let_def
  by (intro ensures_if ensures_basic ensures_bind [OF splitItemAt_typed [OF assms]] ensures_prod ensures_prod_app)
    (auto simp: assms mark_deleted_typed intro!: ensures_basic ensures_if ensures_bind [OF splitItemAt_typed])

lemma delete_loop_typed:
  assumes "delete_loop tx index p pos remaining d = Some m"
  shows "well_typed d \<longrightarrow> keeps_typed m"
proof (rule delete_loop.raw_induct [where P = "\<lambda>tx index p pos remaining d m. well_typed d \<longrightarrow> keeps_typed m", OF _ assms])
  fix loop tx index p pos remaining d m
  assume IH: "\<And>tx index p pos remaining d m. loop tx index p pos remaining d = Some m \<Longrightarrow> well_typed d \<longrightarrow> keeps_typed m"
    and run: "(case p of None \<Rightarrow> Some (Ret d)
      | Some a \<Rightarrow>
          if \<not> remaining > 0 then Some (Ret d)
          else (case delete_body tx index a pos remaining d of
              Ret (pos', remaining', d') \<Rightarrow> loop tx index (it_Right (d_heap d' ! a)) pos' remaining' d'
            | Err e \<Rightarrow> Some (Err e) | Panic p' \<Rightarrow> Some (Panic p') | Diverge \<Rightarrow> None)) = Some m"
  show "well_typed d \<longrightarrow> keeps_typed m"
  proof
    assume d: "well_typed d"
    have body: "well_typed d'" if "delete_body tx index a pos remaining d = Ret (pos', remaining', d')" for a pos' remaining' d'
      using delete_body_typed [OF d, of tx index a pos remaining] that by (simp add: ensures_def)
    show "keeps_typed m"
      using run d body by (auto simp: ensures_basic split: option.splits if_splits outcome.splits prod.splits dest: IH)
  qed
qed

lemma text_Delete_typed:
  assumes "well_typed d"
  shows "keeps_typed (text_Delete name i n d)"
proof -
  have "keeps_typed (of_loop (delete_loop tx i p 0 n d))" for tx p
    using delete_loop_typed [of tx i p 0 n d] assms by (cases "delete_loop tx i p 0 n d") (auto simp: ensures_def)
  then show ?thesis using assms by (auto simp: text_Delete_def ensures_basic split: option.split)
qed

lemma add_value_typed: "well_typed d \<Longrightarrow> well_typed (snd (add_value tx name prev right v d))"
  by (simp add: add_value_def Let_def split_beta well_typed_link well_typed_alloc array_item_def typed_def)

lemma push_loop_typed: "well_typed d \<Longrightarrow> well_typed (push_loop tx name lst vs d)"
  by (induction vs arbitrary: lst d) (simp_all add: split_beta add_value_typed)

lemma insert_loop_typed: "well_typed d \<Longrightarrow> well_typed (insert_loop tx name first left right vs d)"
  by (induction vs arbitrary: first right d) (simp_all add: split_beta Let_def add_value_typed)

lemma marks_only_typed:
  assumes "marks_only d d'" "well_typed d"
  shows "well_typed d'"
proof -
  have "typed (flagless i) = typed i" for i by (simp add: typed_def flagless_def)
  then show ?thesis using assms by (simp add: marks_only_def well_typed_def list_all_length) metis
qed

lemma array_delete_loop_typed: "array_delete_loop tx index len p pos d = Some d' \<Longrightarrow> well_typed d \<Longrightarrow> well_typed d'"
  using array_delete_loop_marks marks_only_typed by blast

lemma array_ops_typed:
  assumes "well_typed d"
  shows "keeps_typed (array_Insert name i vs d)" "keeps_typed (array_Push name vs d)" "keeps_typed (array_Delete name i n d)"
  using assms array_delete_loop_typed
  by (auto simp: array_Insert_def array_Push_def array_Delete_def ensures_def outcome_simps Let_def insert_loop_typed push_loop_typed
      split: option.splits if_splits)

lemma map_ops_typed:
  assumes "well_typed d"
  shows "keeps_typed (map_Set name k v d)" "keeps_typed (map_Delete name k d)"
proof -
  have "well_typed (case gm_get (map_entries d name) k of Some old \<Rightarrow> upd_item old (\<lambda>i. i\<lparr>it_Deleted := True\<rparr>) d | None \<Rightarrow> d)"
    using assms by (auto simp: well_typed_upd typed_fields split: option.split)
  then show "keeps_typed (map_Set name k v d)"
    by (auto simp: map_Set_def Let_def split_beta ensures_def typed_def intro!: well_typed_alloc split: option.split)
  show "keeps_typed (map_Delete name k d)"
    using assms by (auto simp: map_Delete_def ensures_def well_typed_upd typed_fields split: option.split)
qed

lemma run_op_typed: "well_typed d \<Longrightarrow> keeps_typed (run_op op d)"
  by (cases op) (simp_all add: text_Insert_typed text_Delete_typed array_ops_typed map_ops_typed)

lemma Transact_typed:
  assumes "well_typed d"
  shows "keeps_typed (Transact (ofold run_op ops) origin d)"
proof -
  have run: "keeps_typed (ofold run_op ops d')" if "well_typed d'" for d'
    by (rule ensures_ofold [where P = well_typed, OF that]) (simp add: run_op_typed)
  show ?thesis unfolding Transact_def Let_def split_beta
    by (intro ensures_if run assms ensures_bind [where Q = well_typed]) (use assms run in \<open>auto simp: ensures_def outcome_simps\<close>)
qed

end
