(* ===== verification/LiveProperties.thy ===== *)
theory LiveProperties
  imports Sessions PeerProperties Conflicts MapReplicas Typing
begin

text \<open>
  What no peer can break: a document that an application and its peers have brought about by any
  calls can be updated, encoded, read and edited, and the relay's room around it keeps running.
\<close>

section \<open>The documents of an application\<close>

text \<open>
  The documents that the program's calls bring about, where \<open>ok\<close> says which transactions an
  application may make, given their calls and the document that they start on.
\<close>

inductive called :: "(local_op list \<Rightarrow> Doc \<Rightarrow> bool) \<Rightarrow> Doc \<Rightarrow> bool" for ok where
  created: "called ok (NewDoc rnd)"
| created_with: "NewDocWithClientID c = Ret d \<Longrightarrow> called ok d"
| typed_text: "called ok d \<Longrightarrow> GetText n d = Ret d' \<Longrightarrow> called ok d'"
| typed_map: "called ok d \<Longrightarrow> GetMap n d = Ret d' \<Longrightarrow> called ok d'"
| typed_array: "called ok d \<Longrightarrow> GetArray n d = Ret d' \<Longrightarrow> called ok d'"
| typed_xml: "called ok d \<Longrightarrow> GetXmlFragment n d = Ret d' \<Longrightarrow> called ok d'"
| text_observed: "called ok d \<Longrightarrow> called ok (text_Observe n f d)"
| map_observed: "called ok d \<Longrightarrow> called ok (map_Observe n f d)"
| array_observed: "called ok d \<Longrightarrow> called ok (array_Observe n f d)"
| subscribed: "called ok d \<Longrightarrow> called ok (snd (OnUpdate f d))"
| unsubscribed: "called ok d \<Longrightarrow> called ok (unsubscribe i d)"
| updated: "called ok d \<Longrightarrow> ApplyUpdate bs origin d = Ret d' \<Longrightarrow> called ok d'"
| committed: "called ok d \<Longrightarrow> ok ops (snd (begin_tx origin d)) \<Longrightarrow> Transact (ofold run_op ops) origin d = Ret d' \<Longrightarrow>
    called ok d'"

text \<open>
  \<open>api_reach\<close> has every call. \<open>doc_reach\<close> leaves one out, the \<open>Insert\<close> of several values into an
  array while the client's slice holds an item behind its clock: it can make a list that is a
  cycle (\<open>array_insert_makes_cycle\<close>), on which the loops of the code do not end.
\<close>

definition api_reach :: "Doc \<Rightarrow> bool" where
  "api_reach = called (\<lambda>_ _. True)"

definition doc_reach :: "Doc \<Rightarrow> bool" where
  "doc_reach = called no_stale_insert"

lemma doc_reach_created: "doc_reach (NewDoc rnd)"
  by (simp add: doc_reach_def called.created)

lemma doc_reach_created_with: "NewDocWithClientID c = Ret d \<Longrightarrow> doc_reach d"
  by (simp add: doc_reach_def called.created_with)

lemma doc_reach_updated: "doc_reach d \<Longrightarrow> ApplyUpdate bs origin d = Ret d' \<Longrightarrow> doc_reach d'"
  by (metis doc_reach_def called.updated)

lemma doc_reach_committed:
  "doc_reach d \<Longrightarrow> no_stale_insert ops (snd (begin_tx origin d)) \<Longrightarrow> Transact (ofold run_op ops) origin d = Ret d' \<Longrightarrow> doc_reach d'"
  by (metis doc_reach_def called.committed)

lemma doc_reach_api: "doc_reach d \<Longrightarrow> api_reach d"
  unfolding doc_reach_def api_reach_def by (induction rule: called.induct) (blast intro: called.intros TrueI)+

lemma apply_decoded_tx: "apply_decoded items ds origin d = Ret d' \<Longrightarrow> d_currentTx d' = None"
  by (auto simp: apply_decoded_def Let_def outcome_simps fireObservers_def split_beta)

lemma get_shared_wf:
  "get_shared p st n d = Ret d' \<Longrightarrow> starts st = {} \<Longrightarrow> doc_wf d \<Longrightarrow> doc_wf d' \<and> d_currentTx d' = d_currentTx d"
  by (auto simp: get_shared_def share_put_def split: option.splits if_splits intro: doc_wf_share [unfolded share_put_def])

lemma observe_wf:
  assumes "doc_wf d" "d_currentTx d = None"
  shows "doc_wf (text_Observe n f d) \<and> d_currentTx (text_Observe n f d) = None"
    "doc_wf (map_Observe n f d) \<and> d_currentTx (map_Observe n f d) = None"
    "doc_wf (array_Observe n f d) \<and> d_currentTx (array_Observe n f d) = None"
  using assms share_start [OF assms(1)]
  by (auto simp: text_Observe_def map_Observe_def array_Observe_def share_put_def split: option.split SharedType.split
      intro!: doc_wf_share [unfolded share_put_def])

lemma doc_reach_wf: "doc_reach d \<Longrightarrow> doc_wf d \<and> d_currentTx d = None"
  unfolding doc_reach_def
proof (induction rule: called.induct)
  case (created rnd)
  then show ?case using doc_wf_new by (simp add: NewDoc_def new_doc_def Let_def split: option.split prod.split)
next
  case (created_with c d)
  then show ?case using doc_wf_new [of c] by (auto simp: NewDocWithClientID_def new_doc_def split: if_splits)
next
  case (subscribed d f)
  then show ?case using doc_wf_cong [of d "snd (OnUpdate f d)"] by (simp add: OnUpdate_def Let_def)
next
  case (unsubscribed d i)
  then show ?case using doc_wf_cong [of d "unsubscribe i d"] by (simp add: unsubscribe_def)
next
  case (updated d bs origin d')
  then show ?case using ApplyUpdate_safe [of d bs origin] apply_decoded_tx
    by (auto simp: ApplyUpdate_def outcome_simps)
next
  case (committed d ops origin d')
  then show ?case using Transact_end [of d ops origin] by auto
qed (auto simp: GetText_def GetMap_def GetArray_def GetXmlFragment_def newText_def newMap_def newArray_def
    newXmlFragment_def observe_wf dest!: get_shared_wf)

text \<open>The types of the contents need none of this.\<close>

lemma get_shared_typed: "get_shared p st n d = Ret d' \<Longrightarrow> well_typed d \<Longrightarrow> well_typed d'"
  by (auto simp: get_shared_def split: option.splits if_splits)

lemma observe_typed:
  assumes "well_typed d"
  shows "well_typed (text_Observe n f d)" "well_typed (map_Observe n f d)" "well_typed (array_Observe n f d)"
  using assms by (auto simp: text_Observe_def map_Observe_def array_Observe_def split: option.split SharedType.split)

lemma api_reach_typed: "api_reach d \<Longrightarrow> well_typed d"
  unfolding api_reach_def
proof (induction rule: called.induct)
  case (updated d bs origin d')
  then show ?case using ApplyUpdate_typed [of d bs origin] by (simp add: ensures_def)
next
  case (committed d ops origin d')
  then show ?case using Transact_typed [of d ops origin] by (simp add: ensures_def)
qed (auto simp: well_typed_def NewDoc_def NewDocWithClientID_def new_doc_def OnUpdate_def unsubscribe_def Let_def
    observe_typed [unfolded well_typed_def] GetText_def GetMap_def GetArray_def GetXmlFragment_def
    dest: get_shared_typed [unfolded well_typed_def] split: option.splits prod.splits if_splits)

text \<open>How applying bytes follows their decoding.\<close>

lemma apply_update_cases:
  assumes "doc_reach d"
  shows "case DecodeUpdateV1 bs of
      Ret u \<Rightarrow> \<exists>d'. ApplyUpdate bs origin d = Ret d' \<and> doc_reach d'
    | Err e \<Rightarrow> ApplyUpdate bs origin d = Err e
    | Panic p \<Rightarrow> p = MakeSliceLen \<and> ApplyUpdate bs origin d = Panic p
    | Diverge \<Rightarrow> False"
proof (cases "DecodeUpdateV1 bs")
  case (Ret u)
  then have "list_all arriving (update_items u)" using decoded_arriving [of bs] by (simp add: ensures_def decodeUpdateV1_def)
  then obtain d' where "ApplyUpdate bs origin d = Ret d'"
    using apply_decoded_wf [of d "update_items u" "update_ds u" origin] doc_reach_wf [OF assms] Ret
    by (auto simp: ApplyUpdate_def decodeUpdateV1_def)
  then show ?thesis using Ret doc_reach_updated [OF assms] by auto
qed (use tame_DecodeUpdateV1 [of bs] in \<open>auto simp: ApplyUpdate_def decodeUpdateV1_def tame_def\<close>)

text \<open>
  C10. Any bytes can be applied to any document that the program's calls have brought about, except
  for those of one call: an \<open>Array.Insert\<close> of several values while the client's slice holds an item
  behind its clock, after which the scan of \<open>ApplyUpdate\<close> may go round in a cycle. When the bytes
  decode, \<open>ApplyUpdate\<close> returns a document that is again such a document, and when they do not, it
  ends as the decoder does, with its error or with the panic of \<open>make\<close> on an absurd length. It
  never loops, and no other panic is left.
\<close>
theorem apply_update_total:
  assumes "doc_reach d"
  shows "case DecodeUpdateV1 bs of
      Ret u \<Rightarrow> \<exists>d'. ApplyUpdate bs origin d = Ret d' \<and> doc_reach d'
    | Err e \<Rightarrow> ApplyUpdate bs origin d = Err e
    | Panic p \<Rightarrow> p = MakeSliceLen \<and> ApplyUpdate bs origin d = Panic p
    | Diverge \<Rightarrow> False"
  using assms by (rule apply_update_cases)

theorem apply_update_total_witness: "\<exists>d'. ApplyUpdate [0, 0] GNil (NewDoc None) = Ret d' \<and> doc_reach d'"
  using apply_update_total [OF doc_reach_created [of None], of "[0, 0]" GNil] empty_update_decodes by simp

text \<open>
  C27. Every document that the program's calls have brought about, with no \<open>Array.Insert\<close> of several
  values while the client's slice held an item behind its clock, can be read and encoded: the
  readers of all types return, and \<open>EncodeStateAsUpdate\<close> and \<open>Snapshot\<close> return bytes or an error
  for whatever a peer sends as its state vector.
\<close>
theorem readers_total:
  assumes "doc_reach d"
  shows "returns (text_String name d) \<and> returns (text_Len name d) \<and> returns (array_ToSlice name d) \<and>
    returns (array_Len name d) \<and> returns (array_Get name i d) \<and> returns (xml_Len name d) \<and>
    ((\<exists>b. EncodeStateAsUpdate d sv = Ret b) \<or> (\<exists>e. EncodeStateAsUpdate d sv = Err e))"
  using readers_return [where d = d and name = name] EncodeStateAsUpdate_wf [where d = d and sv = sv]
    doc_reach_wf [OF assms]
  by (auto simp: ret_or_err_def split: outcome.splits)

theorem readers_total_witness: "returns (text_String [0x74] (NewDoc None)) \<and> returns (array_Get [0x74] 3 (NewDoc None))"
  using readers_total [OF doc_reach_created [of None], of "[0x74]" 3] by simp

text \<open>A document that has received one insert.\<close>

lemma received_reach: "\<exists>d. doc_reach d \<and> length (d_heap d) = 1"
proof -
  obtain u where u: "decodeUpdateV1 u = Ret ([arrived_item 1 tn [0x61, 0x62]], [])"
    using sent_update [OF first_update_ok [of tn "[0x61, 0x62]" 1]]
    by (auto simp: tn_def bytes_fit_def max_alloc_def first_update_decoded)
  have "doc_reach (new_doc 2)" by (rule doc_reach_created_with [of 2]) (simp add: NewDocWithClientID_def)
  moreover have "\<exists>d. apply_decoded [arrived_item 1 tn [0x61, 0x62]] [] GNil (new_doc 2) = Ret d \<and> length (d_heap d) = 1"
    by (simp add: apply_decoded_def accumulate_ds_def apply_ds_def arrived_item_def run_state run_store run_integrate tn_def)
  ultimately show ?thesis using doc_reach_updated [of "new_doc 2" u GNil] u by (auto simp: ApplyUpdate_def)
qed

text \<open>
  C28. The assertions on the type of a content, in \<open>strContent\<close> and in \<open>writeItemContent\<close>, never fail:
  every item of a document that any calls of the program have brought about, without exception,
  decoded or made locally, whole or split, holds content of the Go type that its kind promises, so
  \<open>strContent\<close> returns, and writing the item for the wire does not panic. (The assertions of
  \<open>GetText\<close>, \<open>GetMap\<close>, \<open>GetArray\<close> and \<open>GetXmlFragment\<close> are others: they do fail, on a name that is
  taken by another type.)
\<close>
theorem content_type_safe:
  assumes "api_reach d" and "a < length (d_heap d)"
  shows "(\<exists>s. strContent (d_heap d ! a) = Ret s) \<and> (\<forall>p. writeItemContent (itemToEncoded (d_heap d ! a)) \<noteq> Panic p)"
proof -
  have "typed (d_heap d ! a)" using api_reach_typed [OF assms(1)] assms(2) by (simp add: well_typed_def list_all_length)
  from strContent_typed [OF this] writeItemContent_typed [OF this] show ?thesis by (auto simp: ret_or_err_def)
qed

theorem content_type_safe_witness: "\<exists>d. api_reach d \<and> d_heap d \<noteq> [] \<and> (\<exists>s. strContent (d_heap d ! 0) = Ret s)"
proof -
  obtain d where d: "doc_reach d" "length (d_heap d) = 1" using received_reach by blast
  then show ?thesis using content_type_safe [OF doc_reach_api [OF d(1)], of 0] doc_reach_api by (intro exI [of _ d]) auto
qed

text \<open>
  C11. A transaction of text, array and map edits, in any order and with any arguments, ends on
  every document that the program's calls have brought about, provided that neither they nor the
  transaction insert several values into an array while the client's slice holds an item behind
  its clock: it commits, leaves no transaction open and a document of that kind, or one of its
  calls panics on a slice bound. No other panic, no error and no loop is left.
\<close>
theorem transactions_total:
  assumes "doc_reach d" and "no_stale_insert ops (snd (begin_tx origin d))"
  shows "(\<exists>d'. Transact (ofold run_op ops) origin d = Ret d' \<and> doc_reach d' \<and> d_currentTx d' = None) \<or>
    Transact (ofold run_op ops) origin d = Panic SliceBounds"
  using Transact_end [of d ops origin] doc_reach_wf [OF assms(1)] assms(2)
  by (auto intro: doc_reach_committed [OF assms])

theorem transactions_total_witness:
  "\<exists>d'. Transact (ofold run_op [ArrayInsert [0x61] 0 [GNil, GNil], TextDelete [0x74] 5 3]) GNil (NewDoc None) = Ret d' \<or>
    Transact (ofold run_op [ArrayInsert [0x61] 0 [GNil, GNil], TextDelete [0x74] 5 3]) GNil (NewDoc None) = Panic SliceBounds"
proof -
  have "no_stale_insert [ArrayInsert [0x61] 0 [GNil, GNil], TextDelete [0x74] 5 3] (snd (begin_tx GNil (NewDoc None)))"
    by (simp add: current_def NewDoc_def new_doc_def newStructStore_def begin_tx_def store_items_def doc_getState_def getState_def)
  from transactions_total [OF doc_reach_created this] show ?thesis by blast
qed

section \<open>The room around a document\<close>

lemma room_apply_reach: "doc_reach (rm_doc r) \<Longrightarrow> room_apply p r = Some r' \<Longrightarrow> doc_reach (rm_doc r')"
  by (auto simp: room_apply_def split: outcome.splits intro: doc_reach_updated)

lemma relay_receive_reach: "doc_reach (rm_doc r) \<Longrightarrow> doc_reach (rm_doc (relay_receive c data r))"
  using room_apply_reach [of r]
  by (auto simp: relay_receive_def relay_message_def goto_def wedge_def split: outcome.split option.split)

lemma relay_step_doc: "relay_step r r' \<Longrightarrow> doc_reach (rm_doc r) \<Longrightarrow> doc_reach (rm_doc r')"
  by (induction rule: relay_step.induct)
    (simp_all add: relay_receive_reach, simp_all add: relay_accept_def goto_def relay_send_def relay_register_def relay_leave_def)

lemma relay_doc_reach: "relay_reach r \<Longrightarrow> doc_reach (rm_doc r)"
  by (induction rule: relay_reach.induct) (simp_all add: newRoom_def doc_reach_created relay_step_doc)

lemma room_apply_none:
  assumes "doc_reach (rm_doc r)" "room_apply p r = None"
  shows "DecodeUpdateV1 p = Panic MakeSliceLen"
  using apply_update_cases [OF assms(1), of p relay_origin] assms(2)
  by (auto simp: room_apply_def split: outcome.splits)

text \<open>Only receiving a message can lock the room, and only through a panic of the update's decoder.\<close>

lemma relay_message_wedge:
  assumes "doc_reach (rm_doc r)" "\<not> rm_locked r" "rm_locked (relay_message c t p r)"
  shows "DecodeUpdateV1 p = Panic MakeSliceLen"
proof -
  have "ret_or_err (EncodeStateAsUpdate (rm_doc r) p)"
    using EncodeStateAsUpdate_wf doc_reach_wf [OF assms(1)] by blast
  then have "t \<noteq> MessageYjsSyncStep1"
    using assms(2,3) by (cases "EncodeStateAsUpdate (rm_doc r) p") (auto simp: relay_message_def goto_def)
  have "room_apply p r = None"
  proof (cases "room_apply p r")
    case (Some r')
    then have "\<not> rm_locked r'" using room_apply_fields [OF Some] assms(2) by simp
    then show ?thesis using assms(2,3) Some \<open>t \<noteq> _\<close> by (simp add: relay_message_def goto_def split: if_splits)
  qed
  then show ?thesis by (rule room_apply_none [OF assms(1)])
qed

lemma wedge_cause:
  assumes "relay_reach r" and "relay_step r r'" and "\<not> rm_locked r" and "rm_locked r'"
  shows "\<exists>c data t p. rm_conns r c = Some (Handling data) \<and> r' = relay_receive c data r \<and>
    parse_frame data = Ret (t, p) \<and> DecodeUpdateV1 p = Panic MakeSliceLen"
  using assms(2)
proof cases
  case (handle c data)
  have "rm_locked (relay_receive c data r)" using handle(1) assms(4) by simp
  then obtain t p where "parse_frame data = Ret (t, p)" "rm_locked (relay_message c t p r)"
    using assms(3) by (auto simp: relay_receive_def goto_def split: outcome.splits)
  then show ?thesis
    using relay_message_wedge [OF relay_doc_reach [OF assms(1)] assms(3)] handle by blast
qed (use assms(3,4) in \<open>simp_all add: relay_accept_def goto_def relay_send_def relay_register_def relay_leave_def\<close>)

text \<open>
  C14. The room of a relay keeps running unless a client sends an update whose decoding panics: a
  step that leaves the mutex locked is the handling of a frame, read before, whose payload makes
  \<open>DecodeUpdateV1\<close> panic in \<open>make\<close>. Nothing else in the document or in a message does it.
\<close>
theorem relay_wedge_cause:
  assumes "relay_reach r" and "relay_step r r'" and "\<not> rm_locked r" and "rm_locked r'"
  shows "\<exists>c data t p. rm_conns r c = Some (Handling data) \<and> r' = relay_receive c data r \<and>
    parse_frame data = Ret (t, p) \<and> DecodeUpdateV1 p = Panic MakeSliceLen"
  by (rule wedge_cause [OF assms])

theorem relay_wedge_cause_witness:
  "\<exists>r c data t p. relay_reach r \<and> rm_conns r c = Some (Handling data) \<and> parse_frame data = Ret (t, p) \<and>
    DecodeUpdateV1 p = Panic MakeSliceLen"
proof -
  obtain r where r: "relay_reach r" "relay_step r (wedge 0 victim)" "\<not> rm_locked r" using victim_wedged by blast
  have "rm_locked (wedge 0 victim)" by (simp add: wedge_def goto_def)
  with relay_wedge_cause [OF r] r(1) show ?thesis by blast
qed

section \<open>Remote deletes\<close>

lemma four_deletable: "deletable four tn 1 [0]"
proof -
  have "linked [abcd] [0]" by (simp add: abcd_def zero_Item_def)
  then have "chain_from [abcd] (Some 0)" unfolding chain_from_Some by blast
  then have "chained [abcd]" by (simp add: chained_def)
  then have "doc_wf four"
    by (simp add: doc_wf_def share_ok_def store_ok_def txs_ok_def four_def begin_tx_def new_doc_def store_items_def)
      (simp add: typed_def abcd_def zero_Item_def)
  moreover have "text_list four tn [0]"
    by (simp add: text_list_def four_def text_item_def abcd_def zero_Item_def item_runes_def)
  ultimately show ?thesis
    by (simp add: deletable_def four_def store_items_def item_end_def item_clock_def abcd_def zero_Item_def text_item_def item_runes_def)
qed

lemma four_chars: "chars (d_heap four) [0] = [(mkID 1 0, 0x61), (mkID 1 1, 0x62), (mkID 1 2, 0x63), (mkID 1 3, 0x64)]"
  by (simp add: four_def item_chars_def rune_ids_def abcd_def zero_Item_def item_runes_def upt_rec)

lemma four_live: "live_at four 1 s"
  by (simp add: live_at_def four_def store_items_def abcd_def zero_Item_def)

text \<open>
  C9. A remote delete range deletes, on a text whose items the client's slice holds in clock
  order, and when the range's ends cut no item that is already deleted (where they do, the cut
  brings a part of it back, \<open>overlapping_deletes_diverge\<close>): it returns, the text
  stays well formed, and of the visible runes, each with the identifier its client gave it,
  exactly those whose identifier lies in the range are gone; the rest keep their order and
  their identifiers.
\<close>
theorem remote_delete_correct:
  assumes "deletable d name c as" and "live_at d c (unat k)" and "live_at d c (unat (k + n))"
  shows "\<exists>d' as'. applyDeleteRange t c k n d = Ret d' \<and> text_list d' name as' \<and>
    chars (d_heap d') as' = filter (\<lambda>(i, x). \<not> id_in_range c k (k + n) i) (chars (d_heap d) as) \<and>
    text_vis d' as' = map snd (filter (\<lambda>(i, x). \<not> id_in_range c k (k + n) i) (chars (d_heap d) as))"
  using applyDeleteRange_chars [OF assms] by (metis text_vis_def vis_chars)

theorem remote_delete_correct_witness:
  "\<exists>d' as'. applyDeleteRange 0 1 1 2 four = Ret d' \<and> text_list d' tn as' \<and> text_vis d' as' = [0x61, 0x64]"
proof -
  have "map snd (filter (\<lambda>(i, x). \<not> id_in_range 1 1 (1 + 2) i) (chars (d_heap four) [0])) = [0x61, 0x64]"
    unfolding four_chars by (simp add: id_in_range_def)
  then show ?thesis using remote_delete_correct [OF four_deletable four_live four_live, of 0 1 2] by metis
qed

section \<open>Connections and rooms\<close>

text \<open>
  C26. A connection leaves no handler behind: after a successful \<open>Connect\<close>, any messages received on
  it and \<open>Close\<close>, the document's update handlers are exactly those it had before, so that
  reconnecting does not accumulate them.
\<close>
theorem connection_leaves_no_handler:
  assumes "handlers_ok d" and "Connect dialed up1 m1 up2 m2 fwd d = (frames_sent, Ret c)"
    and "ofold client_receive ms c = Ret c'"
  shows "d_updateHandlers (cc_doc (client_Close c')) = d_updateHandlers d \<and> cc_done (client_Close c')"
  using assms by (rule Connect_Close)

lemma empty_state_update: "EncodeStateAsUpdate (new_doc 1) [] = Ret [0, 0]"
  by (simp add: EncodeStateAsUpdate_def state_update_def new_doc_def newStructStore_def EncodeUpdateV1_def writeUpdateV1_def
      group_by_client_def sort_desc_def WriteVarUint.simps)

lemma sample_connect:
  "\<exists>c. Connect True True (Some (EncodeSyncStep1 [])) True (Some (EncodeSyncStep2 [])) 7 (new_doc 1) =
    ([EncodeSyncStep1 (EncodeStateVector (new_doc 1)), EncodeSyncStep2 [0, 0]], Ret c)"
  using read_msg_frame [of "\<lparr>sm_Type = MessageYjsSyncStep1, sm_Payload = []\<rparr>"]
    read_msg_frame [of "\<lparr>sm_Type = MessageYjsSyncStep2, sm_Payload = []\<rparr>"] empty_state_update
  by (simp add: Connect_def syncHandshake_def handshake_tail_def frames write_msg_def Let_def OnUpdate_def bytes_fit_def)

theorem connection_leaves_no_handler_witness:
  "\<exists>c c'. snd (Connect True True (Some (EncodeSyncStep1 [])) True (Some (EncodeSyncStep2 [])) 7 (new_doc 1)) = Ret c \<and>
    ofold client_receive [None] c = Ret c' \<and> d_updateHandlers (cc_doc (client_Close c')) = []"
proof -
  obtain c where c: "Connect True True (Some (EncodeSyncStep1 [])) True (Some (EncodeSyncStep2 [])) 7 (new_doc 1) =
    ([EncodeSyncStep1 (EncodeStateVector (new_doc 1)), EncodeSyncStep2 [0, 0]], Ret c)"
    using sample_connect by blast
  have ok: "handlers_ok (new_doc 1)" "d_updateHandlers (new_doc 1) = []" by (simp_all add: handlers_ok_def new_doc_def)
  have "ofold client_receive [None] c = Ret (c\<lparr>cc_done := True\<rparr>)" by (simp add: client_receive_def read_msg_def)
  then show ?thesis using connection_leaves_no_handler [OF ok(1) c] c ok(2) by fastforce
qed

text \<open>
  The rooms of a relay do not touch one another: every step of the server, a request or a step
  of some connection, changes at most one room and removes none, and whatever the steps, every
  room is in a state that a room by itself can reach, so that all that holds of a room holds
  of each.
\<close>
lemma rooms_independent:
  assumes "serve_reach s" and "serve_step s s'"
  shows "(\<exists>n. \<forall>m. m \<noteq> n \<longrightarrow> gm_get (rl_rooms s') m = gm_get (rl_rooms s) m) \<and>
    (\<forall>m. gm_get (rl_rooms s) m \<noteq> None \<longrightarrow> gm_get (rl_rooms s') m \<noteq> None) \<and>
    (\<forall>m r. gm_get (rl_rooms s') m = Some r \<longrightarrow> relay_reach r)"
  using serve_step_local [OF assms(2)] serve_rooms [OF serve_reach.step [OF assms]] by blast

section \<open>Convergence\<close>

text \<open>
  C4. Replicas that receive the same text inserts converge. The updates are any that carry items
  as \<open>Text.Insert\<close> makes them of strings without supplementary characters (whose length the decoder
  gives in runes), at any places; two new documents apply them in any two orders in
  which every item comes after its left origin and after the earlier items of its client. Every
  call returns, and both documents show the same text.
\<close>
theorem concurrent_inserts_converge:
  assumes "name \<noteq> []" and "carrying (plain_insert name) ps"
    and "causal_updates ps" and "causal_updates qs" and "mset qs = mset ps"
  shows "\<exists>s d1 d2. ofold (\<lambda>u. ApplyUpdate u origin) (map fst ps) (new_doc c1) = Ret d1 \<and>
    ofold (\<lambda>u. ApplyUpdate u origin') (map fst qs) (new_doc c2) = Ret d2 \<and>
    text_String name d1 = Ret s \<and> text_String name d2 = Ret s"
proof -
  let ?P = "\<lambda>it. name \<noteq> [] \<and> plain_insert name it"
  have P: "carrying ?P ps" "carrying ?P qs"
    using assms(1,2) same_updates(2) [OF assms(5)] by (auto simp: carrying_def)
  obtain d1 as1 where 1: "ofold (\<lambda>u. ApplyUpdate u origin) (map fst ps) (new_doc c1) = Ret d1" "arranged name (carried ps) d1 as1"
    using text_receiver.apply_all [OF P(1) assms(3)] by blast
  obtain d2 as2 where 2: "ofold (\<lambda>u. ApplyUpdate u origin') (map fst qs) (new_doc c2) = Ret d2" "arranged name (carried qs) d2 as2"
    using text_receiver.apply_all [OF P(2) assms(4)] by blast
  show ?thesis
    using 1(1) 2(1) arranged_text [OF 1(2)] arranged_text [OF 2(2)] arrange_order [OF assms(3-5)] by simp
qed

theorem concurrent_inserts_converge_witness:
  "\<exists>u1 u2 u3 s d1 d2. ofold (\<lambda>u. ApplyUpdate u GNil) [u1, u2, u3] (new_doc 4) = Ret d1 \<and>
    ofold (\<lambda>u. ApplyUpdate u GNil) [u3, u1, u2] (new_doc 5) = Ret d2 \<and> text_String tn d1 = Ret s \<and> text_String tn d2 = Ret s"
proof -
  have first: "\<exists>u. decodeUpdateV1 u = Ret ([arrived_item c tn [0x61, 0x62]], [])" for c
    using sent_update [OF first_update_ok [of tn "[0x61, 0x62]" c]]
    by (auto simp: tn_def bytes_fit_def max_alloc_def first_update_decoded)
  obtain u1 where u1: "decodeUpdateV1 u1 = Ret ([arrived_item 1 tn [0x61, 0x62]], [])" using first by blast
  obtain u2 where u2: "decodeUpdateV1 u2 = Ret ([arrived_x], [])" using sent_update [OF x_update(1)] by (auto simp: x_update)
  obtain u3 where u3: "decodeUpdateV1 u3 = Ret ([arrived_item 3 tn [0x61, 0x62]], [])" using first by blast
  let ?p = "\<lambda>u c. (u, [arrived_item c tn [0x61, 0x62]])"
  have plain: "plain_insert tn (arrived_item c tn [0x61, 0x62])" "plain_insert tn arrived_x" for c
    by (simp_all add: plain_insert_def arrived_item_def arrived_x_def zero_Item_def text_item_def item_runes_def rune_count_def utf16Len_def)
  have "\<exists>s d1 d2. ofold (\<lambda>u. ApplyUpdate u GNil) (map fst [?p u1 1, (u2, [arrived_x]), ?p u3 3]) (new_doc 4) = Ret d1 \<and>
    ofold (\<lambda>u. ApplyUpdate u GNil) (map fst [?p u3 3, ?p u1 1, (u2, [arrived_x])]) (new_doc 5) = Ret d2 \<and>
    text_String tn d1 = Ret s \<and> text_String tn d2 = Ret s"
    by (rule concurrent_inserts_converge)
      (use u1 u2 u3 plain in \<open>simp_all add: carrying_def carried_def causal_updates_def item_ready_def item_start_def item_stop_def
        item_owns_def arrived_item_def arrived_x_def zero_Item_def utf16Len_def tn_def\<close>)
  then show ?thesis unfolding list.map fst_conv by blast
qed

text \<open>
  C7. Replicas of a map that receive the same sets converge: the updates are any that carry items
  as \<open>Map.Set\<close> makes them, and come in any two orders that keep each client's own order. Every call
  returns, and on both documents each key reads the value that has the greatest identifier
  among the key's items, and is absent when it has none. Identifiers are ordered by client first and
  then by clock: the greatest client wins over a later clock, although the comment on \<open>Map\<close> says
  that the item is live that is most recent by clock.
\<close>
theorem map_sets_converge:
  assumes "name \<noteq> []" and "carrying (map_insert name) ps"
    and "causal_updates ps" and "causal_updates qs" and "mset qs = mset ps"
  shows "\<exists>d1 d2. ofold (\<lambda>u. ApplyUpdate u origin) (map fst ps) (new_doc c1) = Ret d1 \<and>
    ofold (\<lambda>u. ApplyUpdate u origin') (map fst qs) (new_doc c2) = Ret d2 \<and>
    (\<forall>k. map_Get name k d1 = map_Get name k d2) \<and>
    (\<forall>k v. map_Get name k d1 = Some v \<longleftrightarrow> (\<exists>x. greatest_at (carried ps) k x \<and> it_Content x = v))"
proof -
  let ?P = "\<lambda>it. name \<noteq> [] \<and> map_insert name it"
  have P: "carrying ?P ps" "carrying ?P qs"
    using assms(1,2) same_updates(2) [OF assms(5)] by (auto simp: carrying_def)
  have same: "set (carried ps) = set (carried qs)" by (rule mset_eq_setD [OF same_updates(1) [OF assms(5)]])
  obtain d1 where 1: "ofold (\<lambda>u. ApplyUpdate u origin) (map fst ps) (new_doc c1) = Ret d1" "mapped name (carried ps) d1"
    using map_receiver.apply_all [OF P(1) assms(3)] by blast
  obtain d2 where 2: "ofold (\<lambda>u. ApplyUpdate u origin') (map fst qs) (new_doc c2) = Ret d2" "mapped name (carried qs) d2"
    using map_receiver.apply_all [OF P(2) assms(4)] by blast
  have "map_Get name k d1 = map_Get name k d2" for k
    using mapped_get [OF 1(2), of k] mapped_get [OF 2(2), of k] greatest_at_cong [OF same] by (metis option.exhaust)
  then show ?thesis using 1(1) 2(1) mapped_get [OF 1(2)] by simp
qed

theorem map_sets_converge_witness:
  "\<exists>u1 u2 d1 d2. ofold (\<lambda>u. ApplyUpdate u GNil) [u1, u2] (new_doc 3) = Ret d1 \<and>
    ofold (\<lambda>u. ApplyUpdate u GNil) [u2, u1] (new_doc 4) = Ret d2 \<and>
    map_Get tn [0x6B] d1 = Some (GBool False) \<and> map_Get tn [0x6B] d2 = Some (GBool False)"
proof -
  have first: "\<exists>u. decodeUpdateV1 u = Ret ([arrived_entry tn [0x6B] c (GBool v)], [])" for c v
    using entry_update [of "GBool v" tn "[0x6B]" c] by (auto simp: tn_def bytes_fit_def max_alloc_def scalar_def)
  obtain u1 where u1: "decodeUpdateV1 u1 = Ret ([arrived_entry tn [0x6B] 1 (GBool True)], [])" using first by blast
  obtain u2 where u2: "decodeUpdateV1 u2 = Ret ([arrived_entry tn [0x6B] 2 (GBool False)], [])" using first by blast
  let ?ps = "[(u1, [arrived_entry tn [0x6B] 1 (GBool True)]), (u2, [arrived_entry tn [0x6B] 2 (GBool False)])]"
  have "\<exists>d1 d2. ofold (\<lambda>u. ApplyUpdate u GNil) (map fst ?ps) (new_doc 3) = Ret d1 \<and>
    ofold (\<lambda>u. ApplyUpdate u GNil) (map fst (rev ?ps)) (new_doc 4) = Ret d2 \<and>
    (\<forall>k. map_Get tn k d1 = map_Get tn k d2) \<and>
    (\<forall>k v. map_Get tn k d1 = Some v \<longleftrightarrow> (\<exists>x. greatest_at (carried ?ps) k x \<and> it_Content x = v))"
    by (rule map_sets_converge)
      (use u1 u2 in \<open>simp_all add: carrying_def carried_def causal_updates_def item_ready_def item_start_def item_stop_def
        map_insert_def arriving_def typed_def arrived_entry_def zero_Item_def tn_def\<close>)
  moreover have "greatest_at (carried ?ps) [0x6B] (arrived_entry tn [0x6B] 2 (GBool False))"
    by (simp add: greatest_at_def carried_def arrived_entry_def zero_Item_def less_eq_ID_def compareIDs_def)
  moreover have "it_Content (arrived_entry tn [0x6B] 2 (GBool False)) = GBool False" by (simp add: arrived_entry_def)
  ultimately show ?thesis unfolding rev.simps list.map fst_conv append.simps by metis
qed

end
