(* ===== verification/ByteReader.thy ===== *)
theory ByteReader
  imports Transport
begin

text \<open>
  The \<open>byteReader\<close> of \<open>transport/ws.go\<close>, and why the rest of the development may take an
  \<open>io.Reader\<close> for the list of the bytes not read yet. The interface \<open>io_source\<close> is the contract of
  \<open>io.Reader\<close>: \<open>Read\<close> gives some of the next bytes, or \<open>io.EOF\<close> when there are none. Over any such
  source \<open>io.ReadFull\<close> and the functions of \<open>protocol/varint.go\<close> built on it return what their
  versions on lists return, and \<open>byteReader\<close> is one.
\<close>

section \<open>The reader of the transport\<close>

record byteReader =
  br_data :: "byte list"
  br_pos :: nat

definition newByteReader :: "byte list \<Rightarrow> byteReader" where
  "newByteReader data = \<lparr>br_data = data, br_pos = 0\<rparr>"

text \<open>\<open>Read\<close> into a buffer of length \<open>n\<close>: the bytes copied, the error, the reader.\<close>

definition br_Read :: "nat \<Rightarrow> byteReader \<Rightarrow> (byte list \<times> gerror option) \<times> byteReader" where
  "br_Read n b =
    (if br_pos b \<ge> length (br_data b) then (([], Some EOF), b)
     else
       (let p = take n (drop (br_pos b) (br_data b)) in
        ((p, None), b\<lparr>br_pos := br_pos b + length p\<rparr>)))"

definition br_rest :: "byteReader \<Rightarrow> byte list" where
  "br_rest b = drop (br_pos b) (br_data b)"

section \<open>Reading from a source\<close>

text \<open>
  \<open>io.ReadFull\<close>, the loop of the standard library: it reads until the buffer is full or an error
  comes. A source that gives neither bytes nor an error keeps it going for ever.
\<close>

partial_function (option) read_at_least ::
  "(nat \<Rightarrow> 'r \<Rightarrow> (byte list \<times> gerror option) \<times> 'r) \<Rightarrow> nat \<Rightarrow> byte list \<Rightarrow> 'r \<Rightarrow> (byte list \<times> 'r) outcome option" where
  "read_at_least rd n got r =
    (if length got < n then
       (case rd (n - length got) r of
          ((p, None), r') \<Rightarrow> read_at_least rd n (got @ p) r'
        | ((p, Some e), r') \<Rightarrow>
            Some (if n \<le> length (got @ p) then Ret (got @ p, r')
              else if got @ p \<noteq> [] \<and> e = EOF then Err UnexpectedEOF else Err e))
     else Some (Ret (got, r)))"

definition ReadFull :: "(nat \<Rightarrow> 'r \<Rightarrow> (byte list \<times> gerror option) \<times> 'r) \<Rightarrow> nat \<Rightarrow> 'r \<Rightarrow> (byte list \<times> 'r) outcome" where
  "ReadFull rd n r = of_loop (read_at_least rd n [] r)"

text \<open>\<open>ReadVarUint\<close> and \<open>ReadVarBytes\<close> as they call \<open>io.ReadFull\<close>.\<close>

function read_varuint_from ::
  "(nat \<Rightarrow> 'r \<Rightarrow> (byte list \<times> gerror option) \<times> 'r) \<Rightarrow> u64 \<Rightarrow> nat \<Rightarrow> 'r \<Rightarrow> (u64 \<times> 'r) outcome" where
  "read_varuint_from rd result shift r =
    (case ReadFull rd 1 r of
       Err e \<Rightarrow> Err (if e = EOF \<or> e = UnexpectedEOF then ErrMsg ''yjs/protocol: truncated varint'' [] else e)
     | Panic p \<Rightarrow> Panic p
     | Diverge \<Rightarrow> Diverge
     | Ret (buf, r') \<Rightarrow>
         (let b = buf ! 0; result' = result OR push_bit shift (ucast (b AND 0x7f)) in
          if b AND 0x80 = 0 then Ret (result', r')
          else if 64 \<le> shift + 7 then Err (ErrMsg ''yjs/protocol: varint overflow'' [])
          else read_varuint_from rd result' (shift + 7) r'))"
  by pat_completeness auto
termination
  by (relation "measure (\<lambda>(rd, result, shift, r). 64 - shift)") auto

declare read_varuint_from.simps [simp del]

definition ReadVarBytes_from ::
  "(nat \<Rightarrow> 'r \<Rightarrow> (byte list \<times> gerror option) \<times> 'r) \<Rightarrow> 'r \<Rightarrow> (byte list \<times> 'r) outcome" where
  "ReadVarBytes_from rd r =
    obind (read_varuint_from rd 0 0 r) (\<lambda>(n, r1).
    if n = 0 then Ret ([], r1)
    else obind (make_slice 1 (unat n)) (\<lambda>_.
      owrap ''yjs/protocol: truncated bytes'' [unat n] (ReadFull rd (unat n) r1)))"

text \<open>The header of a frame, as the relay and the client read it from a fresh \<open>byteReader\<close>.\<close>

definition read_frame :: "byte list \<Rightarrow> (u64 \<times> byte list) outcome" where
  "read_frame data =
    (let br = newByteReader data in
     obind (read_varuint_from br_Read 0 0 br) (\<lambda>(msgType, br1).
     obind (ReadVarBytes_from br_Read br1) (\<lambda>(payload, _). Ret (msgType, payload))))"

section \<open>The contract of a source\<close>

text \<open>Reading from a source and from the list of its bytes end alike.\<close>

definition reads_as :: "('r \<Rightarrow> byte list) \<Rightarrow> ('a \<times> 'r) outcome \<Rightarrow> ('a \<times> byte list) outcome \<Rightarrow> bool" where
  "reads_as rest m l \<longleftrightarrow>
    (case m of Ret (v, r) \<Rightarrow> l = Ret (v, rest r) | Err e \<Rightarrow> l = Err e | Panic p \<Rightarrow> l = Panic p | Diverge \<Rightarrow> l = Diverge)"

lemma reads_as_obind:
  assumes "reads_as rest m l" "\<And>v r. m = Ret (v, r) \<Longrightarrow> reads_as rest' (f (v, r)) (g (v, rest r))"
  shows "reads_as rest' (obind m f) (obind l g)"
  using assms by (cases m) (auto simp: reads_as_def split: prod.splits outcome.splits)

lemma reads_as_owrap: "reads_as rest m l \<Longrightarrow> reads_as rest (owrap c ix m) (owrap c ix l)"
  by (cases m) (auto simp: reads_as_def)

lemma reads_as_fails: "reads_as rest (Err e) (Err e)" "reads_as rest (Panic p) (Panic p)"
  by (simp_all add: reads_as_def)

lemma reads_as_value: "reads_as rest m l \<Longrightarrow> obind m (\<lambda>(x, _). Ret x) = obind l (\<lambda>(x, _). Ret x)"
  by (cases m) (auto simp: reads_as_def)

lemma reads_as_Ret: "reads_as rest (Ret (v, r)) (Ret (v, rest r))"
  by (simp add: reads_as_def)

locale io_source =
  fixes rd :: "nat \<Rightarrow> 'r \<Rightarrow> (byte list \<times> gerror option) \<times> 'r" and rest :: "'r \<Rightarrow> byte list"
  assumes some: "0 < n \<Longrightarrow> rest r \<noteq> [] \<Longrightarrow> \<exists>p r'. rd n r = ((p, None), r') \<and> p \<noteq> [] \<and> length p \<le> n \<and> rest r = p @ rest r'"
    and at_end: "0 < n \<Longrightarrow> rest r = [] \<Longrightarrow> \<exists>r'. rd n r = (([], Some EOF), r')"
begin

lemma read_at_least_rest:
  "length got \<le> n \<Longrightarrow> \<exists>m. read_at_least rd n got r = Some m \<and>
    reads_as rest m
      (if n \<le> length got + length (rest r)
       then Ret (got @ take (n - length got) (rest r), drop (n - length got) (rest r))
       else Err (if got @ rest r = [] then EOF else UnexpectedEOF))"
proof (induction "n - length got" arbitrary: got r rule: less_induct)
  case less
  show ?case
  proof (cases "length got < n")
    case False
    then show ?thesis using less.prems by (simp add: read_at_least.simps reads_as_def)
  next
    case True
    show ?thesis
    proof (cases "rest r = []")
      case nil: True
      then obtain r' where "rd (n - length got) r = (([], Some EOF), r')" using at_end [of "n - length got" r] True by auto
      then show ?thesis using True nil by (simp add: read_at_least.simps reads_as_def)
    next
      case False
      then obtain p r' where p: "rd (n - length got) r = ((p, None), r')" "p \<noteq> []" "length p \<le> n - length got" "rest r = p @ rest r'"
        using some [of "n - length got" r] True by auto
      have "n - length (got @ p) < n - length got" "length (got @ p) \<le> n" using p(2,3) True by (cases p; simp)+
      then obtain m where m: "read_at_least rd n (got @ p) r' = Some m"
        "reads_as rest m (if n \<le> length (got @ p) + length (rest r')
          then Ret ((got @ p) @ take (n - length (got @ p)) (rest r'), drop (n - length (got @ p)) (rest r'))
          else Err (if (got @ p) @ rest r' = [] then EOF else UnexpectedEOF))"
        using less.hyps [of "got @ p" r'] by blast
      have "read_at_least rd n got r = Some m" using True p(1) m(1) by (simp add: read_at_least.simps [of rd n got r])
      then show ?thesis using m(2) p(3,4) by (auto simp: diff_diff_eq)
    qed
  qed
qed

lemma ReadFull_rest: "0 < n \<Longrightarrow> reads_as rest (ReadFull rd n r) (read_full n (rest r))"
  using read_at_least_rest [of "[]" n r] by (auto simp: ReadFull_def read_full_def)

lemma read_varuint_from_rest: "reads_as rest (read_varuint_from rd result shift r) (read_varuint_loop result shift (rest r))"
proof (induction "64 - shift" arbitrary: result shift r rule: less_induct)
  case less
  have full: "reads_as rest (ReadFull rd 1 r) (read_full 1 (rest r))" by (rule ReadFull_rest) simp
  show ?case
  proof (cases "rest r")
    case Nil
    then have "ReadFull rd 1 r = Err EOF" using full by (cases "ReadFull rd 1 r") (auto simp: reads_as_def read_full_def)
    then show ?thesis using Nil by (simp add: read_varuint_from.simps [of rd result shift r] reads_as_def)
  next
    case (Cons b bs)
    then obtain r' where r': "ReadFull rd 1 r = Ret ([b], r')" "rest r' = bs"
      using full by (cases "ReadFull rd 1 r") (auto simp: reads_as_def read_full_def)
    show ?thesis
    proof (cases "b AND 0x80 = 0 \<or> 64 \<le> shift + 7")
      case True
      then show ?thesis using Cons r' by (auto simp: read_varuint_from.simps [of rd result shift r] reads_as_def Let_def)
    next
      case False
      then have "64 - (shift + 7) < 64 - shift" by linarith
      then show ?thesis
        using False less [of "shift + 7" "result OR push_bit shift (ucast (b AND 0x7f))" r'] Cons r'
        by (simp add: read_varuint_from.simps [of rd result shift r] Let_def)
    qed
  qed
qed

lemma ReadVarBytes_from_rest: "reads_as rest (ReadVarBytes_from rd r) (ReadVarBytes (rest r))"
  unfolding ReadVarBytes_from_def ReadVarBytes_def ReadVarUint_def
proof (rule reads_as_obind [OF read_varuint_from_rest], goal_cases)
  case (1 n r1)
  have "reads_as rest (ReadFull rd (unat n) r1) (read_full (unat n) (rest r1))" if "n \<noteq> 0"
    using that by (intro ReadFull_rest) (simp add: unat_gt_0)
  then show ?case
    by (cases "n = 0"; cases "unat n \<le> max_alloc") (auto simp: reads_as_Ret make_slice_def reads_as_fails intro: reads_as_owrap)
qed

end

lemma take_drop_rest: "take n (drop k xs) @ drop (k + min (length xs - k) n) xs = drop k xs"
  using append_take_drop_id [of n "drop k xs"] by (auto simp: min_def add.commute [of k])

interpretation byte_reader: io_source br_Read br_rest
proof
  fix n :: nat and b :: byteReader
  show "0 < n \<Longrightarrow> br_rest b \<noteq> [] \<Longrightarrow>
    \<exists>p b'. br_Read n b = ((p, None), b') \<and> p \<noteq> [] \<and> length p \<le> n \<and> br_rest b = p @ br_rest b'"
    by (auto simp: br_Read_def br_rest_def Let_def take_drop_rest)
  show "0 < n \<Longrightarrow> br_rest b = [] \<Longrightarrow> \<exists>b'. br_Read n b = (([], Some EOF), b')"
    by (auto simp: br_Read_def br_rest_def)
qed

lemma read_frame_parse: "read_frame data = parse_frame data"
proof -
  let ?br = "newByteReader data"
  have start: "br_rest ?br = data" by (simp add: br_rest_def newByteReader_def)
  have "reads_as br_rest (obind (read_varuint_from br_Read 0 0 ?br) (\<lambda>(msgType, br1).
      obind (ReadVarBytes_from br_Read br1) (\<lambda>(payload, br2). Ret ((msgType, payload), br2))))
    (obind (ReadVarUint data) (\<lambda>(msgType, bs). obind (ReadVarBytes bs) (\<lambda>(payload, bs2). Ret ((msgType, payload), bs2))))"
    using byte_reader.read_varuint_from_rest [of 0 0 ?br] byte_reader.ReadVarBytes_from_rest
    by (auto simp: start ReadVarUint_def intro!: reads_as_obind reads_as_Ret)
  from reads_as_value [OF this] show ?thesis
    by (simp add: read_frame_def parse_frame_def obind_assoc Let_def case_prod_beta')
qed

end
