(* ===== verification/RelayProperties.thy ===== *)
theory RelayProperties
  imports LiveProperties ByteReader
begin

text \<open>
  Properties of the transport that need its parts together: shutting a relay down, the race
  between a handshake and the other clients' updates, and the reader under the frames.
\<close>

section \<open>Frames\<close>

text \<open>
  C36. A frame that is read through \<open>byteReader\<close> and \<open>io.ReadFull\<close> gives what the list of its bytes
  gives: the type and the payload, the same error, or the same panic; and so does the reading of
  length-prefixed bytes from a \<open>byteReader\<close> at any position.
\<close>
theorem frame_reading_refines:
  "read_frame data = parse_frame data \<and> reads_as br_rest (ReadVarBytes_from br_Read b) (ReadVarBytes (br_rest b))"
  using read_frame_parse byte_reader.ReadVarBytes_from_rest by blast

section \<open>Shutdown\<close>

text \<open>A message that locks the mutex in a run was held when the run began.\<close>

lemma quiet_locked:
  assumes "(quiet_step ^^ n) r r'" "relay_reach r" "\<not> rm_locked r" "rm_locked r'"
  shows "\<exists>c data t p. held r c = Some data \<and> parse_frame data = Ret (t, p) \<and> DecodeUpdateV1 p = Panic MakeSliceLen"
  using assms(1,4)
proof (induction n arbitrary: r')
  case 0
  then show ?case using assms(3) by simp
next
  case (Suc n)
  then obtain r1 where r1: "(quiet_step ^^ n) r r1" "quiet_step r1 r'" by auto
  show ?case
  proof (cases "rm_locked r1")
    case False
    have run: "relay_reach r1 \<and> (\<exists>cs. handled r cs r1)" using quiet_run [OF r1(1) assms(2)] by blast
    have "relay_step r1 r'" using cancelled_relay_step r1(2) by (simp add: quiet_step_def)
    then obtain c data t p where "held r1 c = Some data" "parse_frame data = Ret (t, p)" "DecodeUpdateV1 p = Panic MakeSliceLen"
      using wedge_cause [OF _ _ False Suc.prems(2)] run by (auto simp: held_Some)
    moreover from this have "held r c = Some data" using run by (auto simp: handled_def)
    ultimately show ?thesis by blast
  qed (rule Suc.IH [OF r1(1)])
qed

text \<open>
  C24. After \<open>Shutdown\<close> every room empties itself, given that a cancelled connection's \<open>Read\<close> and
  \<open>Write\<close> fail. In a room that a relay can reach with its mutex free, a run of the connections that
  are there has at most \<open>owed r\<close> steps and sends nothing. The document it ends with is the old one
  after the messages that had been read before the shutdown and were handled in the run, each of
  them at most once. A run that has no step left has emptied the room, unless one of those messages
  has locked the mutex, and then its payload makes the decoder of updates panic.
\<close>
theorem shutdown_drains:
  assumes "relay_reach r" and "\<not> rm_locked r" and "(quiet_step ^^ n) r r'"
  shows "n \<le> owed r \<and> rm_sent r' = rm_sent r \<and>
    (\<exists>cs. distinct cs \<and> (\<forall>c \<in> set cs. held r c \<noteq> None) \<and> rm_doc r' = fold (\<lambda>c. taken (the (held r c))) cs (rm_doc r)) \<and>
    ((\<nexists>r''. quiet_step r' r'') \<and> \<not> rm_locked r' \<longrightarrow> rm_clients r' = []) \<and>
    (rm_locked r' \<longrightarrow> (\<exists>c data t p. held r c = Some data \<and> parse_frame data = Ret (t, p) \<and> DecodeUpdateV1 p = Panic MakeSliceLen))"
proof (intro conjI impI)
  note run = quiet_run [OF assms(3,1)]
  show "n \<le> owed r" "rm_sent r' = rm_sent r" using run by simp_all
  show "\<exists>cs. distinct cs \<and> (\<forall>c \<in> set cs. held r c \<noteq> None) \<and> rm_doc r' = fold (\<lambda>c. taken (the (held r c))) cs (rm_doc r)"
    using run by (auto simp: handled_def)
  show "rm_clients r' = []" if "(\<nexists>r''. quiet_step r' r'') \<and> \<not> rm_locked r'" using quiet_end run that by blast
  show "\<exists>c data t p. held r c = Some data \<and> parse_frame data = Ret (t, p) \<and> DecodeUpdateV1 p = Panic MakeSliceLen"
    if "rm_locked r'" using quiet_locked [OF assms(3,1,2) that] .
qed

theorem shutdown_drains_witness:
  "\<exists>r r'. held r 0 = Some (EncodeUpdate [0, 0]) \<and> (quiet_step ^^ 1) r r' \<and> held r' 0 = None \<and> 1 \<le> owed r \<and> rm_sent r' = rm_sent r"
proof -
  let ?m = "EncodeUpdate [0, 0]"
  let ?r = "goto 0 (Handling ?m) sample_room"
  let ?r' = "relay_receive 0 ?m ?r"
  have at: "rm_conns sample_room 0 = Some Serving" "\<not> rm_locked ?r" by (simp_all add: sample_room_def newRoom_def)
  have r: "relay_reach ?r" by (rule relay_reach.step [OF sample_room_reach relay_step.read [OF at(1)]])
  obtain st where st: "rm_conns ?r' = (rm_conns ?r)(0 \<mapsto> st)" "settled ?r st" using relay_receive_conns [of 0 ?m ?r] by blast
  have "cancelled_step ?r ?r'" by (rule cancelled_step.handle) (use at(2) in simp_all)
  then have "quiet_step ?r ?r'" using st(1) by (auto simp: quiet_step_def)
  then have run: "(quiet_step ^^ 1) ?r ?r'" by (simp only: relpowp_1)
  have "held ?r' 0 = None" "held ?r 0 = Some ?m" using st by (auto simp: held_def settled_def split: conn_state.splits)
  then show ?thesis using shutdown_drains [OF r at(2) run] run by blast
qed

section \<open>Joining while others write\<close>

text \<open>A handshake that reads an update where it waits for the second step fails.\<close>

lemma handshake_update:
  assumes "EncodeStateAsUpdate d sv = Ret v" "bytes_fit sv" "bytes_fit u"
  shows "snd (syncHandshake True (Some (EncodeSyncStep1 sv)) True (Some (EncodeUpdate u)) d) = Err (ErrMsg ''expected step2 (1)'' [2])"
  using assms
    read_msg_frame [of "\<lparr>sm_Type = MessageYjsSyncStep1, sm_Payload = sv\<rparr>"]
    read_msg_frame [of "\<lparr>sm_Type = MessageYjsUpdate, sm_Payload = u\<rparr>"]
  by (simp add: syncHandshake_def handshake_tail_def frames write_msg_def Let_def MessageYjsUpdate_def MessageYjsSyncStep2_def
      MessageYjsSyncStep1_def)

text \<open>
  C25. Joining a room in which others write can fail. The relay registers a connection before it
  answers the client's first step, so an update that another client sends in between is broadcast
  to the newcomer as its second message; the newcomer's handshake takes it for the second step and
  ends with an error, although the relay did nothing else and no message was lost.
\<close>
theorem handshake_race:
  assumes "relay_reach r" and "\<not> rm_locked r" and "rm_conns r other = Some Serving" and "rm_conns r c = None"
    and "bytes_fit u" and "ApplyUpdate u relay_origin (rm_doc r) = Ret rd"
    and "bytes_fit (EncodeStateVector (rm_doc r))" and "EncodeStateAsUpdate d (EncodeStateVector (rm_doc r)) = Ret v"
  shows "\<exists>r' frames m1 m2. relay_reach r' \<and> rm_conns r' c = Some Serving \<and> rm_sent r' = rm_sent r @ frames \<and>
    map snd (filter (\<lambda>s. fst s = c) frames) = [m1, m2] \<and>
    snd (syncHandshake True (Some m1) True (Some m2) d) = Err (ErrMsg ''expected step2 (1)'' [2])"
proof -
  let ?j = "joined c r" and ?m1 = "EncodeSyncStep1 (EncodeStateVector (rm_doc r))" and ?m2 = "EncodeUpdate u"
  let ?todo = "map (\<lambda>o'. (o', ?m2)) (filter (\<lambda>x. x \<noteq> other) (rm_clients r @ [c]))"
  let ?k = "goto other (Sending ?todo) (?j\<lparr>rm_doc := rd\<rparr>)"
  let ?e = "goto other (Sending []) (?k\<lparr>rm_sent := rm_sent ?k @ ?todo\<rparr>)"
  have ne: "c \<noteq> other" using assms(3,4) by auto
  have j: "relay_reach ?j" by (rule relay_reach_join [OF assms(1,4,2)])
  have "rm_conns ?j other = Some Serving" using assms(3) ne by simp
  then have steps: "relay_step\<^sup>*\<^sup>* ?j (hears other ?m2 ?j)" using assms(2) by (intro hears_steps) simp_all
  have "hears other ?m2 ?j = ?k"
    using relay_receive_update [of u "goto other (Handling ?m2) ?j" rd other] assms(5,6) by (simp add: hears_def goto_def)
  then have k: "relay_reach ?k" using relay_reach_steps [OF steps j] by simp
  have e: "relay_reach ?e" by (rule relay_reach_steps [OF relay_sends k]) (simp add: goto_def)
  have fresh: "c \<notin> set (rm_clients r)" using room_ok_reach [OF assms(1)] assms(4) by (simp add: room_ok_def registered_def)
  have "rm_sent ?e = rm_sent r @ (c, ?m1) # ?todo"
    by (simp add: goto_def joined_def relay_register_def relay_send_def relay_accept_def)
  moreover have "filter (\<lambda>s. fst s = c) ?todo = [(c, ?m2)]"
    using fresh ne by (auto simp: filter_map comp_def filter_empty_conv)
  moreover have "rm_conns ?e c = Some Serving" using ne by (simp add: goto_def)
  ultimately show ?thesis
    using e handshake_update [OF assms(8,7,5)]
    by (intro exI [of _ ?e] exI [of _ "(c, ?m1) # ?todo"] exI [of _ ?m1] exI [of _ ?m2]) simp
qed

theorem handshake_race_witness:
  "\<exists>m1 m2. snd (syncHandshake True (Some m1) True (Some m2) (new_doc 7)) = Err (ErrMsg ''expected step2 (1)'' [2])"
proof -
  let ?r = "joined 0 (newRoom None)"
  have at: "relay_reach ?r" "\<not> rm_locked ?r" "rm_conns ?r 0 = Some Serving" "rm_conns ?r 1 = None" "rm_doc ?r = NewDoc None"
    using relay_reach_join [OF relay_reach.start, of None 0] by (simp_all add: newRoom_def)
  have vector: "EncodeStateVector (NewDoc None) = [0]" by (simp add: NewDoc_def new_doc_wire)
  obtain rd where "ApplyUpdate [0, 0] relay_origin (NewDoc None) = Ret rd" using empty_update_applies by blast
  then show ?thesis
    using handshake_race [OF at(1-4), unfolded at(5) vector, of "[0, 0]" rd "new_doc 7" "[0, 0]"]
    by (simp add: new_doc_wire bytes_fit_def max_alloc_def) blast
qed

end
