(* ===== verification/Snapshots.thy ===== *)
theory Snapshots
  imports Appending
begin

text \<open>
  The state of a document as one update: what \<open>EncodeStateAsUpdate\<close> and \<open>Snapshot\<close> write of a text
  on which peers have written in turn, decoded. The encoder groups the items by client, clients in
  descending order, and the decoder hands them out in that order (\<open>by_client\<close>).
\<close>

section \<open>The items of a state\<close>

definition client_order :: "Item list \<Rightarrow> u64 list" where
  "client_order its = rev (sorted_list_of_set ((\<lambda>x. Client (it_ID x)) ` set its))"

definition by_client :: "Item list \<Rightarrow> Item list" where
  "by_client its = concat (map (\<lambda>c. own c its) (client_order its))"

text \<open>An item on the wire: its parent is named when it has no origin.\<close>

definition wire :: "gostring \<Rightarrow> Item \<Rightarrow> EncodedItem" where
  "wire name x = itemToEncoded (x\<lparr>it_Parent := Some name\<rparr>)"

lemma wire_alike: "alike i x \<Longrightarrow> it_Parent i = Some name \<Longrightarrow> itemToEncoded i = wire name x"
  by (simp add: wire_def itemToEncoded_def alike_def agree_def Let_def)

lemma wire_client [simp]: "ei_ClientID (wire name x) = Client (it_ID x)"
  by (simp add: wire_def itemToEncoded_def Let_def split: option.split)

lemma wire_heard:
  fixes i :: ID and origin :: "ID option"
  assumes "bytes_fit name" "bytes_fit s"
  defines "x \<equiv> heard_item name i origin s"
  shows "item_ok (wire name x)" "item_len (wire name x) = it_Length x" "ei_Clock (wire name x) = Clock (it_ID x)"
    "encodedToItem (item_norm (wire name x)) = Some x"
  using assms(1,2)
  by (cases i; cases origin; simp add: run_encode run_decode wire_def x_def heard_item_def)+

text \<open>From the beginning, all items of a client.\<close>

lemma items_since_all:
  assumes "clocks_ok h S" "\<forall>a \<in> set S. 0 < unat (it_Length (h ! a))"
  shows "items_since h 0 S = S"
proof -
  let ?f = "\<lambda>i. Clock (it_ID (h ! (S ! i))) + it_Length (h ! (S ! i)) > 0"
  have all: "?f i" if "i < length S" for i
  proof -
    have "item_end h (S ! i) < 2 ^ 64" using clocks_ok_end [OF assms(1)] that by simp
    then have "unat (Clock (it_ID (h ! (S ! i))) + it_Length (h ! (S ! i))) = item_end h (S ! i)"
      by (simp add: item_end_def item_clock_def unat_plus_ok)
    then show ?thesis using assms(2) that by (simp add: word_less_nat_alt item_end_def)
  qed
  define n where "n = sort_search (length S) ?f"
  have n: "n \<le> length S" "\<forall>k < n. \<not> ?f k" unfolding n_def using sort_search_correct [of "length S" ?f] all by blast+
  have "\<not> 0 < n"
  proof
    assume "0 < n"
    then have "\<not> ?f 0" "0 < length S" using n by (blast, linarith)
    then show False using all by blast
  qed
  then show ?thesis by (simp add: items_since_def n_def)
qed

lemma state_items:
  assumes pre: "arranged name its d as" and said: "\<forall>x \<in> set its. said x"
  shows "u_Items (state_update d []) = concat (map (\<lambda>(c, S). map (wire name) (own c its)) (d_store d))"
proof -
  have "map (\<lambda>a. itemToEncoded (d_heap d ! a)) (items_since (d_heap d) 0 S) = map (wire name) (own c its)"
    if cS: "(c, S) \<in> set (d_store d)" for c S
  proof -
    have "gm_ok (d_store d)" using pre by (simp add: arranged_def)
    then have S: "S = store_items (d_store d) c" using cS by (simp add: store_items_def gm_ok_def)
    have l2: "list_all2 (\<lambda>a x. alike (d_heap d ! a) x) S (own c its)" using pre by (simp add: arranged_def own_def S)
    have in_as: "a \<in> set as" if "a \<in> set S" for a using pre that by (simp add: arranged_def S)
    have "0 < unat (it_Length (d_heap d ! a))" if "a \<in> set S" for a
      using arranged_member [OF pre in_as [OF that]] said by (auto simp: alike_def agree_def said_def)
    then have "items_since (d_heap d) 0 S = S" using pre by (intro items_since_all) (auto simp: arranged_def S)
    moreover have "map (\<lambda>a. itemToEncoded (d_heap d ! a)) S = map (wire name) (own c its)"
      using l2 in_as pre wire_alike
      by (auto simp: list_all2_conv_all_nth arranged_def intro!: nth_equalityI)
    ultimately show ?thesis by simp
  qed
  then show ?thesis by (auto simp: state_update_def sv_get_def intro!: arg_cong [where f = concat])
qed

section \<open>Grouping by client\<close>

lemma sort_desc_ordered:
  assumes "distinct (map fst m)" "sorted (map fst (rev m))"
  shows "sort_desc m = m"
proof -
  have "gm_same m (rev m)" using assms(1) by (simp add: gm_same_def gm_ok_def flip: rev_map)
  then have "sort_desc m = rev (sort_key fst (rev m))" using sort_desc_same by (simp add: sort_desc_def) blast
  moreover have "sort_key fst (rev m) = rev m" using assms(2) by (rule sort_key_id_if_sorted)
  ultimately show ?thesis by simp
qed

lemma client_order:
  "set (client_order its) = (\<lambda>x. Client (it_ID x)) ` set its" "distinct (client_order its)" "sorted (rev (client_order its))"
  by (simp_all add: client_order_def)

lemma own_empty: "own c its = [] \<longleftrightarrow> c \<notin> set (client_order its)"
  by (auto simp: own_def client_order filter_empty_conv)

lemma concat_one:
  "gm_ok st \<Longrightarrow> concat (map (\<lambda>(e, S). if e = c then g else []) st) = (if c \<in> fst ` set st then g else [])"
proof (induction st)
  case (Cons p st)
  have "concat (map (\<lambda>(e, S). if e = c then g else []) st) = (if c \<in> fst ` set st then g else [])"
    using Cons by (cases p) simp
  then show ?case using Cons.prems by (cases p) (auto simp del: concat_eq_Nil_conv)
qed simp

lemma group_state:
  assumes store: "gm_ok st" "\<And>c. own c its \<noteq> [] \<Longrightarrow> c \<in> fst ` set st" and w: "\<And>x. ei_ClientID (w x) = Client (it_ID x)"
  shows "sort_desc (group_by_client (concat (map (\<lambda>(c, S). map w (own c its)) st))) = map (\<lambda>c. (c, map w (own c its))) (client_order its)"
    (is "sort_desc (group_by_client ?I) = ?m")
proof -
  have own: "filter (\<lambda>i. ei_ClientID i = c) ?I = map w (own c its)" for c
  proof -
    have "filter (\<lambda>i. ei_ClientID i = c) (map w (own e its)) = (if e = c then map w (own e its) else [])" for e
      by (auto simp: own_def filter_map comp_def w filter_empty_conv intro!: filter_True)
    then have "filter (\<lambda>i. ei_ClientID i = c) ?I = concat (map (\<lambda>(e, S). if e = c then map w (own c its) else []) st)"
      by (auto simp: filter_concat comp_def split_beta intro!: arg_cong [where f = concat])
    also have "\<dots> = map w (own c its)" using store(2) [of c] by (simp only: concat_one [OF store(1)]) auto
    finally show ?thesis .
  qed
  have "gm_same (group_by_client ?I) ?m"
    unfolding gm_same_def
  proof (intro conjI set_eqI)
    show "gm_ok (group_by_client ?I)" by (rule gm_ok_group)
    show "gm_ok ?m" by (simp add: gm_ok_def comp_def client_order)
    fix p :: "u64 \<times> EncodedItem list"
    obtain c g where p: "p = (c, g)" by fastforce
    have "gm_get (group_by_client ?I) c = (if own c its = [] then None else Some (map w (own c its)))"
      using group_by_client_lookup [of ?I "[]" c] by (simp add: group_by_client_def own Let_def)
    moreover have "p \<in> set (group_by_client ?I) \<longleftrightarrow> gm_get (group_by_client ?I) c = Some g"
      using gm_ok_group [of ?I] by (simp add: p gm_ok_def)
    ultimately show "p \<in> set (group_by_client ?I) \<longleftrightarrow> p \<in> set ?m" by (auto simp: p own_empty)
  qed
  then have "sort_desc (group_by_client ?I) = sort_desc ?m" by (rule sort_desc_same)
  moreover have "sort_desc ?m = ?m"
    by (rule sort_desc_ordered) (simp_all add: comp_def client_order rev_map [symmetric])
  ultimately show ?thesis by simp
qed

section \<open>A snapshot, decoded\<close>

lemma contiguous_wire:
  "\<forall>x \<in> set xs. \<exists>i origin s. x = heard_item name i origin s \<and> bytes_fit s \<Longrightarrow> bytes_fit name \<Longrightarrow> gapless xs \<Longrightarrow>
   contiguous (map (wire name) xs)"
  by (induction xs rule: gapless.induct) (auto simp: wire_heard)

lemma decoded_wire:
  "\<forall>x \<in> set xs. \<exists>i origin s. x = heard_item name i origin s \<and> bytes_fit s \<Longrightarrow> bytes_fit name \<Longrightarrow>
   List.map_filter encodedToItem (map (\<lambda>x. item_norm (wire name x)) xs) = xs"
  by (induction xs) (auto simp: List.map_filter_simps wire_heard)

lemma spoken_length:
  assumes "spoken name its rs" shows "length its \<le> length rs"
proof -
  have "\<forall>x \<in> set xs. shown x \<noteq> [] \<Longrightarrow> length xs \<le> length (concat (map shown xs))" for xs :: "Item list"
  proof (induction xs)
    case (Cons x xs)
    then show ?case by (cases "shown x") auto
  qed simp
  then show ?thesis using assms by (auto simp: spoken_def said_def)
qed

lemma own_total: "finite C \<Longrightarrow> (\<Sum>c \<in> C. sum_list (map g (own c its))) \<le> sum_list (map (g :: Item \<Rightarrow> nat) its)"
proof (induction its)
  case (Cons x its)
  have "sum_list (map g (own c (x # its))) = (if Client (it_ID x) = c then g x else 0) + sum_list (map g (own c its))" for c
    by (simp add: own_def)
  then have "(\<Sum>c \<in> C. sum_list (map g (own c (x # its)))) =
      (\<Sum>c \<in> C. if Client (it_ID x) = c then g x else 0) + (\<Sum>c \<in> C. sum_list (map g (own c its)))"
    by (simp only: sum.distrib)
  also have "\<dots> \<le> g x + sum_list (map g its)" using Cons by (intro add_mono) (simp_all add: sum.delta)
  finally show ?case by simp
qed (simp add: own_def)

lemma state_length:
  assumes "gm_ok st" shows "length (concat (map (\<lambda>(c, S). map (wire name) (own c its)) st)) \<le> length its"
proof -
  have "length (concat (map (\<lambda>(c, S). map (wire name) (own c its)) st)) = (\<Sum>c \<in> fst ` set st. length (own c its))"
    using assms by (induction st) (auto simp: length_concat)
  then show ?thesis using own_total [of "fst ` set st" "\<lambda>_. 1" its] by (simp add: sum_list_triv)
qed

lemma map_filter_concat: "List.map_filter f (concat xss) = concat (map (List.map_filter f) xss)"
  by (induction xss) (auto simp: List.map_filter_def)

text \<open>The clients in the store, and the groups that are written.\<close>

lemma store_clients:
  assumes pre: "arranged name its d as"
  shows "fst ` set (d_store d) = set (client_order its)"
proof (intro set_eqI iffI)
  fix c
  have own: "list_all2 (\<lambda>a x. alike (d_heap d ! a) x) (store_items (d_store d) c) (own c its)" using pre by (simp add: arranged_def own_def)
  have get: "gm_get (d_store d) c \<noteq> Some []" using pre by (simp add: arranged_def)
  show "c \<in> set (client_order its)" if "c \<in> fst ` set (d_store d)"
  proof -
    have "gm_get (d_store d) c \<noteq> None" using that by (simp add: map_of_eq_None_iff)
    then have "store_items (d_store d) c \<noteq> []" using get by (auto simp: store_items_def)
    then have "own c its \<noteq> []" using own by auto
    then show ?thesis by (simp add: own_empty)
  qed
  show "c \<in> fst ` set (d_store d)" if "c \<in> set (client_order its)"
  proof -
    have "own c its \<noteq> []" using that by (simp add: own_empty)
    then have "store_items (d_store d) c \<noteq> []" using own by auto
    then have "gm_get (d_store d) c \<noteq> None" by (auto simp: store_items_def split: option.splits)
    then show ?thesis by (simp add: map_of_eq_None_iff)
  qed
qed

lemma state_groups:
  assumes pre: "arranged name its d as" and said: "\<forall>x \<in> set its. said x"
  shows "sort_desc (group_by_client (u_Items (state_update d []))) = map (\<lambda>c. (c, map (wire name) (own c its))) (client_order its)"
  unfolding state_items [OF assms]
  by (rule group_state) (use pre own_empty store_clients [OF pre] in \<open>auto simp: arranged_def\<close>)

lemma snapshot_decoded:
  assumes pre: "arranged name its d as" and spoken: "spoken name its rs" and fit: "bytes_fit name" "length rs \<le> max_alloc"
  shows "\<exists>u. Snapshot d = Ret u \<and> decodeUpdateV1 u = Ret (by_client its, [])"
proof -
  have heard: "\<forall>x \<in> set its. \<exists>i origin s. x = heard_item name i origin s \<and> bytes_fit s" and said: "\<forall>x \<in> set its. said x"
    and gaps: "\<forall>c. gapless (own c its)" using spoken by (auto simp: spoken_def)
  have heard_own: "\<forall>x \<in> set (own c its). \<exists>i origin s. x = heard_item name i origin s \<and> bytes_fit s" for c
    using heard by (auto simp: own_def)
  let ?u = "state_update d []"
  have items: "u_Items ?u = concat (map (\<lambda>(c, S). map (wire name) (own c its)) (d_store d))" by (rule state_items [OF pre said])
  note groups = state_groups [OF pre said]
  have "update_ok ?u"
    unfolding update_ok_def
  proof (intro conjI)
    show "list_all item_ok (u_Items ?u)" using heard_own wire_heard(1) [OF fit(1)] by (fastforce simp: items list_all_iff)
    have "set (group_by_client (u_Items ?u)) = set (map (\<lambda>c. (c, map (wire name) (own c its))) (client_order its))"
      by (metis groups set_sort_desc)
    then show "list_all (\<lambda>g. contiguous (snd g)) (group_by_client (u_Items ?u))"
      using contiguous_wire [OF heard_own fit(1)] gaps by (auto simp: list_all_iff)
    have "length (u_Items ?u) \<le> length its" unfolding items by (rule state_length) (use pre in \<open>simp add: arranged_def\<close>)
    then show "length (u_Items ?u) \<le> max_alloc" using spoken_length [OF spoken] fit(2) by simp
  qed (simp_all add: state_update_def)
  then obtain b where b: "EncodeUpdateV1 ?u = Ret b" "DecodeUpdateV1 (b @ []) = Ret (update_canon ?u)"
    using DecodeUpdateV1_Encode by blast
  have "update_items (update_canon ?u) = by_client its"
    using decoded_wire [OF heard_own fit(1)]
    by (simp add: update_items_def update_canon_def groups map_filter_concat by_client_def comp_def)
  moreover have "update_ds (update_canon ?u) = []" by (simp add: update_canon_def state_update_def update_ds_def newDeleteSet_def sort_desc_def)
  ultimately show ?thesis using b by (auto simp: Snapshot_def EncodeStateAsUpdate_def decodeUpdateV1_def)
qed

end
