(* ===== verification/Restoring.thy ===== *)
theory Restoring
  imports Snapshots Slices
begin

text \<open>
  What a new document makes of the items of a conversation in the order in which the encoder
  writes them, whatever clients spoke. An item that comes before its origin gets no parent and is in
  the store only; so are all that stand behind it.
\<close>

section \<open>A document that holds some items in its text\<close>

definition held :: "gostring \<Rightarrow> Item list \<Rightarrow> Item list \<Rightarrow> Doc \<Rightarrow> addr list \<Rightarrow> bool" where
  "held name ws xs d as \<longleftrightarrow> slices ws d \<and>
    (if gm_get (d_share d) name = None then xs = [] \<and> as = [] else text_list d name as) \<and>
    list_all2 (\<lambda>a x. alike (d_heap d ! a) x) as xs \<and>
    (\<forall>a \<in> set as. it_Parent (d_heap d ! a) = Some name \<and>
      a \<in> set (store_items (d_store d) (Client (it_ID (d_heap d ! a))))) \<and>
    (\<forall>c. \<forall>a \<in> set (store_items (d_store d) c). a \<notin> set as \<longrightarrow> it_Parent (d_heap d ! a) = None) \<and> d_ds d = []"

lemma held_bound: "held name ws xs d as \<Longrightarrow> a \<in> set as \<Longrightarrow> a < length (d_heap d)"
  by (auto simp: held_def slices_def)

lemma held_new: "held name [] [] (new_doc c) []"
  by (simp add: held_def slices_def new_doc_def newStructStore_def newDeleteSet_def store_items_def)

lemma held_cong:
  "held name ws xs d as \<Longrightarrow> d_heap d' = d_heap d \<Longrightarrow> d_share d' = d_share d \<Longrightarrow> d_store d' = d_store d \<Longrightarrow>
   d_ds d' = [] \<Longrightarrow> held name ws xs d' as"
  by (auto simp: held_def text_list_def slices_def)

text \<open>The document once the item is stored, before it is given a parent.\<close>

definition stored :: "Item \<Rightarrow> Doc \<Rightarrow> Doc" where
  "stored it d = store_add (length (d_heap d)) (d\<lparr>d_heap := d_heap d @ [it]\<rparr>)"

lemma stored_fields [simp]:
  "d_heap (stored it d) = d_heap d @ [it]" "d_store (stored it d) = addItem (d_heap d @ [it]) (d_store d) (length (d_heap d))"
  "d_share (stored it d) = d_share d" "d_ds (stored it d) = d_ds d"
  by (simp_all add: stored_def store_add_def)

lemma integrate_stored:
  assumes pre: "held name ws xs d as" and later: "later (set ws) it"
  shows "integrateItem it d =
    place_item (length (d_heap d)) (inherit_parent (length (d_heap d)) (resolve_by_name (length (d_heap d)) (stored it d)))"
proof -
  have "doc_getItem d (it_ID it) = None" using slices_fresh [OF _ later] pre by (simp add: held_def)
  moreover have "\<not> isDeleted (d_ds (stored it d)) (it_ID it)" using pre by (simp add: held_def isDeleted_def ds_ranges_def)
  ultimately show ?thesis unfolding integrateItem_def alloc_def Let_def prod.case stored_def [symmetric] by simp
qed

lemma stored_slices:
  assumes pre: "held name ws xs d as" and later: "later (set ws) it" and i: "same_clock i it"
  shows "slices (ws @ [it]) (stored i d)"
  by (rule slices_add [OF _ later])
    (use pre i in \<open>auto simp: held_def nth_append same_clock_def store_items_addItem\<close>)

section \<open>An item whose origin is missing\<close>

lemma integrate_lost:
  assumes pre: "held name ws xs d as" and later: "later (set ws) it" and it: "plain_insert name it"
    and p: "it_OriginLeft it = Some p" and lost: "\<forall>y \<in> set xs. \<not> item_owns y p"
  shows "\<exists>d'. integrateItem it d = Ret d' \<and> held name (ws @ [it]) xs d' as"
proof -
  let ?d = "stored it d" and ?a = "length (d_heap d)"
  have "same_clock it it" by (simp add: same_clock_def)
  note sl = stored_slices [OF pre later this]
  have at: "(d_heap d @ [it]) ! b = d_heap d ! b" if "b < ?a" for b using that by (simp add: nth_append)
  have none: "it_Parent it = None" "it_parentName it = []" using it p by (simp_all add: plain_insert_def)
  have orphan: "it_Parent (d_heap ?d ! b) = None" if found: "opt_getItem ?d (Some p) = Some b" for b
  proof (cases "b = ?a")
    case False
    have ok: "clocks_ok (d_heap ?d) (store_items (d_store ?d) (Client p))" using sl by (simp add: slices_def)
    have "find_item (d_heap ?d) (d_store ?d) p = Some b"
      using found getItem_find [OF ok] by (simp add: opt_getItem_def doc_getItem_def)
    then have b: "b \<in> set (store_items (d_store ?d) (Client p))" "covers (d_heap ?d) (Clock p) b"
      by (auto simp: find_item_def find_Some_iff)
    then have in_store: "b \<in> set (store_items (d_store d) (Client p))" using False by (auto simp: store_items_addItem split: if_splits)
    then have less: "b < ?a" using pre by (auto simp: held_def slices_def)
    obtain x where "same_clock (d_heap d ! b) x" "Client (it_ID x) = Client p"
      using pre in_store unfolding held_def slices_def by blast
    then have owns: "item_owns (d_heap d ! b) p"
      using covers_unat [OF clocks_ok_end [OF ok b(1)]] b(2) at [OF less] by (simp add: owns_clock same_clock_def item_clock_def item_end_def)
    have "b \<notin> set as"
    proof
      assume b: "b \<in> set as"
      have "list_all2 (\<lambda>a x. alike (d_heap d ! a) x) as xs" using pre by (simp add: held_def)
      from list_all2_bex [OF this b] obtain y where "y \<in> set xs" "alike (d_heap d ! b) y" by blast
      then show False using lost owns alike_owns by blast
    qed
    then show ?thesis using pre in_store at [OF less] by (auto simp: held_def)
  qed (simp add: none)
  have "inherit_parent ?a ?d = ?d"
  proof (cases "opt_getItem ?d (Some p)")
    case None
    then show ?thesis by (simp add: inherit_parent_def Let_def p)
  next
    case (Some b)
    then show ?thesis using orphan [OF Some] by (simp add: inherit_parent_def Let_def p)
  qed
  then have "integrateItem it d = Ret ?d"
    using integrate_stored [OF pre later] by (simp add: resolve_by_name_def Let_def none place_item_def resolveParent_def)
  moreover have "held name (ws @ [it]) xs ?d as"
    unfolding held_def
  proof (intro conjI sl)
    have bound: "b < ?a" if "b \<in> set as" for b using held_bound [OF pre that] .
    show "if gm_get (d_share ?d) name = None then xs = [] \<and> as = [] else text_list ?d name as"
      using pre at bound by (auto simp: held_def text_list_def linked_heap_append)
    show "list_all2 (\<lambda>a x. alike (d_heap ?d ! a) x) as xs"
      by (rule list_all2_weaken [of "\<lambda>a x. alike (d_heap d ! a) x"]) (use pre at bound in \<open>auto simp: held_def\<close>)
    show "\<forall>a \<in> set as. it_Parent (d_heap ?d ! a) = Some name \<and> a \<in> set (store_items (d_store ?d) (Client (it_ID (d_heap ?d ! a))))"
      using pre at bound by (auto simp: held_def store_items_addItem)
    have "b < ?a" if "b \<in> set (store_items (d_store d) c)" for b c using pre that by (auto simp: held_def slices_def)
    then show "\<forall>c. \<forall>a \<in> set (store_items (d_store ?d) c). a \<notin> set as \<longrightarrow> it_Parent (d_heap ?d ! a) = None"
      using pre at none by (auto simp: held_def store_items_addItem)
    show "d_ds ?d = []" using pre by (simp add: held_def)
  qed
  ultimately show ?thesis by blast
qed

section \<open>An item whose origin is the last one in the text\<close>

text \<open>The origin's item, looked up.\<close>

lemma held_tail:
  assumes pre: "held name ws xs d as" and later: "later (set ws) it" and i: "same_clock i it"
    and xs: "xs \<noteq> []" "item_owns (last xs) p"
  shows "opt_getItem (stored i d) (Some p) = rear as" "rear as = Some (last as)" "last as \<in> set as"
proof -
  have l2: "list_all2 (\<lambda>a x. alike (d_heap d ! a) x) as xs" using pre by (simp add: held_def)
  then have as: "as \<noteq> []" using xs(1) by auto
  then show last: "last as \<in> set as" "rear as = Some (last as)" by (simp_all add: rear_def)
  have "alike (d_heap d ! last as) (last xs)"
    using list_all2_nthD2 [OF l2, of "length xs - 1"] list_all2_lengthD [OF l2] xs(1) as by (simp add: last_conv_nth)
  then have old: "item_owns (d_heap d ! last as) p" using xs(2) alike_owns by blast
  moreover have "last as < length (d_heap d)" by (rule held_bound [OF pre last(1)])
  ultimately have owns: "item_owns (d_heap (stored i d) ! last as) p" by (simp add: nth_append)
  have "last as \<in> set (store_items (d_store d) (Client p))" using pre last(1) old by (auto simp: held_def item_owns_def)
  then have "last as \<in> set (store_items (d_store (stored i d)) (Client p))" by (auto simp: store_items_addItem)
  moreover have "clocks_ok (d_heap (stored i d)) (store_items (d_store (stored i d)) (Client p))"
    using stored_slices [OF pre later i] by (simp add: slices_def)
  ultimately show "opt_getItem (stored i d) (Some p) = rear as"
    using getItem_owner owns last(2) by (simp add: opt_getItem_def doc_getItem_def)
qed

text \<open>Stored, and with its parent.\<close>

lemma held_parent:
  assumes pre: "held name ws xs d as" and later: "later (set ws) it" and it: "plain_insert name it" and name: "name \<noteq> []"
    and at: "it_OriginLeft it = None \<and> xs = [] \<or> xs \<noteq> [] \<and> (\<exists>p. it_OriginLeft it = Some p \<and> item_owns (last xs) p)"
  obtains d4 where "integrateItem it d = place_item (length (d_heap d)) d4"
    "d_heap d4 = d_heap d @ [it\<lparr>it_Parent := Some name\<rparr>]" "d_ds d4 = []"
    "d_store d4 = d_store (stored (it\<lparr>it_Parent := Some name\<rparr>) d)" "text_list d4 name as"
    "opt_getItem d4 (it_OriginLeft it) = rear as"
proof -
  let ?a = "length (d_heap d)" and ?new = "it\<lparr>it_Parent := Some name\<rparr>" and ?d = "stored it d"
  define d4 where "d4 = upd_item ?a (\<lambda>i. i\<lparr>it_Parent := Some name\<rparr>)
    (if gm_get (d_share d) name = None then share_put name newText ?d else ?d)"
  have h4: "d_heap d4 = d_heap d @ [?new]" "d_ds d4 = []" "d_store d4 = d_store (stored ?new d)"
    using pre by (simp_all add: d4_def upd_item_def share_put_def addItem_def held_def)
  have bound: "b < ?a" if "b \<in> set as" for b using held_bound [OF pre that] .
  have k: "it_Kind it = contentString" using it by (auto simp: plain_insert_def text_item_def)
  have same: "same_clock it it" "same_clock ?new it" by (simp_all add: same_clock_def)
  have share: "xs \<noteq> [] \<Longrightarrow> gm_get (d_share d) name \<noteq> None" using pre by (auto simp: held_def split: if_splits)
  have res: "inherit_parent ?a (resolve_by_name ?a ?d) = d4"
  proof (cases "it_OriginLeft it")
    case None
    have "resolve_by_name ?a ?d = d4"
      using it name k None by (auto simp: resolve_by_name_def Let_def plain_insert_def lazy_type_def d4_def split: option.split)
    then show ?thesis by (simp add: inherit_parent_def Let_def h4)
  next
    case (Some p)
    then have xs: "xs \<noteq> []" "item_owns (last xs) p" using at by auto
    note tail = held_tail [OF pre later same(1) xs]
    have "it_Parent (d_heap d ! last as) = Some name" using pre tail(3) by (simp add: held_def)
    then have "it_Parent (d_heap ?d ! last as) = Some name" using bound [OF tail(3)] by (simp add: nth_append)
    moreover have "resolve_by_name ?a ?d = ?d" using it Some by (simp add: resolve_by_name_def Let_def plain_insert_def)
    moreover have "d4 = upd_item ?a (\<lambda>i. i\<lparr>it_Parent := Some name\<rparr>) ?d" using share [OF xs(1)] by (auto simp: d4_def)
    ultimately show ?thesis using it Some tail(1,2) by (simp add: inherit_parent_def Let_def plain_insert_def)
  qed
  have list: "text_list d4 name as"
  proof (cases "gm_get (d_share d) name = None")
    case True
    then show ?thesis using pre by (auto simp: held_def text_list_def d4_def newText_def share_put_def update_conv')
  next
    case False
    then have t: "text_list d name as" using pre by (simp add: held_def)
    then have "linked (d_heap d4) as" by (simp add: text_list_def h4 linked_heap_append)
    moreover have "d_share d4 = d_share d" using False by (auto simp: d4_def)
    ultimately show ?thesis using t bound by (simp add: text_list_def h4 nth_append)
  qed
  have "opt_getItem d4 (it_OriginLeft it) = rear as"
  proof (cases "it_OriginLeft it")
    case None
    then have "as = []" using at pre by (simp add: held_def)
    then show ?thesis using None by (simp add: opt_getItem_def)
  next
    case (Some p)
    then have xs: "xs \<noteq> []" "item_owns (last xs) p" using at by auto
    have "opt_getItem d4 (Some p) = opt_getItem (stored ?new d) (Some p)"
      by (simp add: opt_getItem_def doc_getItem_def h4)
    then show ?thesis using held_tail [OF pre later same(2) xs] Some by simp
  qed
  then show thesis using that integrate_stored [OF pre later] h4 list by (simp add: res)
qed

lemma integrate_held:
  assumes pre: "held name ws xs d as" and later: "later (set ws) it" and it: "plain_insert name it" and name: "name \<noteq> []"
    and at: "it_OriginLeft it = None \<and> xs = [] \<or> xs \<noteq> [] \<and> (\<exists>p. it_OriginLeft it = Some p \<and> item_owns (last xs) p)"
  shows "\<exists>d' as'. integrateItem it d = Ret d' \<and> held name (ws @ [it]) (xs @ [it]) d' as'"
proof -
  let ?a = "length (d_heap d)" and ?new = "it\<lparr>it_Parent := Some name\<rparr>"
  obtain d4 where run: "integrateItem it d = place_item ?a d4" and h4: "d_heap d4 = d_heap d @ [?new]" "d_ds d4 = []"
    "d_store d4 = d_store (stored ?new d)" and t4: "text_list d4 name as" and left: "opt_getItem d4 (it_OriginLeft it) = rear as"
    by (rule held_parent [OF pre later it name at])
  have new: "d_heap d4 ! ?a = ?new" "alike ?new it" "text_item ?new" "it_OriginRight it = None" "same_clock ?new it"
    using it by (auto simp: h4 plain_insert_def text_item_def item_runes_def alike_def agree_def same_clock_def)
  have bound: "b < ?a" if "b \<in> set as" for b using held_bound [OF pre that] .
  obtain d' where p: "place_item ?a d4 = Ret d'" "text_list d' name (as @ [?a])"
    "length (d_heap d') = length (d_heap d4)" "d_store d' = d_store d4" "d_ds d' = d_ds d4"
  proof (rule place_item_text [of d4 name as "[]" ?a "as @ [?a]"])
    show "text_list d4 name (as @ [])" using t4 by simp
    show "?a \<notin> set (as @ [])" using bound by auto
    show "opt_getItem d4 (it_OriginLeft (d_heap d4 ! ?a)) = rear as" using left new(1) by simp
  qed (use new in \<open>simp_all add: opt_getItem_def lss_insert_Nil, simp add: h4\<close>)
  note kept = place_item_alike [OF p(1)]
  have old: "alike (d_heap d' ! b) (d_heap d ! b)" "it_Parent (d_heap d' ! b) = it_Parent (d_heap d ! b)" if "b < ?a" for b
    using kept [of b] that by (simp_all add: h4 nth_append)
  have at_a: "alike (d_heap d' ! ?a) it" "it_Parent (d_heap d' ! ?a) = Some name"
    using kept [of ?a] new(1,2) by (auto intro: alike_trans)
  have store: "store_items (d_store d') c = (if c = Client (it_ID it) then store_items (d_store d) c @ [?a] else store_items (d_store d) c)" for c
    by (simp add: p(4) h4(3) store_items_addItem)
  have same: "same_clock i j" if "alike i j" for i j using that by (simp add: alike_def agree_def same_clock_def)
  have "held name (ws @ [it]) (xs @ [it]) d' (as @ [?a])"
    unfolding held_def
  proof (intro conjI)
    show "slices (ws @ [it]) d'"
      by (rule slices_add [OF _ later]) (use pre same old at_a store p(3) h4(1) in \<open>simp_all add: held_def\<close>)
    show "if gm_get (d_share d') name = None then xs @ [it] = [] \<and> as @ [?a] = [] else text_list d' name (as @ [?a])"
      using p(2) text_list_share [OF p(2)] by simp
    have "list_all2 (\<lambda>a x. alike (d_heap d' ! a) x) as xs"
    proof (rule list_all2_weaken)
      show "list_all2 (\<lambda>a x. alike (d_heap d ! a) x) as xs" using pre by (simp add: held_def)
    qed (use old(1) bound alike_trans in blast)
    then show "list_all2 (\<lambda>a x. alike (d_heap d' ! a) x) (as @ [?a]) (xs @ [it])" using at_a by (simp add: list_all2_appendI)
    have id: "it_ID (d_heap d' ! b) = it_ID (d_heap d ! b)" if "b < ?a" for b using old(1) [OF that] by (simp add: alike_def)
    have id_a: "it_ID (d_heap d' ! ?a) = it_ID it" using at_a(1) by (simp add: alike_def)
    show "\<forall>a \<in> set (as @ [?a]). it_Parent (d_heap d' ! a) = Some name \<and>
        a \<in> set (store_items (d_store d') (Client (it_ID (d_heap d' ! a))))"
      using pre old bound at_a(2) id id_a by (auto simp: held_def store)
    have "b < ?a" if "b \<in> set (store_items (d_store d) c)" for b c using pre that by (auto simp: held_def slices_def)
    then show "\<forall>c. \<forall>a \<in> set (store_items (d_store d') c). a \<notin> set (as @ [?a]) \<longrightarrow> it_Parent (d_heap d' ! a) = None"
      using pre old by (auto simp: held_def store)
    show "d_ds d' = []" using p(5) h4(2) by simp
  qed
  then show ?thesis using run p(1) by auto
qed

section \<open>The order on the wire\<close>

text \<open>Items whose clients come in descending order are not moved by the grouping.\<close>

lemma grouped:
  assumes "sorted_wrt (>) cs" "(\<lambda>x. Client (it_ID x)) ` set its \<subseteq> set cs" "sorted_wrt (\<ge>) (map (\<lambda>x. Client (it_ID x)) its)"
  shows "concat (map (\<lambda>c. own c its) cs) = its"
  using assms(2,3)
proof (induction its)
  case (Cons x its)
  let ?c = "Client (it_ID x)"
  have rest: "concat (map (\<lambda>c. own c its) cs) = its" using Cons by simp
  obtain us vs where cs: "cs = us @ ?c # vs" using Cons.prems(1) by (auto dest: split_list)
  have us: "u > ?c" if "u \<in> set us" for u using assms(1) that by (auto simp: cs sorted_wrt_append)
  have vs: "v < ?c" if "v \<in> set vs" for v using assms(1) that by (auto simp: cs sorted_wrt_append)
  have below: "Client (it_ID y) \<le> ?c" if "y \<in> set its" for y using Cons.prems(2) that by simp
  have "own u its = []" if "u \<in> set us" for u using us [OF that] below by (fastforce simp: own_def filter_empty_conv)
  then have none: "concat (map (\<lambda>c. own c its) us) = []" by simp
  have other: "own c (x # its) = own c its" if "c \<noteq> ?c" for c using that by (simp add: own_def)
  have eqs: "map (\<lambda>c. own c (x # its)) us = map (\<lambda>c. own c its) us" "map (\<lambda>c. own c (x # its)) vs = map (\<lambda>c. own c its) vs"
    "own ?c (x # its) = x # own ?c its"
    by (rule map_cong [OF refl], rule other, use us vs in fastforce)+ (simp add: own_def)
  have "concat (map (\<lambda>c. own c (x # its)) cs) = concat (map (\<lambda>c. own c its) us) @ x # own ?c its @ concat (map (\<lambda>c. own c its) vs)"
    by (simp only: cs map_append list.map concat_append concat.simps eqs append.simps)
  also have "\<dots> = x # concat (map (\<lambda>c. own c its) us) @ own ?c its @ concat (map (\<lambda>c. own c its) vs)"
    by (simp only: none append.simps)
  also have "\<dots> = x # its" using rest by (simp only: cs map_append list.map concat_append concat.simps)
  finally show ?case .
qed (simp add: own_def)

text \<open>Items of one client keep their order; the clients descend.\<close>

definition apart :: "Item \<Rightarrow> Item \<Rightarrow> bool" where
  "apart y x \<longleftrightarrow> (Client (it_ID y) = Client (it_ID x) \<longrightarrow> item_start y < item_start x \<and> item_stop y \<le> item_start x)"

lemma causal_apart_wrt:
  "causal item_ready B its \<Longrightarrow> sorted_wrt apart its \<and> (\<forall>y \<in> B. \<forall>x \<in> set its. apart y x) \<and> (\<forall>x \<in> set its. item_stop x < 2 ^ 64)"
proof (induction its arbitrary: B)
  case (Cons x its)
  then have "sorted_wrt apart its" "\<forall>y \<in> insert x B. \<forall>z \<in> set its. apart y z" "\<forall>z \<in> set its. item_stop z < 2 ^ 64" by auto
  moreover have "\<forall>y \<in> B. apart y x" "item_stop x < 2 ^ 64" using Cons.prems by (auto simp: item_ready_def apart_def)
  ultimately show ?case by simp
qed simp

lemma apart_distinct: "sorted_wrt apart its \<Longrightarrow> distinct its"
  by (induction its) (auto simp: apart_def)

lemma apart_owns: "apart y z \<Longrightarrow> item_owns y p \<Longrightarrow> \<not> item_owns z p"
  by (auto simp: apart_def item_owns_def)

lemma apart_owner:
  "sorted_wrt apart its \<Longrightarrow> y \<in> set its \<Longrightarrow> z \<in> set its \<Longrightarrow> item_owns y p \<Longrightarrow> item_owns z p \<Longrightarrow> y = z"
  by (induction its) (auto dest: apart_owns)

lemma sorted_wrt_concat:
  assumes "sorted_wrt R' cs" "\<And>c. sorted_wrt R (f c)" "\<And>c e x y. R' c e \<Longrightarrow> x \<in> set (f c) \<Longrightarrow> y \<in> set (f e) \<Longrightarrow> R x y"
  shows "sorted_wrt R (concat (map f cs))"
  using assms(1) by (induction cs) (auto simp: sorted_wrt_append assms(2) intro: assms(3))

lemma by_client_order:
  assumes "sorted_wrt apart its"
  shows "sorted_wrt apart (by_client its)" "sorted_wrt (\<lambda>y x. Client (it_ID x) \<le> Client (it_ID y)) (by_client its)" "set (by_client its) = set its"
proof -
  have cs: "sorted_wrt (>) (client_order its)" by (simp add: client_order_def sorted_wrt_rev)
  show "sorted_wrt apart (by_client its)"
    unfolding by_client_def by (rule sorted_wrt_concat [OF cs]) (use assms in \<open>auto simp: own_def apart_def intro: sorted_wrt_filter\<close>)
  show "sorted_wrt (\<lambda>y x. Client (it_ID x) \<le> Client (it_ID y)) (by_client its)"
    unfolding by_client_def
  proof (rule sorted_wrt_concat [OF cs])
    fix c
    have same: "\<forall>x \<in> set xs. Client (it_ID x) = c \<Longrightarrow> sorted_wrt (\<lambda>y x. Client (it_ID x) \<le> Client (it_ID y)) xs" for xs
      by (induction xs) auto
    show "sorted_wrt (\<lambda>y x. Client (it_ID x) \<le> Client (it_ID y)) (own c its)" by (rule same) (simp add: own_def)
  qed (auto simp: own_def)
  show "set (by_client its) = set its" by (auto simp: by_client_def own_def client_order(1))
qed

section \<open>The items up to the first greater client\<close>

fun unbroken :: "('a \<Rightarrow> 'k::linorder) \<Rightarrow> 'a list \<Rightarrow> 'a list" where
  "unbroken f (x # y # zs) = x # (if f y \<le> f x then unbroken f (y # zs) else [])"
| "unbroken f zs = zs"

lemma unbroken_map: "map g (unbroken (\<lambda>x. f (g x)) xs) = unbroken f (map g xs)"
  by (induction f "map g xs" arbitrary: xs rule: unbroken.induct) auto

lemma unbroken_split:
  "\<exists>ys. xs = unbroken f xs @ ys \<and> (ys \<noteq> [] \<longrightarrow> unbroken f xs \<noteq> [] \<and> f (last (unbroken f xs)) < f (hd ys))"
proof (induction f xs rule: unbroken.induct)
  case (1 f x y zs)
  show ?case
  proof (cases "f y \<le> f x")
    case True
    then obtain ys where "y # zs = unbroken f (y # zs) @ ys" "ys \<noteq> [] \<longrightarrow> f (last (unbroken f (y # zs))) < f (hd ys)"
      "unbroken f (y # zs) \<noteq> []" using 1 by (cases zs) auto
    then show ?thesis using True by (intro exI [of _ ys]) simp
  qed (auto intro!: exI [of _ "y # zs"])
qed auto

lemma unbroken_sorted: "sorted_wrt (\<ge>) (map f (unbroken f xs))"
proof (induction f xs rule: unbroken.induct)
  case (1 f x y zs)
  then show ?case
  proof (cases "f y \<le> f x")
    case True
    moreover have "\<exists>us. unbroken f (y # zs) = y # us" by (cases zs) auto
    ultimately show ?thesis using 1 by (fastforce intro: order_trans [of _ "f y"])
  qed simp
qed simp_all

section \<open>All items\<close>

lemma spoken_plain: "spoken name its rs \<Longrightarrow> x \<in> set its \<Longrightarrow> plain_insert name x"
  by (auto simp: spoken_def said_def plain_insert_def heard_item_def zero_Item_def text_item_def shown_def item_runes_def)

abbreviation client :: "Item \<Rightarrow> u64" where
  "client x \<equiv> Client (it_ID x)"

lemma filter_by_client:
  assumes "distinct its" "its = P @ Q" "sorted_wrt (\<ge>) (map client P)"
  shows "filter (\<lambda>x. x \<in> set P) (by_client its) = P"
proof -
  have P: "filter (\<lambda>x. x \<in> set P) its = P" using assms(1,2) by (auto simp: filter_id_conv filter_empty_conv)
  have "filter (\<lambda>x. x \<in> set P) (own c its) = own c (filter (\<lambda>x. x \<in> set P) its)" for c
    by (simp add: own_def conj_commute)
  then have "filter (\<lambda>x. x \<in> set P) (own c its) = own c P" for c by (simp only: P)
  then have "filter (\<lambda>x. x \<in> set P) (by_client its) = concat (map (\<lambda>c. own c P) (client_order its))"
    by (simp add: by_client_def filter_concat comp_def)
  also have "\<dots> = P"
    by (rule grouped) (use assms(2,3) in \<open>auto simp: client_order_def sorted_wrt_rev\<close>)
  finally show ?thesis .
qed

text \<open>The next item on the wire: the next one of the prefix, or one whose origin is not in the text.\<close>

lemma next_on_wire:
  assumes spoken: "spoken name its rs" and wire: "by_client its = us @ x # vs"
    and its: "its = P @ Q" "Q \<noteq> [] \<longrightarrow> P \<noteq> [] \<and> client (last P) < client (hd Q)" "sorted_wrt (\<ge>) (map client P)"
  defines "xs \<equiv> filter (\<lambda>x. x \<in> set P) us"
  shows "later (set us) x" "plain_insert name x"
    and "x \<in> set P \<Longrightarrow> it_OriginLeft x = None \<and> xs = [] \<or> xs \<noteq> [] \<and> (\<exists>p. it_OriginLeft x = Some p \<and> item_owns (last xs) p)"
    and "x \<notin> set P \<Longrightarrow> \<exists>p. it_OriginLeft x = Some p \<and> (\<forall>y \<in> set xs. \<not> item_owns y p)"
proof -
  have causal: "causal item_ready {} its" and chain: "successively follows its" using spoken by (simp_all add: spoken_def)
  note apart = causal_apart_wrt [OF causal]
  have sorted: "sorted_wrt apart its" using apart by simp
  note order = by_client_order [OF sorted]
  have x: "x \<in> set its" using order(3) wire by auto
  have "\<forall>y \<in> set us. apart y x" using order(1) by (simp add: wire sorted_wrt_append)
  then show "later (set us) x" using apart x by (auto simp: later_def apart_def)
  show "plain_insert name x" by (rule spoken_plain [OF spoken x])
  have P: "P = filter (\<lambda>x. x \<in> set P) (by_client its)"
    by (rule filter_by_client [OF apart_distinct [OF sorted] its(1,3), symmetric])
  show "it_OriginLeft x = None \<and> xs = [] \<or> xs \<noteq> [] \<and> (\<exists>p. it_OriginLeft x = Some p \<and> item_owns (last xs) p)" if "x \<in> set P"
  proof -
    have "filter (\<lambda>x. x \<in> set P) (by_client its) = xs @ x # filter (\<lambda>x. x \<in> set P) vs" using that by (simp add: wire xs_def)
    from trans [OF P this] obtain zs where p: "P = xs @ x # zs" by blast
    show ?thesis
    proof (cases "xs = []")
      case True
      then show ?thesis using causal p its(1) by (auto simp: item_ready_def split: option.splits)
    next
      case False
      then show ?thesis using chain p its(1) by (auto simp: successively_append_iff follows_def)
    qed
  qed
  show "\<exists>p. it_OriginLeft x = Some p \<and> (\<forall>y \<in> set xs. \<not> item_owns y p)" if out: "x \<notin> set P"
  proof -
    obtain Q1 Q2 where Q: "Q = Q1 @ x # Q2" using x out its(1) by (auto dest: split_list)
    then have ne: "P @ Q1 \<noteq> []" using its(2) by auto
    let ?z = "last (P @ Q1)"
    have "successively follows ((P @ Q1) @ x # Q2)" using chain its(1) Q by simp
    then have "follows ?z x" using ne by (simp only: successively_append_iff) simp
    then obtain p where p: "it_OriginLeft x = Some p" "item_owns ?z p" by (auto simp: follows_def)
    have z: "?z \<in> set its" using ne its(1) Q by (metis Un_iff append_assoc last_in_set set_append)
    have "\<not> item_owns y p" if y: "y \<in> set xs" for y
    proof
      assume "item_owns y p"
      moreover have "y \<in> set its" using y its(1) by (auto simp: xs_def)
      ultimately have "y = ?z" using apart_owner [OF sorted _ z _ p(2)] by blast
      then have yz: "?z \<in> set P" "?z \<in> set us" using y by (auto simp: xs_def)
      have "Q1 = []"
      proof (rule ccontr)
        assume "Q1 \<noteq> []"
        then have "?z \<in> set Q" by (simp add: Q)
        then show False using yz(1) apart_distinct [OF sorted] its(1) by auto
      qed
      then have "client ?z < client x" using its(2) Q by simp
      moreover have "client x \<le> client ?z" using order(2) yz(2) by (simp add: wire sorted_wrt_append)
      ultimately show False by simp
    qed
    then show ?thesis using p(1) by blast
  qed
qed

lemma integrate_wire:
  assumes spoken: "spoken name its rs" and name: "name \<noteq> []"
    and its: "its = P @ Q" "Q \<noteq> [] \<longrightarrow> P \<noteq> [] \<and> client (last P) < client (hd Q)" "sorted_wrt (\<ge>) (map client P)"
  shows "by_client its = us @ vs \<Longrightarrow> held name us (filter (\<lambda>x. x \<in> set P) us) d as \<Longrightarrow>
    \<exists>d' as'. ofold integrateItem vs d = Ret d' \<and> held name (by_client its) (filter (\<lambda>x. x \<in> set P) (by_client its)) d' as'"
proof (induction vs arbitrary: us d as)
  case (Cons x vs)
  note nxt = next_on_wire [OF spoken Cons.prems(1) its]
  have "\<exists>d1 as1. integrateItem x d = Ret d1 \<and> held name (us @ [x]) (filter (\<lambda>x. x \<in> set P) (us @ [x])) d1 as1"
  proof (cases "x \<in> set P")
    case True
    then show ?thesis using integrate_held [OF Cons.prems(2) nxt(1,2) name nxt(3)] by simp
  next
    case False
    then show ?thesis using integrate_lost [OF Cons.prems(2) nxt(1,2)] nxt(4) by fastforce
  qed
  then obtain d1 as1 where d1: "integrateItem x d = Ret d1" "held name (us @ [x]) (filter (\<lambda>x. x \<in> set P) (us @ [x])) d1 as1" by blast
  show ?case using Cons.IH [OF _ d1(2)] Cons.prems(1) d1(1) by simp
qed auto

section \<open>A snapshot, restored\<close>

lemma held_text:
  assumes "held name ws xs d as"
  shows "text_String name d = Ret (string_of_runes (concat (map shown xs)))"
proof (cases "gm_get (d_share d) name")
  case None
  then show ?thesis using assms by (simp add: held_def text_String_def text_start_def string_loop.simps)
next
  case (Some st)
  then show ?thesis using assms text_String_list [of d name as] alike_vis [of "d_heap d" as xs] by (simp add: held_def text_vis_def)
qed

lemma receive_wire:
  assumes u: "decodeUpdateV1 u = Ret (by_client its, [])" and spoken: "spoken name its rs" and name: "name \<noteq> []"
  shows "\<exists>r. ApplyUpdate u origin (new_doc c) = Ret r \<and>
    text_String name r = Ret (string_of_runes (concat (map shown (unbroken client its))))"
proof -
  let ?P = "unbroken client its" and ?d = "snd (begin_tx origin (new_doc c))\<lparr>d_ds := []\<rparr>"
  obtain Q where Q: "its = ?P @ Q" "Q \<noteq> [] \<longrightarrow> ?P \<noteq> [] \<and> client (last ?P) < client (hd Q)"
    using unbroken_split [of its client] by blast
  have "sorted_wrt apart its" using causal_apart_wrt [of "{}" its] spoken by (simp add: spoken_def)
  from filter_by_client [OF apart_distinct [OF this] Q(1) unbroken_sorted] have P: "filter (\<lambda>x. x \<in> set ?P) (by_client its) = ?P" .
  have "held name [] (filter (\<lambda>x. x \<in> set ?P) []) ?d []"
    using held_cong [OF held_new [of name c], of ?d] by (simp add: begin_tx_def)
  from integrate_wire [OF spoken name Q unbroken_sorted, of "[]", OF _ this] obtain d as where
    d: "ofold integrateItem (by_client its) ?d = Ret d" "held name (by_client its) ?P d as" by (auto simp: P)
  let ?r = "fireObservers 0 (d\<lparr>d_currentTx := None\<rparr>)"
  have "ApplyUpdate u origin (new_doc c) = Ret ?r"
    using d by (simp add: ApplyUpdate_def u apply_decoded_def begin_tx_def accumulate_ds_def apply_ds_def held_def new_doc_def newDeleteSet_def)
  moreover have "held name (by_client its) ?P ?r as"
    using d(2) by (intro held_cong [OF d(2)]) (simp_all add: fireObservers_def Let_def held_def)
  ultimately show ?thesis using held_text by blast
qed

lemma restore:
  assumes "decodeUpdateV1 u = Ret (by_client its, [])" "spoken name its rs" "name \<noteq> []"
  shows "\<exists>r. RestoreDoc rnd u = Ret r \<and> text_String name r = Ret (string_of_runes (concat (map shown (unbroken client its))))"
proof -
  obtain c where "NewDoc rnd = new_doc c"
    by (cases "case rnd of Some b \<Rightarrow> b | None \<Rightarrow> (0xca, 0xfe, 0x01, 0x02)") (simp add: NewDoc_def Let_def)
  then show ?thesis using receive_wire [OF assms] by (simp add: RestoreDoc_def)
qed

text \<open>In terms of the turns.\<close>

lemma unbroken_words:
  assumes "map (\<lambda>x. (client x, shown x)) its = map (\<lambda>t. (cs ! fst t, runes_of (snd t))) ts"
  shows "concat (map shown (unbroken client its)) = words (unbroken (\<lambda>t. cs ! fst t) ts)"
proof -
  have "map (\<lambda>x. (client x, shown x)) (unbroken client its) =
      map (\<lambda>t. (cs ! fst t, runes_of (snd t))) (unbroken (\<lambda>t. cs ! fst t) ts)"
    using unbroken_map [of "\<lambda>x. (client x, shown x)" fst its] unbroken_map [of "\<lambda>t. (cs ! fst t, runes_of (snd t))" fst ts] assms
    by simp
  from arg_cong [OF this, of "map snd"] show ?thesis by (simp add: words_def comp_def)
qed

lemma conversation_restored:
  assumes "name \<noteq> []" and "bytes_fit name" and "\<forall>t \<in> set ts. turn_ok_for (length cs) t" and "\<forall>t \<in> set ts. bmp_only (snd t)"
    and "length (words ts) \<le> max_alloc"
  shows "\<exists>ds. ofold (turn name) ts (map (member name) cs) = Ret ds \<and> length ds = length cs \<and>
    (\<forall>d \<in> set ds. \<exists>u r. Snapshot d = Ret u \<and> RestoreDoc rnd u = Ret r \<and>
      text_String name r = Ret (string_of_runes (words (unbroken (\<lambda>t. cs ! fst t) ts))))"
proof -
  have "length (words ts) < 2 ^ 64" using assms(5) by (simp add: max_alloc_def)
  from conversation [OF assms(1-4) this] obtain its ds where ds: "ofold (turn name) ts (map (member name) cs) = Ret ds"
    "\<forall>d \<in> set ds. talking name its d" "clients ds = cs" "spoken name its (words ts)"
    "map (\<lambda>x. (client x, shown x)) its = map (\<lambda>t. (cs ! fst t, runes_of (snd t))) ts" by blast
  have "\<exists>u. Snapshot d = Ret u \<and> decodeUpdateV1 u = Ret (by_client its, [])" if "d \<in> set ds" for d
    using snapshot_decoded [OF _ ds(4) assms(2,5)] ds(2) that by (metis talking_def)
  moreover have "length ds = length cs" using ds(3) by (metis clients_def length_map)
  ultimately show ?thesis using ds(1) restore [OF _ ds(4) assms(1)] unbroken_words [OF ds(5)] by fastforce
qed

end
