(* ===== verification/TurnProperties.thy ===== *)
theory TurnProperties
  imports Restoring PeerProperties
begin

text \<open>
  Properties of peers that write in turn: every peer shows what has been written, and how much of it
  a snapshot brings back.
\<close>

text \<open>
  C1. What is written in turn replicates. Any peers with any clients, one handler each, take turns:
  a peer inserts words without supplementary characters at the end of its text, and the updates its
  handler is called with are applied by all others. Every call returns, and after any number of
  turns every peer shows the turns' words, one after the other. (With supplementary characters it
  does not hold: the writer counts runes and the decoder UTF-16 units, so that a peer gives the
  item another length than the writer did.)
\<close>
theorem turns_replicate:
  assumes "name \<noteq> []" and "bytes_fit name" and "\<forall>t \<in> set ts. turn_ok_for (length cs) t"
    and "\<forall>t \<in> set ts. bmp_only (snd t)" and "length (words ts) < 2 ^ 64"
  shows "\<exists>ds. ofold (turn name) ts (map (member name) cs) = Ret ds \<and> length ds = length cs \<and>
    (\<forall>d \<in> set ds. text_String name d = Ret (string_of_runes (words ts)))"
proof -
  obtain its ds where "ofold (turn name) ts (map (member name) cs) = Ret ds" "\<forall>d \<in> set ds. talking name its d" "clients ds = cs"
    "spoken name its (words ts)" using conversation [OF assms] by blast
  moreover from this have "length ds = length cs" by (metis clients_def length_map)
  ultimately show ?thesis using talking_text by blast
qed

theorem turns_replicate_witness:
  "\<exists>ds. ofold (turn tn) [(1, [0x61]), (0, [0x62]), (1, [0x78])] (map (member tn) [7, 3]) = Ret ds \<and>
    (\<forall>d \<in> set ds. text_String tn d = Ret (string_of_runes [0x61, 0x62, 0x78]))"
  using turns_replicate [of tn "[(1, [0x61]), (0, [0x62]), (1, [0x78])]" "[7, 3]"]
  by (simp add: turn_ok_for_def words_def tn_def bytes_fit_def max_alloc_def bmp_only_def) blast

text \<open>
  C5. What a snapshot brings back. After any conversation as in C1, in words without supplementary
  characters, every peer's snapshot, restored with any randomness, shows the words up to the first turn that was taken by a client greater than the
  one before, and nothing of that turn or of a later one: the whole text only when the clients
  never ascend.
\<close>
theorem snapshot_restores:
  assumes "name \<noteq> []" and "bytes_fit name" and "\<forall>t \<in> set ts. turn_ok_for (length cs) t"
    and "\<forall>t \<in> set ts. bmp_only (snd t)" and "length (words ts) \<le> max_alloc"
  shows "\<exists>ds. ofold (turn name) ts (map (member name) cs) = Ret ds \<and> length ds = length cs \<and>
    (\<forall>d \<in> set ds. \<exists>u r. Snapshot d = Ret u \<and> RestoreDoc rnd u = Ret r \<and>
      text_String name r = Ret (string_of_runes (words (unbroken (\<lambda>t. cs ! fst t) ts))))"
  using assms by (rule conversation_restored)

theorem snapshot_restores_witness:
  "\<exists>ds. ofold (turn tn) [(0, [0x61]), (1, [0x62]), (0, [0x78])] (map (member tn) [7, 3]) = Ret ds \<and> length ds = 2 \<and>
    (\<forall>d \<in> set ds. \<exists>u r. Snapshot d = Ret u \<and> RestoreDoc None u = Ret r \<and> text_String tn r = Ret (string_of_runes [0x61, 0x62]))"
proof -
  have order: "(3::u64) \<le> 7" "\<not> (7::u64) \<le> 3" "Suc (Suc 0) = 2" by (simp_all add: word_le_nat_alt)
  show ?thesis
    using snapshot_restores [of tn "[(0, [0x61]), (1, [0x62]), (0, [0x78])]" "[7, 3]" None]
    by (simp add: order turn_ok_for_def words_def tn_def bytes_fit_def max_alloc_def bmp_only_def)
qed

text \<open>The least case: two turns, the second one lost.\<close>

lemma snapshot_loses_text:
  assumes "name \<noteq> []" and "bytes_fit name" and "c1 < c2" and "turn_ok_for 2 (0, s1)" and "turn_ok_for 2 (1, s2)"
    and "bmp_only s1" and "bmp_only s2" and "length (words [(0, s1), (1, s2)]) \<le> max_alloc"
  shows "\<exists>ds. ofold (turn name) [(0, s1), (1, s2)] (map (member name) [c1, c2]) = Ret ds \<and> length ds = 2 \<and>
    (\<forall>d \<in> set ds. \<exists>u r. Snapshot d = Ret u \<and> RestoreDoc rnd u = Ret r \<and> text_String name r = Ret (string_of_runes (words [(0, s1)])))"
proof -
  have order: "\<not> c2 \<le> c1" "Suc (Suc 0) = 2" using assms(3) by (simp_all add: not_le)
  show ?thesis using conversation_restored [of name "[(0, s1), (1, s2)]" "[c1, c2]" rnd] assms by (simp add: order)
qed

end
