(* ===== verification/Joining.thy ===== *)
theory Joining
  imports Restoring PeerProperties
begin

text \<open>
  A client that joins a relay's room: how many bytes the state vector and the state update take, so
  that their frames can be read, the messages that the relay and the client exchange, and the room
  in which peers have written before, frame by frame from the start of the relay.
\<close>

section \<open>The size of a state\<close>

lemma decode_rune_width: "snd (decode_rune bs) \<le> 4"
  by (cases bs) (auto simp: decode_rune.simps Let_def split: list.split)

lemma runes_length: "length s \<le> 4 * rune_count s"
proof (induction s rule: runes_of.induct)
  case (2 b bs)
  obtain r w where w: "decode_rune (b # bs) = (r, w)" by fastforce
  have "length (drop (w - 1) bs) \<le> 4 * rune_count (drop (w - 1) bs)" using 2 [OF w [symmetric]] by simp
  moreover have "w \<le> 4" using decode_rune_width [of "b # bs"] by (simp add: w)
  ultimately show ?case by (simp add: rune_count_def runes_of.simps(2) w)
qed simp

lemma write_seq_length:
  assumes "write_seq wr xs = Ret b" "\<forall>x \<in> set xs. \<forall>b. wr x = Ret b \<longrightarrow> length b \<le> g x"
  shows "length b \<le> sum_list (map g xs)"
  using assms
proof (induction xs arbitrary: b)
  case (Cons x xs)
  then obtain b1 b2 where b: "wr x = Ret b1" "write_seq wr xs = Ret b2" "b = b1 @ b2" by (auto simp: outcome_simps)
  then show ?case using Cons.IH [OF b(2)] Cons.prems(2) by (simp add: add_mono)
qed simp

lemma write_heard_length:
  assumes "writeEncodedItem (wire name (heard_item name i origin s)) = Ret b"
  shows "length b \<le> 31 + length name + length s"
proof -
  have w: "length (WriteVarUint n) \<le> 10" for n by (rule length_WriteVarUint)
  have e: "length (writeEncodedID x) \<le> 20" for x using add_mono [OF w w] by (simp add: writeEncodedID_def)
  have v: "length (WriteVarString x) \<le> 10 + length x" for x using w by (simp add: WriteVarString_def WriteVarBytes_def)
  show ?thesis
  proof (cases origin)
    case None
    then show ?thesis using assms w [of 1] v [of name] v [of s]
      by (auto simp: writeEncodedItem_def wire_def heard_item_def run_encode writeItemContent_def writeParentInfo_def)
  next
    case (Some p)
    then show ?thesis using assms e [of "to_eid p"] v [of s]
      by (cases p) (auto simp: writeEncodedItem_def wire_def heard_item_def run_encode writeItemContent_def)
  qed
qed

text \<open>A bound for an item and its share of the group's header.\<close>

definition item_room :: "gostring \<Rightarrow> Item \<Rightarrow> nat" where
  "item_room name x = 61 + length name + 4 * length (shown x)"

lemma write_group_length:
  assumes b: "write_group (c, map (wire name) xs) = Ret b" and xs: "xs \<noteq> []" "\<forall>x \<in> set xs. said x \<and> (\<exists>i origin s. x = heard_item name i origin s)"
  shows "length b \<le> sum_list (map (item_room name) xs)"
proof -
  let ?g = "\<lambda>x. 31 + length name + 4 * length (shown x)"
  obtain bs k where bs: "write_seq writeEncodedItem (map (wire name) xs) = Ret bs"
    "b = WriteVarUint (of_nat (length xs)) @ WriteVarUint c @ WriteVarUint k @ bs"
    using b by (auto simp: write_group_def Let_def outcome_simps)
  have seq: "write_seq f (map h ys) = write_seq (\<lambda>x. f (h x)) ys" for f and h :: "Item \<Rightarrow> EncodedItem" and ys
    by (induction ys) simp_all
  have "length bs \<le> sum_list (map ?g xs)"
  proof (rule write_seq_length [OF bs(1) [unfolded seq]], intro ballI allI impI)
    fix x b assume x: "x \<in> set xs" and w: "writeEncodedItem (wire name x) = Ret b"
    then obtain i origin s where h: "x = heard_item name i origin s" using xs(2) by blast
    have "shown x = runes_of s" by (simp add: h heard_item_def zero_Item_def shown_def item_runes_def)
    then show "length b \<le> ?g x" using write_heard_length [OF w [unfolded h]] runes_length [of s] by (simp add: rune_count_def)
  qed
  moreover have "sum_list (map ?g ys) + 30 * length ys = sum_list (map (item_room name) ys)" for ys
    by (induction ys) (simp_all add: item_room_def)
  from this [of xs] have "sum_list (map ?g xs) + 30 \<le> sum_list (map (item_room name) xs)" using xs(1) by (cases xs) simp_all
  moreover have "length b \<le> 30 + length bs"
    using length_WriteVarUint [of "of_nat (length xs)"] length_WriteVarUint [of c] length_WriteVarUint [of k] by (simp add: bs(2))
  ultimately show ?thesis by linarith
qed

lemma room_total: "concat (map shown its) = rs \<Longrightarrow> \<forall>x \<in> set its. said x \<Longrightarrow>
  sum_list (map (item_room name) its) \<le> (length name + 65) * length rs"
proof (induction its arbitrary: rs)
  case (Cons x its)
  have "sum_list (map (item_room name) its) \<le> (length name + 65) * length (concat (map shown its))" using Cons by simp
  moreover have "1 \<le> length (shown x)" using Cons.prems(2) by (cases "shown x") (auto simp: said_def)
  then have "item_room name x \<le> (length name + 65) * length (shown x)"
    using mult_le_mono2 [of 1 "length (shown x)" "61 + length name"] by (simp add: item_room_def algebra_simps)
  ultimately show ?case using Cons.prems(1) by (auto simp: algebra_simps)
qed simp

text \<open>The state update, and the state vector.\<close>

lemma snapshot_length:
  assumes pre: "arranged name its d as" and spoken: "spoken name its rs" and u: "Snapshot d = Ret u"
  shows "u \<noteq> []" "length u \<le> (length name + 65) * length rs + 20"
proof -
  let ?G = "map (\<lambda>c. (c, map (wire name) (own c its))) (client_order its)"
  have said: "\<forall>x \<in> set its. said x \<and> (\<exists>i origin s. x = heard_item name i origin s)" and rs: "concat (map shown its) = rs"
    using spoken unfolding spoken_def by (blast, blast)
  have groups: "sort_desc (group_by_client (u_Items (state_update d []))) = ?G" using state_groups [OF pre] said by blast
  from arg_cong [OF this, of length] have n: "length (group_by_client (u_Items (state_update d []))) = length (client_order its)"
    by (simp add: sort_desc_def)
  have none: "u_DeleteSet (state_update d []) = []" "sort_desc [] = ([] :: (u64, EncodedDeleteRange list) gomap)"
    by (simp_all add: state_update_def sort_desc_def)
  obtain bs where bs: "write_seq write_group ?G = Ret bs"
    "u = WriteVarUint (of_nat (length (client_order its))) @ bs @ WriteVarUint 0"
    using u by (auto simp: Snapshot_def EncodeStateAsUpdate_def EncodeUpdateV1_def writeUpdateV1_def Let_def outcome_simps groups n none)
  let ?g = "\<lambda>p. sum_list (map (item_room name) (own (fst p) its))"
  have "length bs \<le> sum_list (map ?g ?G)"
  proof (rule write_seq_length [OF bs(1)], intro ballI allI impI)
    fix p b assume p: "p \<in> set ?G" and w: "write_group p = Ret b"
    then obtain c where c: "p = (c, map (wire name) (own c its))" "own c its \<noteq> []" using own_empty by fastforce
    have "\<forall>x \<in> set (own c its). said x \<and> (\<exists>i origin s. x = heard_item name i origin s)" using said by (simp add: own_def)
    then show "length b \<le> ?g p" using write_group_length [OF w [unfolded c(1)] c(2)] by (simp add: c(1))
  qed
  also have "\<dots> = (\<Sum>c \<in> set (client_order its). sum_list (map (item_room name) (own c its)))"
    by (simp add: comp_def sum.distinct_set_conv_list [OF client_order(2)])
  also have "\<dots> \<le> sum_list (map (item_room name) its)" by (rule own_total) simp
  also have "\<dots> \<le> (length name + 65) * length rs" using room_total [OF rs] said by blast
  finally show "length u \<le> (length name + 65) * length rs + 20"
    using length_WriteVarUint [of "of_nat (length (client_order its))"] length_WriteVarUint [of 0] by (simp add: bs(2))
  show "u \<noteq> []" by (simp add: bs(2) WriteVarUint.simps Let_def)
qed

lemma state_vector_length:
  assumes pre: "arranged name its d as"
  shows "length (d_store d) \<le> length its" "length (EncodeStateVector d) \<le> 10 + 20 * length its"
proof -
  have "length (d_store d) = card (fst ` set (d_store d))"
    using pre distinct_card [of "map fst (d_store d)"] by (simp add: arranged_def gm_ok_def)
  also have "\<dots> = card ((\<lambda>x. Client (it_ID x)) ` set its)" by (simp add: store_clients [OF pre] client_order)
  also have "\<dots> \<le> length its" using card_image_le [of "set its"] card_length [of its] by (meson List.finite_set le_trans)
  finally show n: "length (d_store d) \<le> length its" .
  have w: "length (concat (map (\<lambda>(k, v). WriteVarUint k @ WriteVarUint v) sv)) \<le> 20 * length sv" for sv
  proof (induction sv)
    case (Cons p sv)
    then show ?case using length_WriteVarUint [of "fst p"] length_WriteVarUint [of "snd p"] by (cases p) simp
  qed simp
  have "length (sort_desc (stateVector (d_heap d) (d_store d))) = length (d_store d)" by (simp add: sort_desc_def stateVector_def)
  then show "length (EncodeStateVector d) \<le> 10 + 20 * length its"
    using w [of "sort_desc (stateVector (d_heap d) (d_store d))"] n
      length_WriteVarUint [of "of_nat (length (stateVector (d_heap d) (d_store d)))"]
    by (simp add: EncodeStateVector_def EncodeStateVectorV1_def)
qed

section \<open>The messages\<close>

text \<open>A new client has nothing that a relay misses, whatever state vector the relay sends.\<close>

lemma nothing_missed:
  assumes "arranged name its d as" and "length its \<le> max_alloc"
  shows "EncodeStateAsUpdate (new_doc c) (EncodeStateVector d) = Ret [0, 0]"
proof -
  let ?sv = "stateVector (d_heap d) (d_store d)"
  have "length ?sv \<le> max_alloc" "gm_ok ?sv"
    using state_vector_length(1) [OF assms(1)] assms by (simp_all add: stateVector_def arranged_def gm_ok_def comp_def split_beta)
  then have "\<exists>sv. DecodeStateVectorV1 (EncodeStateVector d) = Ret sv"
    using DecodeStateVector_Encode [of ?sv "[]"] by (simp add: EncodeStateVector_def)
  moreover have "EncodeUpdateV1 (state_update (new_doc c) sv) = Ret [0, 0]" for sv
    using new_doc_wire(2,3) by (simp add: EncodeStateAsUpdate_def state_update_def new_doc_def newStructStore_def)
  ultimately show ?thesis by (auto simp: EncodeStateAsUpdate_def)
qed

text \<open>
  A client joins: the relay sends its state vector and registers the connection, the client answers
  with its own, the relay with the state, and \<open>Connect\<close> returns.
\<close>

lemma join_room:
  assumes pre: "arranged name its (rm_doc r) as" and spoken: "spoken name its rs"
    and name: "name \<noteq> []" "bytes_fit name" and fit: "(length name + 65) * length rs + 20 \<le> max_alloc"
  shows "\<exists>u conn. rm_sent (joined n r) = rm_sent r @ [(n, EncodeSyncStep1 (EncodeStateVector (rm_doc r)))] \<and>
    hears n (EncodeSyncStep1 (EncodeStateVector (new_doc c))) (joined n r) = goto n (Sending [(n, EncodeSyncStep2 u)]) (joined n r) \<and>
    Connect True True (Some (EncodeSyncStep1 (EncodeStateVector (rm_doc r)))) True (Some (EncodeSyncStep2 u)) fwd (new_doc c) =
      ([EncodeSyncStep1 (EncodeStateVector (new_doc c)), EncodeSyncStep2 [0, 0]], Ret conn) \<and>
    text_String name (cc_doc conn) = Ret (string_of_runes (concat (map shown (unbroken client its))))"
proof -
  have "length rs \<le> (length name + 65) * length rs" by simp
  then have len: "length rs \<le> max_alloc" "20 * length rs + 20 \<le> max_alloc" using fit by (simp_all add: algebra_simps)
  obtain u where u: "Snapshot (rm_doc r) = Ret u" "decodeUpdateV1 u = Ret (by_client its, [])"
    using snapshot_decoded [OF pre spoken name(2) len(1)] by blast
  have size: "u \<noteq> []" "bytes_fit u" using snapshot_length [OF pre spoken u(1)] fit by (simp_all add: bytes_fit_def)
  have its: "length its \<le> length rs" by (rule spoken_length [OF spoken])
  then have sv: "bytes_fit (EncodeStateVector (rm_doc r))" using state_vector_length(2) [OF pre] len(2) by (simp add: bytes_fit_def)
  have full: "EncodeStateAsUpdate (rm_doc r) (EncodeStateVector (new_doc c)) = Ret u"
    using u(1) new_doc_wire by (simp add: Snapshot_def EncodeStateAsUpdate_def)
  have none: "EncodeStateAsUpdate (new_doc c) (EncodeStateVector (rm_doc r)) = Ret [0, 0]"
    using nothing_missed [OF pre] its len(1) by simp
  obtain d where d: "ApplyUpdate u remote_origin (new_doc c) = Ret d" "text_String name d = Ret (string_of_runes (concat (map shown (unbroken client its))))"
    using receive_wire [OF u(2) spoken name(1)] by blast
  have "rm_sent (joined n r) = rm_sent r @ [(n, EncodeSyncStep1 (EncodeStateVector (rm_doc r)))]"
    by (simp add: joined_def relay_register_def goto_def relay_send_def relay_accept_def)
  moreover have "hears n (EncodeSyncStep1 (EncodeStateVector (new_doc c))) (joined n r) =
      goto n (Sending [(n, EncodeSyncStep2 u)]) (joined n r)"
    using parse_frame_frame [of "\<lparr>sm_Type = MessageYjsSyncStep1, sm_Payload = EncodeStateVector (new_doc c)\<rparr>"] full
    by (simp add: hears_def relay_receive_def relay_message_def frames new_doc_wire bytes_fit_def max_alloc_def)
  moreover have "Connect True True (Some (EncodeSyncStep1 (EncodeStateVector (rm_doc r)))) True (Some (EncodeSyncStep2 u)) fwd (new_doc c) =
      ([EncodeSyncStep1 (EncodeStateVector (new_doc c)), EncodeSyncStep2 [0, 0]],
       Ret \<lparr>cc_doc = snd (OnUpdate fwd d), cc_handlers = [], cc_calls = [],
         cc_sent = [EncodeSyncStep1 (EncodeStateVector (new_doc c)), EncodeSyncStep2 [0, 0]], cc_done = False,
         cc_unsubscribe = Some (fst (OnUpdate fwd d))\<rparr>)"
    using handshake_relay [OF none full sv size(2,1)] d(1) by (simp add: Connect_def split_beta)
  moreover have "text_String name (snd (OnUpdate fwd d)) = text_String name d"
    by (simp add: OnUpdate_def Let_def text_String_def text_start_def)
  ultimately show ?thesis using d(2) by fastforce
qed

section \<open>A room in which peers write\<close>

text \<open>
  A relay's room, from its start: the peers' connections are accepted, greeted and registered. In each
  turn a peer writes, its connection sends the updates, and the relay handles each and sends it
  on; the others' receive loops take the frames that the relay has sent to them.
\<close>

definition opened :: "nat \<Rightarrow> Room \<Rightarrow> Room" where
  "opened n r = fold joined [0..<n] r"

definition passes_on :: "nat \<Rightarrow> byte list \<Rightarrow> Room \<Rightarrow> Room" where
  "passes_on c u r =
    (let r1 = hears c (EncodeUpdate u) r in
     case rm_conns r1 c of
       Some (Sending todo) \<Rightarrow> goto c Serving (r1\<lparr>rm_sent := rm_sent r1 @ todo\<rparr>)
     | _ \<Rightarrow> r1)"

definition frames_to :: "nat \<Rightarrow> Room \<Rightarrow> Room \<Rightarrow> byte list list" where
  "frames_to k r r' = map snd (filter (\<lambda>s. fst s = k) (drop (length (rm_sent r)) (rm_sent r')))"

definition take_frames :: "byte list list \<Rightarrow> Doc \<Rightarrow> Doc outcome" where
  "take_frames fs d =
    obind (ofold client_receive (map Some fs)
      \<lparr>cc_doc = d, cc_handlers = [], cc_calls = [], cc_sent = [], cc_done = False, cc_unsubscribe = Some 0\<rparr>) (\<lambda>c.
    Ret (cc_doc c))"

definition room_turn :: "gostring \<Rightarrow> nat \<times> gostring \<Rightarrow> Room \<times> Doc list \<Rightarrow> (Room \<times> Doc list) outcome" where
  "room_turn name t s =
    (let (r, ds) = s in
     obind (speak name (snd t) (ds ! fst t)) (\<lambda>(d', us).
     let r' = fold (passes_on (fst t)) us r in
     obind (each (\<lambda>k. if k = fst t then Ret d' else take_frames (frames_to k r r') (ds ! k)) [0..<length ds]) (\<lambda>ds'.
     Ret (r', ds'))))"

text \<open>The room between two turns.\<close>

definition in_room :: "gostring \<Rightarrow> Item list \<Rightarrow> nat \<Rightarrow> Room \<Rightarrow> bool" where
  "in_room name its n r \<longleftrightarrow> relay_reach r \<and> \<not> rm_locked r \<and> rm_clients r = [0..<n] \<and>
    (\<forall>c. rm_conns r c = (if c < n then Some Serving else None)) \<and> (\<exists>as. arranged name its (rm_doc r) as)"

lemma opened_in_room: "in_room name [] n (opened n (newRoom rnd))"
proof -
  have new: "\<exists>as. arranged name [] (NewDoc rnd) as"
    by (cases "case rnd of Some b \<Rightarrow> b | None \<Rightarrow> (0xca, 0xfe, 0x01, 0x02)")
      (auto simp: NewDoc_def arranged_def arrange_def new_doc_def newStructStore_def newDeleteSet_def store_items_def Let_def)
  have "in_room name [] n (opened n (newRoom rnd)) \<and> rm_doc (opened n (newRoom rnd)) = NewDoc rnd"
  proof (induction n)
    case 0
    then show ?case using new relay_reach.start by (simp add: in_room_def opened_def newRoom_def)
  next
    case (Suc n)
    then show ?case
      using new relay_reach_join [of "opened n (newRoom rnd)" n] by (simp add: in_room_def opened_def less_Suc_eq)
  qed
  then show ?thesis by blast
qed

lemma passes_on_ok:
  assumes room: "in_room name its n r" and c: "c < n" and u: "decodeUpdateV1 u = Ret ([it], [])" "bytes_fit u"
    and it: "plain_insert name it" "item_ready (set its) it" and name: "name \<noteq> []"
  shows "in_room name (its @ [it]) n (passes_on c u r)"
    "rm_sent (passes_on c u r) = rm_sent r @ map (\<lambda>k. (k, EncodeUpdate u)) (filter (\<lambda>k. k \<noteq> c) [0..<n])"
proof -
  have at: "relay_reach r" "\<not> rm_locked r" "rm_clients r = [0..<n]" "rm_conns r c = Some Serving"
    using room c by (simp_all add: in_room_def)
  obtain d where d: "ApplyUpdate u relay_origin (rm_doc r) = Ret d" "\<exists>as. arranged name (its @ [it]) d as"
    using text_receiver.apply_update [of u "[it]" name its "rm_doc r" relay_origin] room u it name by (auto simp: in_room_def)
  let ?todo = "map (\<lambda>k. (k, EncodeUpdate u)) (filter (\<lambda>k. k \<noteq> c) [0..<n])"
  let ?r1 = "goto c (Sending ?todo) (r\<lparr>rm_doc := d\<rparr>)"
  have h: "hears c (EncodeUpdate u) r = ?r1"
    using relay_receive_update [OF u(2), of "goto c (Handling (EncodeUpdate u)) r" d c] d(1) at(3) by (simp add: hears_def goto_def)
  have p: "passes_on c u r = goto c Serving (?r1\<lparr>rm_sent := rm_sent ?r1 @ ?todo\<rparr>)" by (simp add: passes_on_def h)
  have "relay_reach ?r1" using relay_reach_steps [OF hears_steps [OF at(4,2), of "EncodeUpdate u"] at(1)] by (simp only: h)
  from relay_reach_steps [OF relay_sends this, of c ?todo]
  have "relay_reach (goto c (Sending []) (?r1\<lparr>rm_sent := rm_sent ?r1 @ ?todo\<rparr>))" by simp
  from relay_reach.step [OF this relay_step.sent [of _ c]] have "relay_reach (passes_on c u r)" by (simp add: p)
  then show "in_room name (its @ [it]) n (passes_on c u r)"
    using room c d(2) by (auto simp: in_room_def p)
  show "rm_sent (passes_on c u r) = rm_sent r @ ?todo" by (simp add: p)
qed

lemma filter_upt_eq: "k < n \<Longrightarrow> filter (\<lambda>x. x = k) [0..<n] = [k]"
  by (induction n) (auto simp: less_Suc_eq filter_empty_conv)

lemma take_update:
  assumes "hear [u] d = Ret d'" "bytes_fit u"
  shows "take_frames [EncodeUpdate u] d = Ret d'"
  using assms read_msg_frame [of "\<lparr>sm_Type = MessageYjsUpdate, sm_Payload = u\<rparr>"]
  by (auto simp: take_frames_def client_receive_def frames hear_def outcome_simps)

lemma room_turn_ok:
  assumes room: "in_room name its (length ds) r" and talk: "\<forall>d \<in> set ds. talking name its d" and spoken: "spoken name its rs"
    and c: "c < length ds" and s: "s \<noteq> []" "utf16Len s = rune_count s" "length rs + rune_count s < 2 ^ 64"
    and fit: "bytes_fit name" "bytes_fit s" and name: "name \<noteq> []" and small: "81 + length name + length s \<le> max_alloc"
  shows "\<exists>it r' ds'. room_turn name (c, s) (r, ds) = Ret (r', ds') \<and> in_room name (its @ [it]) (length ds) r' \<and>
    (\<forall>d \<in> set ds'. talking name (its @ [it]) d) \<and> clients ds' = clients ds \<and>
    spoken name (its @ [it]) (rs @ runes_of s) \<and> Client (it_ID it) = clients ds ! c \<and> shown it = runes_of s"
proof -
  have "talking name its (ds ! c)" using talk c by simp
  from speak_ok [OF this spoken s fit] obtain d' u it where w: "speak name s (ds ! c) = Ret (d', [u])"
    "decodeUpdateV1 u = Ret ([it], [])" "plain_insert name it" "item_ready (set its) it" "talking name (its @ [it]) d'"
    "spoken name (its @ [it]) (rs @ runes_of s)" "d_clientID d' = d_clientID (ds ! c)" "Client (it_ID it) = d_clientID (ds ! c)"
    "length u \<le> 81 + length name + length s"
    by blast
  have u: "bytes_fit u" using w(9) small by (simp add: bytes_fit_def)
  note pass = passes_on_ok [OF room c w(2) u w(3,4) name]
  have frames: "frames_to k r (passes_on c u r) = [EncodeUpdate u]" if "k < length ds" "k \<noteq> c" for k
  proof -
    have "filter (\<lambda>x. x \<noteq> c \<and> x = k) [0..<length ds] = filter (\<lambda>x. x = k) [0..<length ds]" using that by (intro filter_cong) auto
    also have "\<dots> = [k]" by (rule filter_upt_eq [OF that(1)])
    finally show ?thesis by (simp add: frames_to_def pass(2) filter_map comp_def conj_commute)
  qed
  let ?f = "\<lambda>k. if k = c then Ret d' else take_frames (frames_to k r (passes_on c u r)) (ds ! k)"
  have "\<exists>y. ?f k = Ret y \<and> talking name (its @ [it]) y \<and> d_clientID y = d_clientID (ds ! k)" if k: "k \<in> set [0..<length ds]" for k
  proof (cases "k = c")
    case False
    from hear_ok [OF _ w(2-4) name] obtain y where y: "hear [u] (ds ! k) = Ret y" "talking name (its @ [it]) y" "d_clientID y = d_clientID (ds ! k)"
      using talk k by force
    then show ?thesis using take_update [OF y(1) u] frames [of k] k False by simp
  qed (use w(5,7) in simp)
  then have "\<forall>k \<in> set [0..<length ds]. \<exists>y. ?f k = Ret y \<and> talking name (its @ [it]) y \<and> d_clientID y = d_clientID (ds ! k)" by blast
  from each_ok [OF this] obtain ds' where ds': "each ?f [0..<length ds] = Ret ds'"
    "list_all2 (\<lambda>k y. talking name (its @ [it]) y \<and> d_clientID y = d_clientID (ds ! k)) [0..<length ds] ds'" by blast
  have "\<forall>d \<in> set ds'. talking name (its @ [it]) d" "clients ds' = clients ds"
    using ds'(2) by (auto simp: list_all2_conv_all_nth in_set_conv_nth clients_def intro: nth_equalityI)
  moreover have "shown it = runes_of s" using spoken w(6) by (simp add: spoken_def)
  ultimately show ?thesis using ds'(1) w(1,6,8) c pass(1) by (auto simp: room_turn_def clients_def)
qed

lemma update_small:
  assumes "s \<noteq> []" "rune_count s \<le> w" "(length name + 65) * w + 20 \<le> max_alloc"
  shows "81 + length name + length s \<le> max_alloc"
proof -
  have "1 \<le> rune_count s" using runes_length [of s] assms(1) by (cases "rune_count s") auto
  then have "61 + length name + 4 * rune_count s \<le> (length name + 65) * rune_count s"
    using mult_le_mono2 [of 1 "rune_count s" "61 + length name"] by (simp add: algebra_simps)
  also have "\<dots> \<le> (length name + 65) * w" by (rule mult_le_mono2 [OF assms(2)])
  finally show ?thesis using runes_length [of s] assms(3) by linarith
qed

lemma room_talk_ok:
  assumes "in_room name its (length ds) r" "\<forall>d \<in> set ds. talking name its d" "spoken name its rs" "name \<noteq> []" "bytes_fit name"
    and "\<forall>t \<in> set ts. turn_ok_for (length ds) t" and "\<forall>t \<in> set ts. bmp_only (snd t)"
    and "(length name + 65) * (length rs + length (words ts)) + 20 \<le> max_alloc"
  shows "\<exists>its' r' ds'. ofold (room_turn name) ts (r, ds) = Ret (r', ds') \<and> in_room name its' (length ds) r' \<and>
    (\<forall>d \<in> set ds'. talking name its' d) \<and> clients ds' = clients ds \<and> spoken name its' (rs @ words ts) \<and>
    map (\<lambda>x. (Client (it_ID x), shown x)) its' =
      map (\<lambda>x. (Client (it_ID x), shown x)) its @ map (\<lambda>t. (clients ds ! fst t, runes_of (snd t))) ts"
  using assms
proof (induction ts arbitrary: ds its rs r)
  case (Cons t ts)
  obtain c s where t: "t = (c, s)" by (cases t)
  let ?w = "length rs + length (words (t # ts))"
  have s: "s \<noteq> []" "bytes_fit s" "utf16Len s = rune_count s" "c < length ds"
    using Cons.prems(6,7) by (auto simp: t turn_ok_for_def bmp_only_iff)
  have w: "length rs + rune_count s \<le> ?w" by (simp add: t words_def rune_count_def)
  have "1 * ?w \<le> (length name + 65) * ?w" by (rule mult_le_mono1) simp
  also have "\<dots> \<le> max_alloc" using Cons.prems(8) by (rule add_leD1)
  finally have fits: "length rs + rune_count s < 2 ^ 64" using w by (simp add: max_alloc_def)
  have small: "81 + length name + length s \<le> max_alloc"
    by (rule update_small [OF s(1) _ Cons.prems(8)]) (use w in simp)
  obtain it r1 ds1 where d1: "room_turn name (c, s) (r, ds) = Ret (r1, ds1)" "in_room name (its @ [it]) (length ds) r1"
    "\<forall>d \<in> set ds1. talking name (its @ [it]) d" "clients ds1 = clients ds"
    "spoken name (its @ [it]) (rs @ runes_of s)" "Client (it_ID it) = clients ds ! c" "shown it = runes_of s"
    using room_turn_ok [OF Cons.prems(1-3) s(4,1,3) fits Cons.prems(5) s(2) Cons.prems(4) small] by blast
  have len: "length ds1 = length ds" using arg_cong [OF d1(4), of length] by (simp add: clients_def)
  have "\<exists>its' r' ds'. ofold (room_turn name) ts (r1, ds1) = Ret (r', ds') \<and> in_room name its' (length ds1) r' \<and>
    (\<forall>d \<in> set ds'. talking name its' d) \<and> clients ds' = clients ds1 \<and> spoken name its' ((rs @ runes_of s) @ words ts) \<and>
    map (\<lambda>x. (Client (it_ID x), shown x)) its' =
      map (\<lambda>x. (Client (it_ID x), shown x)) (its @ [it]) @ map (\<lambda>t. (clients ds1 ! fst t, runes_of (snd t))) ts"
    by (rule Cons.IH [OF _ d1(3,5)]) (use Cons.prems(4-8) d1(2) len in \<open>auto simp: t words_def add_ac\<close>)
  then show ?case using d1(1,4,6,7) by (simp add: t words_def len)
qed (auto simp: words_def)

text \<open>The members of a room, from the start of the relay.\<close>

lemma room_conversation:
  assumes "name \<noteq> []" "bytes_fit name" "\<forall>t \<in> set ts. turn_ok_for (length cs) t" "\<forall>t \<in> set ts. bmp_only (snd t)"
    and "(length name + 65) * length (words ts) + 20 \<le> max_alloc"
  shows "\<exists>its r ds. ofold (room_turn name) ts (opened (length cs) (newRoom rnd), map (member name) cs) = Ret (r, ds) \<and>
    in_room name its (length cs) r \<and> (\<forall>d \<in> set ds. talking name its d) \<and> clients ds = cs \<and> spoken name its (words ts) \<and>
    map (\<lambda>x. (Client (it_ID x), shown x)) its = map (\<lambda>t. (cs ! fst t, runes_of (snd t))) ts"
proof -
  have "clients (map (member name) cs) = cs" by (simp add: clients_def member_talking(3) map_idI)
  then show ?thesis
    using room_talk_ok [of name "[]" "map (member name) cs" "opened (length cs) (newRoom rnd)" "[]" ts] assms
      member_talking(1,2) [of name] opened_in_room [of name "length cs" rnd] by simp
qed

end
