(* ===== verification/Deletions.thy ===== *)
theory Deletions
  imports Conflicts Sequence
begin

text \<open>
  What the state of a document says of its deletions: nothing. A deletion in an array or a map sets a
  flag of an item and is sent once, in the update of its transaction; the state vector and every
  state update are made of the items without their flags.
\<close>

section \<open>Transactions that only delete\<close>

fun only_marks :: "local_op \<Rightarrow> bool" where
  "only_marks (ArrayDelete name i n) = True"
| "only_marks (MapDelete name k) = True"
| "only_marks op = False"

lemma run_op_marks: "run_op op d = Ret d' \<Longrightarrow> only_marks op \<Longrightarrow> marks_only d d'"
  using array_delete_loop_marks
  by (cases op) (auto simp: array_Delete_def map_Delete_def mark_only split: if_splits option.splits)

lemma run_ops_marks: "ofold run_op ops d = Ret d' \<Longrightarrow> \<forall>op \<in> set ops. only_marks op \<Longrightarrow> marks_only d d'"
proof (induction ops arbitrary: d)
  case (Cons op ops)
  obtain d1 where "run_op op d = Ret d1" "ofold run_op ops d1 = Ret d'" using Cons.prems(1) by (auto simp: outcome_simps)
  then show ?case using Cons run_op_marks [of op d d1] marks_only_trans by auto
qed simp

lemma Transact_marks:
  assumes "Transact (ofold run_op ops) origin d = Ret d'" "\<forall>op \<in> set ops. only_marks op"
  shows "marks_only d d'"
proof (cases "d_currentTx d = None")
  case True
  obtain d2 where d2: "ofold run_op ops (snd (begin_tx origin d)) = Ret d2" "d_heap d' = d_heap d2" "d_store d' = d_store d2"
    using assms(1) True by (auto simp: Transact_def begin_tx_def outcome_simps Let_def fireObservers_def call_handlers_def split: if_splits)
  have "d_clientID d' = d_clientID d2"
    using assms(1) True d2(1) by (auto simp: Transact_def begin_tx_def outcome_simps Let_def fireObservers_def call_handlers_def split: if_splits)
  then have "marks_only d (snd (begin_tx origin d))" "marks_only d2 d'" by (simp_all add: marks_only_def begin_tx_def d2)
  then show ?thesis using run_ops_marks [OF d2(1) assms(2)] by (blast intro: marks_only_trans)
next
  case False
  then show ?thesis using assms run_ops_marks by (auto simp: Transact_def)
qed

section \<open>The state\<close>

lemma flagless_encoded: "itemToEncoded (flagless i) = itemToEncoded i"
  by (simp add: flagless_def itemToEncoded_def Let_def)

lemma marks_only_encoded: "marks_only d d' \<Longrightarrow> itemToEncoded (d_heap d' ! a) = itemToEncoded (d_heap d ! a)"
  by (metis flagless_encoded marks_only_def)

lemma marks_only_vector: "marks_only d d' \<Longrightarrow> EncodeStateVector d' = EncodeStateVector d"
proof -
  assume marks: "marks_only d d'"
  then have "getState (d_heap d') S c = getState (d_heap d) S c" for S c
    using marks_only_clock [OF marks] by (simp add: getState_def same_clock_def Let_def)
  then show ?thesis using marks by (simp add: EncodeStateVector_def stateVector_def marks_only_def)
qed

lemma marks_only_update:
  assumes "marks_only d d'"
  shows "EncodeStateAsUpdate d' sv = EncodeStateAsUpdate d sv"
proof -
  have "items_since (d_heap d') n S = items_since (d_heap d) n S" for n S
    using marks_only_clock [OF assms] by (simp add: items_since_def same_clock_def)
  moreover note marks_only_encoded [OF assms]
  ultimately have "state_update d' = state_update d" using assms by (simp add: state_update_def marks_only_def fun_eq_iff)
  then show ?thesis by (simp add: EncodeStateAsUpdate_def)
qed

text \<open>
  C6. The state does not say what has been deleted. Whatever the document, a transaction that deletes
  from arrays and maps leaves the state vector, the snapshot and the answer to every state vector as
  they were: a snapshot restores what was deleted, and a client that joins is sent it.
\<close>
theorem deletions_not_in_state:
  assumes "Transact (ofold run_op ops) origin d = Ret d'" and "\<forall>op \<in> set ops. only_marks op"
  shows "EncodeStateVector d' = EncodeStateVector d \<and> Snapshot d' = Snapshot d \<and>
    (\<forall>sv. EncodeStateAsUpdate d' sv = EncodeStateAsUpdate d sv)"
  using marks_only_vector marks_only_update Transact_marks [OF assms] by (simp add: Snapshot_def)

theorem deletions_not_in_state_witness:
  "\<exists>d'. Transact (ofold run_op [MapDelete tn [0x6B]]) GNil (entry_set tn [0x6B] 1 (GBool True) []) = Ret d' \<and>
    map_Get tn [0x6B] (entry_set tn [0x6B] 1 (GBool True) []) = Some (GBool True) \<and> map_Get tn [0x6B] d' = None \<and>
    Snapshot d' = Snapshot (entry_set tn [0x6B] 1 (GBool True) [])"
proof -
  let ?d = "entry_set tn [0x6B] 1 (GBool True) []" and ?dead = "entry_item tn [0x6B] 1 (GBool True)\<lparr>it_Deleted := True\<rparr>"
  have "update_ok (pending_update [] [?dead])" by (simp add: run_encode run_decode pending_update_def entry_item_def)
  from sent_update [OF this] obtain b where "encodeUpdateV1 [] [?dead] = Ret b" by blast
  then have "\<exists>d'. Transact (ofold run_op [MapDelete tn [0x6B]]) GNil ?d = Ret d' \<and> map_Get tn [0x6B] d' = None"
    by (simp add: entry_set_def entry_item_def map_peer_def Transact_def map_Delete_def run_state run_store run_map)
  then obtain d' where d': "Transact (ofold run_op [MapDelete tn [0x6B]]) GNil ?d = Ret d'" "map_Get tn [0x6B] d' = None" by blast
  have "map_Get tn [0x6B] ?d = Some (GBool True)" by (simp add: entry_set_def entry_item_def run_map zero_Item_def)
  then show ?thesis using d' deletions_not_in_state [OF d'(1)] by simp
qed

end
