(* ===== verification/Spec2Isabelle.thy ===== *)
theory Spec2Isabelle
  imports WireProperties TypeProperties RelayProperties LiveProperties TurnProperties Joining Deletions
begin

text \<open>
  A model of yjs-go, a Go implementation of the Yjs CRDT, and what is proved of it.

  \<^bold>\<open>The program.\<close> A \<open>Doc\<close> (\<open>doc.go\<close>) holds named shared types (text, array, map, XML fragment) whose
  contents are items: runs of content with an identifier (client, clock), linked into one
  list per type by \<open>Left\<close> and \<open>Right\<close> pointers and kept, per client, in a slice ordered by clock
  (\<open>store.go\<close>). Local edits run inside \<open>Transact\<close>, which at the end encodes the new items and the
  deletions as an update (\<open>encoding.go\<close>, \<open>protocol/update.go\<close>, \<open>protocol/varint.go\<close>) and hands it
  to the update handlers. \<open>ApplyUpdate\<close> decodes such an update, integrates its items
  (\<open>integrate.go\<close>) and applies its deletions (\<open>delete.go\<close>). Peers exchange state vectors and
  updates as sync messages (\<open>protocol/sync.go\<close>) over WebSockets: a client (\<open>transport/ws.go\<close>) and
  a relay with one document per room (\<open>transport/relay.go\<close>). Awareness (\<open>awareness.go\<close>) is a
  separate map of short-lived states with its own updates.

  \<^bold>\<open>The theories, in the order of the code's layers.\<close>
  \<^item> \<open>Prelude\<close>: machine words, \<open>outcome\<close> (a call returns, fails, panics or never returns), Go maps.
  \<^item> \<open>Utf8\<close>: Go's \<open>string\<close> and \<open>[]rune\<close> conversions. \<open>Varint\<close>: \<open>protocol/varint.go\<close>. \<open>AnyVal\<close>:
    \<open>ReadAny\<close> and \<open>WriteAny\<close>; \<open>Nesting\<close>: how deep \<open>ReadAny\<close> calls itself. \<open>UpdateV1\<close>: the rest of \<open>protocol/update.go\<close>; \<open>UpdateRoundtrip\<close>: its
    round trip and the endings of its decoders. \<open>SyncProtocol\<close>: \<open>protocol/sync.go\<close>.
  \<^item> \<open>Store\<close>: \<open>id.go\<close>, \<open>item.go\<close>, \<open>store.go\<close>. \<open>DocState\<close>: the state of \<open>doc.go\<close>, its handlers and
    observers. \<open>Integrate\<close>: \<open>integrate.go\<close> and \<open>delete.go\<close>. \<open>Encoding\<close>: \<open>encoding.go\<close>. \<open>DocOps\<close>:
    \<open>Transact\<close>, \<open>ApplyUpdate\<close>, snapshots.
  \<^item> \<open>TextType\<close>, \<open>ArrayType\<close>, \<open>MapType\<close>: \<open>text.go\<close>, \<open>array.go\<close> and \<open>xmlfragment.go\<close>, \<open>map.go\<close>.
    \<open>TextSpec\<close>, \<open>TextEdit\<close>, \<open>ArrayEdit\<close>: their refinement of operations on lists. \<open>Sequence\<close>: the
    contract that both share, with scripts of edits, interpreted on both.
  \<^item> \<open>IntegrateSpec\<close>: where a remote item goes. \<open>RemoteDelete\<close>: what a delete range hides.
    \<open>Convergence\<close> and \<open>MapReplicas\<close>: replicas that receive the same updates, over the contracts
    \<open>replicated_list\<close> (lists built by sinking) and \<open>receiver\<close> (a document that applies updates), with
    texts and maps as their instances. \<open>Replication\<close>: an insert on its way to a peer. \<open>Appending\<close>:
    peers that write in turn. \<open>Snapshots\<close>: the state of such a peer on the wire. \<open>Slices\<close>: the
    store, apart from any list. \<open>Restoring\<close>: what a new document makes of that state.
    \<open>Joining\<close>: how large it is on the wire, the messages by which a client takes it over, and a
    relay's room in which peers write.
  \<^item> \<open>Chains\<close>, \<open>Wellformed\<close>, \<open>Totality\<close>, \<open>LocalEdits\<close>: the invariant \<open>doc_wf\<close> of every document, kept
    by the updates of any peer and by every local edit but one, and the endings it leaves to each
    call. \<open>Typing\<close>: the types of the items' contents, kept by all calls.
  \<^item> \<open>Awareness\<close>: \<open>awareness.go\<close>. \<open>Transport\<close>: a room of the relay as a step relation, the client's
    handshake and receive loop. \<open>Sessions\<close>: \<open>Connect\<close> to \<open>Close\<close>, the relay's table of rooms, and its
    shutdown. \<open>ByteReader\<close>: the \<open>io.Reader\<close> under the frames, and why the readers of
    \<open>protocol/varint.go\<close> may be modelled on lists of bytes.
  \<^item> \<open>WireProperties\<close>, \<open>TypeProperties\<close>, \<open>PeerProperties\<close>, \<open>RelayProperties\<close>, \<open>LiveProperties\<close>,
    \<open>TurnProperties\<close> and this theory state the properties; \<open>Deviations\<close>, \<open>Conflicts\<close> and
    \<open>Deletions\<close> have those on which the code does not do what it is for.

  \<^bold>\<open>How the state corresponds.\<close> A \<open>*Item\<close> is an address, an index into \<open>d_heap\<close>; a pointer
  that may be nil is an option; items are never freed, as the store keeps them. \<open>d_store\<close> is
  \<open>StructStore.clients\<close>, \<open>d_share\<close> is \<open>Doc.share\<close>, transactions live in \<open>d_txs\<close> and
  \<open>d_currentTx\<close> is the index of the open one. A \<open>SharedType\<close> is named by its key in \<open>share\<close>, under
  which the code registers it once. Callbacks are numbers, and calls of them are recorded in
  \<open>d_events\<close>. Go's maps are association lists, whose order is the order in which \<open>range\<close> visits
  them. A \<open>uint64\<close> is a 64-bit word and wraps around. Every loop along the pointers is a
  partial function, so that a cyclic list is a call that does not return.

  \<^bold>\<open>What is shown.\<close> The wire formats read back what they write, whatever follows, and decoding any
  bytes ends. On a well-formed list, text and array operations, single and in scripts, are
  those of lists of runes and of values, and map operations those of a partial function;
  the lists stay well formed. A remote item goes where a pure function on lists says, and a remote
  delete range hides exactly its runes. Replicas that only receive converge: new documents that
  apply the same updates of text inserts, or of map sets, in any causal orders show the same.
  Replicas that also write need not: an insert in front of a greater client's text, or a key set
  over a greater client's value, ends differently on the peer (\<open>Conflicts\<close>). Peers that write in
  turn at the end of the text agree; but a snapshot of theirs, and what a client is shown that joins
  their room through \<open>Connect\<close>, end before the first turn that a greater client took after a
  smaller one, as the encoder groups the items by client and the integration leaves out an item that
  comes before its origin (\<open>snapshot_restores\<close>, \<open>joining_client_shows_text\<close>). The state of a
  document says nothing of what has been deleted from its arrays and maps, so that either brings it
  back (\<open>Deletions\<close>).

  For the documents that calls of the program and updates of any peers bring about (\<open>doc_reach\<close>):
  applying any bytes, reading, encoding and every transaction end, with the panics that are left
  named. One call is left out of them, an \<open>Insert\<close> of several values into an array while the client's
  slice holds an item behind its clock (\<open>stale_insert\<close>): it can make the array a cycle, on which
  the loops do not end (\<open>array_insert_makes_cycle\<close>). That the contents have the types which their
  kinds promise holds after all calls (\<open>api_reach\<close>). The relay's rooms keep their list of
  clients, echo nothing, lock up only through a panic of the update decoder, and empty themselves
  after a shutdown, when the messages that were read before it have been handled; a client that
  joins while another one writes can be sent that update where its handshake expects the state, and
  fails.

  Peers that write in turn do so in words without supplementary characters (\<open>bmp_only\<close>): the code
  counts an item's length in runes when it is written and in UTF-16 units when it is decoded, and
  where the two differ the next item's origin is not found (\<open>length_measures_agree_iff\<close>,
  \<open>insert_panics_on_received_text\<close>). For the same reason the items of a well-formed text, in the
  refinement of text operations and in \<open>concurrent_inserts_converge\<close>, are those whose length is the
  number of their runes (\<open>text_item\<close>).

  \<^bold>\<open>Bounds.\<close> \<open>make\<close> panics above \<open>max_alloc\<close>, two to the 48 bytes, the address space of the Go
  runtime on 64-bit machines; \<open>bytes_fit\<close> says that a slice is below it. No fuel is used. Clock
  hypotheses (\<open>own_ok\<close>, \<open>clocks_ok\<close>) say that counters have not reached two to the 64.

  \<^bold>\<open>Not modelled.\<close> The HTTP upgrade, TLS and WebSocket library, and the contexts of a dial: the
  environment chooses which step comes next and whether a dial, read or write fails. A shutdown of
  the relay is a flag, after which its connections take the steps of \<open>cancelled_step\<close>: \<open>Read\<close> and
  \<open>Write\<close> fail, and a message that \<open>Read\<close> has returned before is still handled, as reading it and
  handling it are two steps of a connection. Goroutine
  scheduling inside a critical section: a mutex makes it one step. \<open>encoding/json\<close>, a parameter
  of the awareness model with a round-trip hypothesis. The
  state of a document after a panic that a caller recovers: the model ends with the panic; only
  the relay's mutex is followed past it. Memory that runs out below the bound of \<open>make\<close>, and the
  stack, but for the one recursive reader: \<open>ReadAny\<close> is read on a stack of any size in \<open>Nesting\<close>,
  and elsewhere its stack is large enough.
\<close>

section \<open>Joining a room\<close>

text \<open>
  C22. What a client that joins a room is shown. A relay opens a room, peers join it and write in turn
  words without supplementary characters; each turn's update goes to the relay as a frame, is handled
  there and sent on, and the others' receive loops take the frames sent to them. The room that is
  reached in this way, like every peer, shows all words. Then one more connection is accepted: the
  relay sends its state vector and registers it, answers the client's first message with the room's
  state, and \<open>Connect\<close> reads both frames, sends the empty update, and returns a connection whose
  document shows the words up to the first turn that was taken by a client greater than the one
  before: all of them only when the clients never ascend.
\<close>
theorem joining_client_shows_text:
  assumes "name \<noteq> []" and "bytes_fit name" and "\<forall>t \<in> set ts. turn_ok_for (length cs) t" and "\<forall>t \<in> set ts. bmp_only (snd t)"
    and "(length name + 65) * length (words ts) + 20 \<le> max_alloc" and "length cs \<le> n"
  shows "\<exists>r ds u conn. ofold (room_turn name) ts (opened (length cs) (newRoom rnd), map (member name) cs) = Ret (r, ds) \<and>
    relay_reach r \<and> rm_clients r = [0..<length cs] \<and> length ds = length cs \<and>
    (\<forall>d \<in> insert (rm_doc r) (set ds). text_String name d = Ret (string_of_runes (words ts))) \<and>
    relay_reach (joined n r) \<and> rm_sent (joined n r) = rm_sent r @ [(n, EncodeSyncStep1 (EncodeStateVector (rm_doc r)))] \<and>
    hears n (EncodeSyncStep1 (EncodeStateVector (new_doc c))) (joined n r) = goto n (Sending [(n, EncodeSyncStep2 u)]) (joined n r) \<and>
    Connect True True (Some (EncodeSyncStep1 (EncodeStateVector (rm_doc r)))) True (Some (EncodeSyncStep2 u)) fwd (new_doc c) =
      ([EncodeSyncStep1 (EncodeStateVector (new_doc c)), EncodeSyncStep2 [0, 0]], Ret conn) \<and>
    text_String name (cc_doc conn) = Ret (string_of_runes (words (unbroken (\<lambda>t. cs ! fst t) ts)))"
proof -
  obtain its r ds where run: "ofold (room_turn name) ts (opened (length cs) (newRoom rnd), map (member name) cs) = Ret (r, ds)"
    "in_room name its (length cs) r" "\<forall>d \<in> set ds. talking name its d" "clients ds = cs" "spoken name its (words ts)"
    "map (\<lambda>x. (client x, shown x)) its = map (\<lambda>t. (cs ! fst t, runes_of (snd t))) ts"
    using room_conversation [OF assms(1-5)] by blast
  then obtain as where as: "arranged name its (rm_doc r) as" by (auto simp: in_room_def)
  note room = run(2) [unfolded in_room_def]
  have len: "length ds = length cs" using run(4) by (metis clients_def length_map)
  have joined: "relay_reach (joined n r)" using room assms(6) by (intro relay_reach_join) simp_all
  have "text_String name (rm_doc r) = Ret (string_of_runes (words ts))" using arranged_text [OF as] run(5) by (simp add: spoken_def)
  moreover have "text_String name d = Ret (string_of_runes (words ts))" if "d \<in> set ds" for d
    using talking_text [OF _ run(5)] run(3) that by blast
  ultimately have shown: "\<forall>d \<in> insert (rm_doc r) (set ds). text_String name d = Ret (string_of_runes (words ts))" by blast
  from join_room [OF as run(5) assms(1,2,5), of n c fwd] show ?thesis
    unfolding unbroken_words [OF run(6)]
    by (elim exE) (intro exI conjI, (use run(1) room len joined shown in simp)+)
qed

theorem joining_client_shows_text_witness:
  "\<exists>r ds u conn. ofold (room_turn tn) [(0, [0x61]), (1, [0x62]), (0, [0x78])] (opened 2 (newRoom None), map (member tn) [7, 3]) = Ret (r, ds) \<and>
    relay_reach r \<and> rm_clients r = [0, 1] \<and> text_String tn (rm_doc r) = Ret (string_of_runes [0x61, 0x62, 0x78]) \<and>
    Connect True True (Some (EncodeSyncStep1 (EncodeStateVector (rm_doc r)))) True (Some (EncodeSyncStep2 u)) 9 (new_doc 5) =
      ([EncodeSyncStep1 (EncodeStateVector (new_doc 5)), EncodeSyncStep2 [0, 0]], Ret conn) \<and>
    text_String tn (cc_doc conn) = Ret (string_of_runes [0x61, 0x62])"
proof -
  let ?turns = "[(0, [0x61]), (1, [0x62]), (0, [0x78])] :: (nat \<times> gostring) list"
  have ts: "\<forall>t \<in> set ?turns. turn_ok_for (length [7, 3 :: u64]) t" "\<forall>t \<in> set ?turns. bmp_only (snd t)"
    "(length tn + 65) * length (words ?turns) + 20 \<le> max_alloc" "length [7, 3 :: u64] \<le> 5"
    "words ?turns = [0x61, 0x62, 0x78]" "words (unbroken (\<lambda>t. [7, 3 :: u64] ! fst t) ?turns) = [0x61, 0x62]"
    by (simp_all add: word_le_nat_alt turn_ok_for_def words_def tn_def bytes_fit_def max_alloc_def bmp_only_def)
  have tn: "tn \<noteq> []" "bytes_fit tn" by (simp_all add: tn_def bytes_fit_def max_alloc_def)
  have two: "length [7, 3 :: u64] = 2" "[0..<2] = [0, 1 :: nat]" by (simp_all add: upt_rec)
  show ?thesis
    by (rule exE [OF joining_client_shows_text [OF tn ts(1-4), of None 5 9, unfolded ts(5,6) two]], elim exE conjE)
      (intro exI conjI, assumption, assumption, assumption, rule bspec [OF _ insertI1], assumption+)
qed

end
